(* ===== verification/Prelude.thy ===== *)
theory Prelude
  imports Main "HOL-Library.Word" "HOL-Library.AList"
begin

text \<open>
  Shared vocabulary of the development: the machine types of the Rust sources, the
  result type of fallible operations, checked and saturating arithmetic, and the two
  container models that every component uses.

  \<^item> \<open>u8\<close> \dots \<open>u256\<close> are machine words; \<open>hash\<close> is the array \<open>[u8; 32]\<close> read as a
    big-endian number, \<open>address\<close> is \<open>[u8; 20]\<close>. The order of a byte array in Rust is
    lexicographic, which for a fixed length is the order of these numbers.
  \<^item> \<open>usize\<close> is only used for lengths and for configured sizes and is a \<open>nat\<close>.
  \<^item> \<open>outcome\<close> is \<open>Result\<close> with a third case for a panic. Overflow of \<open>+\<close>, \<open>-\<close>, \<open>*\<close>
    on primitive integers is a panic (Rust with overflow checks), and so is overflow
    of \<open>U256\<close> arithmetic in every build profile.
  \<^item> \<open>HashMap\<close> is an association list with distinct keys; the order of the list stands
    for the unspecified iteration order. \<open>BTreeMap\<close> is an association list with
    strictly increasing keys, \<open>BTreeSet\<close> a strictly increasing list.
\<close>

declare map_of_eq_Some_iff [simp del] Some_eq_map_of_iff [simp del]

section \<open>Machine types\<close>

type_synonym u8 = "8 word"
type_synonym u16 = "16 word"
type_synonym u32 = "32 word"
type_synonym u64 = "64 word"
type_synonym u128 = "128 word"
type_synonym u256 = "256 word"
type_synonym hash = "256 word"
type_synonym address = "160 word"
type_synonym uuid = "128 word"
type_synonym usize = nat
type_synonym timestamp = u64

section \<open>Results\<close>

datatype ('a, 'e) outcome = Ok 'a | Err 'e | Panic

fun is_ok :: "('a, 'e) outcome \<Rightarrow> bool" where
  "is_ok (Ok _) = True"
| "is_ok (Err _) = False"
| "is_ok Panic = False"

lemma is_ok_iff: "is_ok r \<longleftrightarrow> (\<exists>x. r = Ok x)"
  by (cases r) auto

text \<open>The \<open>?\<close> operator, a check that returns early, and arithmetic that panics.\<close>

definition and_then :: "('a, 'e) outcome \<Rightarrow> ('a \<Rightarrow> ('b, 'e) outcome) \<Rightarrow> ('b, 'e) outcome" where
  "and_then r f = (case r of Ok x \<Rightarrow> f x | Err e \<Rightarrow> Err e | Panic \<Rightarrow> Panic)"

definition fail_if :: "bool \<Rightarrow> 'e \<Rightarrow> (unit, 'e) outcome" where
  "fail_if b e = (if b then Err e else Ok ())"

definition or_panic :: "'a option \<Rightarrow> ('a, 'e) outcome" where
  "or_panic v = (case v of Some x \<Rightarrow> Ok x | None \<Rightarrow> Panic)"

lemma and_then_simps [simp]: "and_then (Ok x) f = f x" "and_then (Err e) f = Err e" "and_then Panic f = Panic"
  by (simp_all add: and_then_def)

lemma and_then_eq_Ok [simp]: "and_then r f = Ok y \<longleftrightarrow> (\<exists>x. r = Ok x \<and> f x = Ok y)"
  by (cases r) simp_all

lemma fail_if_eq_Ok [simp]: "fail_if b e = Ok u \<longleftrightarrow> \<not> b"
  by (simp add: fail_if_def)

lemma or_panic_eq_Ok [simp]: "or_panic v = Ok x \<longleftrightarrow> v = Some x"
  by (simp add: or_panic_def split: option.split)

section \<open>Checked and saturating arithmetic\<close>

named_theorems word_arith_simps

definition checked_add :: "'a::len word \<Rightarrow> 'a word \<Rightarrow> 'a word option" where
  "checked_add a b = (if unat a + unat b < 2 ^ LENGTH('a) then Some (a + b) else None)"

definition checked_sub :: "'a::len word \<Rightarrow> 'a word \<Rightarrow> 'a word option" where
  "checked_sub a b = (if b \<le> a then Some (a - b) else None)"

definition checked_mul :: "'a::len word \<Rightarrow> 'a word \<Rightarrow> 'a word option" where
  "checked_mul a b = (if unat a * unat b < 2 ^ LENGTH('a) then Some (a * b) else None)"

definition saturating_add :: "'a::len word \<Rightarrow> 'a word \<Rightarrow> 'a word" where
  "saturating_add a b = (if unat a + unat b < 2 ^ LENGTH('a) then a + b else - 1)"

definition saturating_sub :: "'a::len word \<Rightarrow> 'a word \<Rightarrow> 'a word" where
  "saturating_sub a b = (if b \<le> a then a - b else 0)"

definition saturating_mul :: "'a::len word \<Rightarrow> 'a word \<Rightarrow> 'a word" where
  "saturating_mul a b = (if unat a * unat b < 2 ^ LENGTH('a) then a * b else - 1)"

lemma unat_add_no_overflow [word_arith_simps]:
  fixes a b :: "'a::len word"
  shows "unat a + unat b < 2 ^ LENGTH('a) \<Longrightarrow> unat (a + b) = unat a + unat b"
  by (simp add: unat_word_ariths)

lemma unat_mul_no_overflow [word_arith_simps]:
  fixes a b :: "'a::len word"
  shows "unat a * unat b < 2 ^ LENGTH('a) \<Longrightarrow> unat (a * b) = unat a * unat b"
  by (simp add: unat_word_ariths)

lemma unat_max_word: "unat (- 1 :: 'a::len word) = 2 ^ LENGTH('a) - 1"
  by (simp add: unsigned_minus_1_eq_mask mask_eq_exp_minus_1)

lemma word_eq_if_unat_eq: "unat a = unat b \<Longrightarrow> a = b"
  by (simp add: word_unat_eq_iff)

lemma unat_ucast_up:
  fixes w :: "'a::len word"
  assumes "LENGTH('a) \<le> LENGTH('b::len)"
  shows "unat (ucast w :: 'b word) = unat w"
proof -
  have "unat w < 2 ^ LENGTH('a)" by (rule unsigned_less)
  also have "\<dots> \<le> 2 ^ LENGTH('b)" using assms by simp
  finally show ?thesis by (simp add: unsigned_ucast_eq take_bit_nat_eq_self_iff)
qed

lemma checked_add_Some_iff:
  fixes a b c :: "'a::len word"
  shows "checked_add a b = Some c \<longleftrightarrow>
    unat a + unat b < 2 ^ LENGTH('a) \<and> unat c = unat a + unat b"
  by (auto simp: checked_add_def unat_add_no_overflow intro: word_eq_if_unat_eq)

lemma checked_mul_Some_iff:
  fixes a b c :: "'a::len word"
  shows "checked_mul a b = Some c \<longleftrightarrow>
    unat a * unat b < 2 ^ LENGTH('a) \<and> unat c = unat a * unat b"
  by (auto simp: checked_mul_def unat_mul_no_overflow intro: word_eq_if_unat_eq)

lemma unat_saturating_add:
  fixes a b :: "'a::len word"
  shows "unat (saturating_add a b) = min (unat a + unat b) (2 ^ LENGTH('a) - 1)"
  by (auto simp: saturating_add_def unat_add_no_overflow unat_max_word min_def)

lemma unat_saturating_sub: "unat (saturating_sub a b) = unat a - unat b"
  by (auto simp: saturating_sub_def unat_sub word_le_nat_alt)

lemma unat_saturating_mul:
  fixes a b :: "'a::len word"
  shows "unat (saturating_mul a b) = min (unat a * unat b) (2 ^ LENGTH('a) - 1)"
proof (cases "unat a * unat b < 2 ^ LENGTH('a)")
  case True
  then show ?thesis by (simp add: saturating_mul_def unat_mul_no_overflow)
next
  case False
  then have "2 ^ LENGTH('a) - 1 \<le> unat a * unat b" by simp
  with False show ?thesis
    by (simp only: saturating_mul_def unat_max_word min_absorb2 if_False)
qed

text \<open>Code equations over binary integers, so that concrete words evaluate.\<close>

lemma unat_uint_less: "unat a + unat b < 2 ^ n \<longleftrightarrow> uint a + uint b < 2 ^ n"
  and unat_uint_mult_less: "unat a * unat b < 2 ^ n \<longleftrightarrow> uint a * uint b < 2 ^ n"
proof -
  have "int (unat a + unat b) < int (2 ^ n) \<longleftrightarrow> uint a + uint b < 2 ^ n"
    by simp
  then show "unat a + unat b < 2 ^ n \<longleftrightarrow> uint a + uint b < 2 ^ n"
    by (simp only: of_nat_less_iff)
  have "int (unat a * unat b) < int (2 ^ n) \<longleftrightarrow> uint a * uint b < 2 ^ n"
    by simp
  then show "unat a * unat b < 2 ^ n \<longleftrightarrow> uint a * uint b < 2 ^ n"
    by (simp only: of_nat_less_iff)
qed

lemma checked_add_code [code]:
  "checked_add (a :: 'a::len word) b = (if uint a + uint b < 2 ^ LENGTH('a) then Some (a + b) else None)"
  by (simp add: checked_add_def unat_uint_less)

lemma checked_mul_code [code]:
  "checked_mul (a :: 'a::len word) b = (if uint a * uint b < 2 ^ LENGTH('a) then Some (a * b) else None)"
  by (simp add: checked_mul_def unat_uint_mult_less)

lemma saturating_add_code [code]:
  "saturating_add (a :: 'a::len word) b = (if uint a + uint b < 2 ^ LENGTH('a) then a + b else - 1)"
  by (simp add: saturating_add_def unat_uint_less)

lemma saturating_mul_code [code]:
  "saturating_mul (a :: 'a::len word) b = (if uint a * uint b < 2 ^ LENGTH('a) then a * b else - 1)"
  by (simp add: saturating_mul_def unat_uint_mult_less)

section \<open>Decimal text\<close>

text \<open>The text that formatting gives an unsigned integer.\<close>

fun nat_str :: "nat \<Rightarrow> string" where
  "nat_str n = (if n < 10 then [char_of (48 + n)] else nat_str (n div 10) @ [char_of (48 + n mod 10)])"

declare nat_str.simps [simp del]

end
