(* ===== verification/Containers.thy ===== *)
theory Containers
  imports Prelude
begin

text \<open>
  Models of the standard library's containers. A \<open>HashMap\<close> is an association list with
  distinct keys (\<open>hm_inv\<close>), updated with \<open>AList.update\<close> and \<open>AList.delete\<close>; a
  \<open>BTreeMap\<close> is an association list with strictly increasing keys (\<open>bt_inv\<close>); a
  \<open>BTreeSet\<close> is a strictly increasing list (\<open>bs_inv\<close>). The locale \<open>finite_map\<close> is the
  contract that the components rely on; both map models are shown to meet it.
\<close>

section \<open>The map contract\<close>

locale finite_map =
  fixes lookup :: "'m \<Rightarrow> 'k \<Rightarrow> 'v option"
    and ins :: "'k \<Rightarrow> 'v \<Rightarrow> 'm \<Rightarrow> 'm"
    and del :: "'k \<Rightarrow> 'm \<Rightarrow> 'm"
    and len :: "'m \<Rightarrow> nat"
    and inv :: "'m \<Rightarrow> bool"
    and emp :: "'m"
  assumes lookup_emp: "lookup emp k = None"
    and inv_emp: "inv emp"
    and lookup_ins: "inv m \<Longrightarrow> lookup (ins k v m) = (lookup m)(k \<mapsto> v)"
    and lookup_del: "inv m \<Longrightarrow> lookup (del k m) = (lookup m)(k := None)"
    and inv_ins: "inv m \<Longrightarrow> inv (ins k v m)"
    and inv_del: "inv m \<Longrightarrow> inv (del k m)"
    and finite_dom: "inv m \<Longrightarrow> finite (dom (lookup m))"
    and len_card: "inv m \<Longrightarrow> len m = card (dom (lookup m))"
begin

lemma len_emp: "len emp = 0"
proof -
  have "dom (lookup emp) = {}" by (auto simp: lookup_emp)
  then show ?thesis by (simp add: len_card inv_emp)
qed

lemma len_ins: "inv m \<Longrightarrow> len (ins k v m) = (if lookup m k = None then Suc (len m) else len m)"
  by (auto simp: len_card inv_ins lookup_ins finite_dom card_insert_if insert_absorb)

lemma len_del: "inv m \<Longrightarrow> len (del k m) = (if lookup m k = None then len m else len m - 1)"
  by (auto simp: len_card inv_del lookup_del finite_dom card_Diff_singleton_if domI)

lemma len_pos: "inv m \<Longrightarrow> lookup m k = Some v \<Longrightarrow> 0 < len m"
  by (auto simp: len_card finite_dom card_gt_0_iff)

lemma len_del_ins:
  "inv m \<Longrightarrow> lookup m k = Some v \<Longrightarrow> k \<noteq> k' \<Longrightarrow> len (ins k' v' (del k m)) \<le> len m"
  by (auto simp: len_ins len_del inv_del lookup_del dest: len_pos)

lemma ins_list_lookup:
  assumes "inv m"
  shows "inv (foldr (\<lambda>(k, v). ins k v) kvs m) \<and>
    lookup (foldr (\<lambda>(k, v). ins k v) kvs m) = lookup m ++ map_of kvs"
  using assms by (induction kvs) (auto simp: inv_ins lookup_ins)

end

section \<open>Hash maps\<close>

abbreviation hm_inv :: "('k \<times> 'v) list \<Rightarrow> bool" where
  "hm_inv m \<equiv> distinct (map fst m)"

lemma card_dom_map_of: "hm_inv m \<Longrightarrow> card (dom (map_of m)) = length m"
  by (metis dom_map_of_conv_image_fst distinct_card length_map list.set_map)

interpretation hm: finite_map "map_of" "AList.update" "AList.delete" "length" "hm_inv" "[]"
  by unfold_locales
    (auto simp: update_conv' delete_conv' distinct_update distinct_delete card_dom_map_of
      finite_dom_map_of)

lemma hm_update_other: "k \<noteq> k' \<Longrightarrow> map_of (AList.update k v m) k' = map_of m k'"
  by (simp add: update_conv')

lemma hm_mem_iff: "hm_inv m \<Longrightarrow> (k, v) \<in> set m \<longleftrightarrow> map_of m k = Some v"
  by (simp add: map_of_eq_Some_iff)

lemma hm_values_iff: "hm_inv m \<Longrightarrow> v \<in> snd ` set m \<longleftrightarrow> (\<exists>k. map_of m k = Some v)"
  by (force simp: image_iff map_of_eq_Some_iff)

lemma hm_filter_inv: "hm_inv m \<Longrightarrow> hm_inv (filter P m)"
  by (rule distinct_map_filter)

lemma hm_filter_lookup:
  "hm_inv m \<Longrightarrow>
   map_of (filter P m) k = (case map_of m k of None \<Rightarrow> None | Some v \<Rightarrow> if P (k, v) then Some v else None)"
  by (induction m) (auto split: option.splits simp: map_of_eq_None_iff rev_image_eqI)

lemma hm_eqI:
  assumes "map fst m = map fst m'" and "hm_inv m" and "map_of m = map_of m'"
  shows "m = m'"
proof -
  have rebuild: "xs = map (\<lambda>k. (k, the (map_of xs k))) (map fst xs)" if "hm_inv xs" for xs :: "('a \<times> 'b) list"
    using that
  proof (intro nth_equalityI)
    fix i assume i: "i < length xs"
    then have "map_of xs (fst (xs ! i)) = Some (snd (xs ! i))"
      using that by (simp add: map_of_eq_Some_iff)
    then show "xs ! i = map (\<lambda>k. (k, the (map_of xs k))) (map fst xs) ! i"
      using i by simp
  qed simp
  from rebuild [of m] rebuild [of m'] assms show ?thesis by simp
qed

lemma hm_update_keys_present: "map_of m k = Some v \<Longrightarrow> map fst (AList.update k w m) = map fst m"
  by (induction m) (auto split: if_splits)

lemma hm_length_update: "length (AList.update k v m) = length m + (if map_of m k = None then 1 else 0)"
  by (induction m) auto

lemma hm_delete_absent: "map_of m k = None \<Longrightarrow> AList.delete k m = m"
  by (induction m) (auto split: if_splits)

lemma hm_insert_all: "hm_inv (m @ es) \<Longrightarrow> fold (\<lambda>(k, v). AList.update k v) es m = m @ es"
proof (induction es arbitrary: m)
  case (Cons e es)
  obtain k v where e: "e = (k, v)" by fastforce
  have "k \<notin> fst ` set m" using Cons.prems by (auto simp: e)
  then have "AList.update k v m = m @ [e]" by (induction m) (auto simp: e)
  then show ?case using Cons by (simp add: e)
qed simp

lemma hm_sum_update:
  fixes f :: "'k \<times> 'v \<Rightarrow> nat"
  assumes "hm_inv m"
  shows "sum_list (map f (AList.update k v m)) + (case map_of m k of None \<Rightarrow> 0 | Some w \<Rightarrow> f (k, w)) =
    sum_list (map f m) + f (k, v)"
  using assms
proof (induction m)
  case (Cons x m)
  obtain k' v' where x: "x = (k', v')" by (cases x)
  show ?case
  proof (cases "k' = k")
    case True
    then have "map_of m k = None" using Cons.prems x by (auto simp: map_of_eq_None_iff)
    with True x show ?thesis by simp
  qed (use Cons x in auto)
qed simp

section \<open>Ordered maps\<close>

abbreviation bt_inv :: "('k::linorder \<times> 'v) list \<Rightarrow> bool" where
  "bt_inv m \<equiv> sorted_wrt (<) (map fst m)"

fun bt_insert :: "'k::linorder \<Rightarrow> 'v \<Rightarrow> ('k \<times> 'v) list \<Rightarrow> ('k \<times> 'v) list" where
  "bt_insert k v [] = [(k, v)]"
| "bt_insert k v ((k', v') # m) =
     (if k < k' then (k, v) # (k', v') # m
      else if k = k' then (k, v) # m
      else (k', v') # bt_insert k v m)"

definition bt_first_key :: "('k \<times> 'v) list \<Rightarrow> 'k option" where
  "bt_first_key m = (case m of [] \<Rightarrow> None | (k, _) # _ \<Rightarrow> Some k)"

lemma bt_inv_distinct: "bt_inv m \<Longrightarrow> hm_inv m"
  by (simp add: strict_sorted_iff)

lemma bt_insert_keys: "fst ` set (bt_insert k v m) = insert k (fst ` set m)"
  by (induction k v m rule: bt_insert.induct) auto

lemma bt_insert_inv: "bt_inv m \<Longrightarrow> bt_inv (bt_insert k v m)"
proof (induction k v m rule: bt_insert.induct)
  case (2 k v k' v' m)
  have keys: "(a, b) \<in> set (bt_insert k v m) \<Longrightarrow> a = k \<or> a \<in> fst ` set m" for a b
    using bt_insert_keys [of k v m] by force
  from "2" show ?case by (auto dest!: keys)
qed simp

lemma bt_insert_lookup: "bt_inv m \<Longrightarrow> map_of (bt_insert k v m) = (map_of m)(k \<mapsto> v)"
proof (induction k v m rule: bt_insert.induct)
  case (2 k v k' v' m)
  then show ?case by (auto simp: fun_eq_iff)
qed simp

lemma bt_delete_inv: "bt_inv m \<Longrightarrow> bt_inv (AList.delete k m)"
  by (induction m) (auto simp: delete_keys)

interpretation bt: finite_map "map_of" "bt_insert" "AList.delete" "length" "bt_inv" "[]"
  by unfold_locales
    (auto simp: bt_insert_lookup bt_insert_inv delete_conv' bt_delete_inv finite_dom_map_of
      card_dom_map_of bt_inv_distinct)

lemma bt_first_key_least:
  "bt_inv m \<Longrightarrow> bt_first_key m = Some k \<Longrightarrow> k \<in> dom (map_of m) \<and> (\<forall>k' \<in> dom (map_of m). k \<le> k')"
  by (cases m) (auto simp: bt_first_key_def dom_map_of_conv_image_fst less_imp_le)

lemma bt_first_key_None: "bt_first_key m = None \<longleftrightarrow> m = []"
  by (auto simp: bt_first_key_def split: list.splits)

lemma bt_inv_eqI:
  assumes "bt_inv m" and "bt_inv m'" and "map_of m = map_of m'"
  shows "m = m'"
proof -
  have lookup: "m = map (\<lambda>k. (k, the (map_of m k))) (map fst m)" if "bt_inv m" for m :: "('a \<times> 'b) list"
    unfolding map_map by (rule map_idI [symmetric]) (use bt_inv_distinct [OF that] in auto)
  have "set (map fst m) = set (map fst m')" using arg_cong [OF assms(3), of dom] by (simp add: dom_map_of_conv_image_fst)
  then have "map fst m = map fst m'" using assms(1, 2) by (intro strict_sorted_equal)
  then show ?thesis using lookup [OF assms(1)] lookup [OF assms(2)] assms(3) by simp
qed

section \<open>Ordered sets\<close>

abbreviation bs_inv :: "'a::linorder list \<Rightarrow> bool" where
  "bs_inv xs \<equiv> sorted_wrt (<) xs"

fun bs_insert :: "'a::linorder \<Rightarrow> 'a list \<Rightarrow> 'a list" where
  "bs_insert x [] = [x]"
| "bs_insert x (y # ys) =
     (if x < y then x # y # ys else if x = y then y # ys else y # bs_insert x ys)"

abbreviation bs_remove :: "'a \<Rightarrow> 'a list \<Rightarrow> 'a list" where
  "bs_remove x xs \<equiv> remove1 x xs"

lemma bs_insert_set [simp]: "set (bs_insert x xs) = insert x (set xs)"
  by (induction x xs rule: bs_insert.induct) auto

lemma bs_insert_inv: "bs_inv xs \<Longrightarrow> bs_inv (bs_insert x xs)"
  by (induction x xs rule: bs_insert.induct) auto

lemma bs_remove_inv: "bs_inv xs \<Longrightarrow> bs_inv (bs_remove x xs)"
proof (induction xs)
  case (Cons y ys)
  then show ?case using set_remove1_subset [of x ys] by auto
qed simp

lemma bs_remove_set: "bs_inv xs \<Longrightarrow> set (bs_remove x xs) = set xs - {x}"
  by (simp add: strict_sorted_iff)

lemma bs_length: "bs_inv xs \<Longrightarrow> length xs = card (set xs)"
  by (simp add: strict_sorted_iff distinct_card)

lemma bs_eqI: "bs_inv xs \<Longrightarrow> bs_inv ys \<Longrightarrow> set xs = set ys \<Longrightarrow> xs = ys"
  by (rule strict_sorted_equal)

lemma bs_last_greatest: "bs_inv xs \<Longrightarrow> xs \<noteq> [] \<Longrightarrow> y \<in> set xs \<Longrightarrow> y \<le> last xs"
  by (induction xs) (auto simp: less_imp_le)

lemmas bs_rules = bs_insert_inv bs_remove_inv bs_remove_set

end
