(* ===== verification/SharedTypes.thy ===== *)
theory SharedTypes
  imports Prelude
begin

unbundle bit_operations_syntax

text \<open>
  The entities every subsystem shares: \<^verbatim>\<open>shared-types/src/entities.rs\<close>. SHA-256 is a
  parameter of the transaction hash. \<open>be_bytes n w\<close> and \<open>le_bytes n w\<close> are the \<open>n\<close> bytes of a
  machine word in big-endian and little-endian order.
\<close>

section \<open>Bytes of words\<close>

definition be_bytes :: "nat \<Rightarrow> 'a::len word \<Rightarrow> u8 list" where
  "be_bytes n w = map (\<lambda>i. ucast (drop_bit (8 * (n - 1 - i)) w)) [0..<n]"

definition le_bytes :: "nat \<Rightarrow> 'a::len word \<Rightarrow> u8 list" where
  "le_bytes n w = rev (be_bytes n w)"

definition from_be_bytes :: "u8 list \<Rightarrow> 'a::len word" where
  "from_be_bytes bs = foldl (\<lambda>w b. push_bit 8 w OR ucast b) 0 bs"

lemma length_be_bytes [simp]: "length (be_bytes n w) = n"
  by (simp add: be_bytes_def)

lemma length_le_bytes [simp]: "length (le_bytes n w) = n"
  by (simp add: le_bytes_def)

lemma bit_from_be_bytes:
  "bit (from_be_bytes bs :: 'a::len word) k \<longleftrightarrow>
     k < LENGTH('a) \<and> k < 8 * length bs \<and> bit (bs ! (length bs - 1 - k div 8)) (k mod 8)"
proof (induction bs arbitrary: k rule: rev_induct)
  case Nil
  then show ?case by (simp add: from_be_bytes_def)
next
  case (snoc b bs)
  have step: "from_be_bytes (bs @ [b]) = push_bit 8 (from_be_bytes bs :: 'a word) OR ucast b"
    by (simp add: from_be_bytes_def)
  show ?case
  proof (cases "k < 8")
    case True
    then show ?thesis by (simp add: step bit_simps nth_append)
  next
    case False
    then obtain l where l: "k = l + 8" by (metis add.commute le_Suc_ex not_less)
    have "(l + 8) div 8 = Suc (l div 8)" by simp
    moreover have "\<not> bit b k" using False by (auto dest: bit_imp_le_length)
    moreover have "k < 8 * length (bs @ [b]) \<Longrightarrow> length bs - 1 - l div 8 < length bs" using l by auto
    ultimately show ?thesis
      using snoc [of l] by (auto simp: l step bit_simps nth_append)
  qed
qed

lemma be_bytes_from_be_bytes:
  assumes "LENGTH('a::len) = 8 * n" and "length bs = n"
  shows "be_bytes n (from_be_bytes bs :: 'a word) = bs"
proof (rule nth_equalityI)
  fix i assume "i < length (be_bytes n (from_be_bytes bs :: 'a word))"
  then have i: "i < n" by simp
  show "be_bytes n (from_be_bytes bs :: 'a word) ! i = bs ! i"
  proof (rule bit_eqI)
    fix j
    have "j < 8 \<Longrightarrow> (8 * (n - 1 - i) + j) div 8 = n - 1 - i \<and> (8 * (n - 1 - i) + j) mod 8 = j" by simp
    moreover have "j < 8 \<Longrightarrow> 8 * (n - 1 - i) + j < 8 * n" using i by simp
    moreover have "n - 1 - (n - 1 - i) = i" using i by simp
    ultimately show "bit (be_bytes n (from_be_bytes bs :: 'a word) ! i) j = bit (bs ! i) j"
      using i assms by (cases "j < 8") (auto simp: be_bytes_def bit_simps bit_from_be_bytes dest: bit_imp_le_length)
  qed
qed (simp add: assms)

lemma le_bytes_from_be_bytes:
  assumes "LENGTH('a::len) = 8 * n" and "length bs = n"
  shows "le_bytes n (from_be_bytes (rev bs) :: 'a word) = bs"
  using assms by (simp add: le_bytes_def be_bytes_from_be_bytes)

lemma be_bytes_inject:
  assumes "LENGTH('a::len) = 8 * n" and "be_bytes n (v :: 'a word) = be_bytes n w"
  shows "v = w"
proof (rule bit_word_eqI)
  fix k assume "k < LENGTH('a)"
  then have k: "k < 8 * n" using assms(1) by simp
  define i where "i = n - 1 - k div 8"
  have i: "i < n" "8 * (n - 1 - i) + k mod 8 = k" using k by (auto simp: i_def)
  have "be_bytes n v ! i = be_bytes n w ! i" using assms(2) by simp
  then have "bit (be_bytes n v ! i) (k mod 8) = bit (be_bytes n w ! i) (k mod 8)" by simp
  with i show "bit v k = bit w k" by (simp add: be_bytes_def bit_simps)
qed

lemma be_bytes_eq_iff: "LENGTH('a::len) = 8 * n \<Longrightarrow> be_bytes n (v :: 'a word) = be_bytes n w \<longleftrightarrow> v = w"
  using be_bytes_inject by blast

lemma from_be_be:
  assumes "LENGTH('a::len) = 8 * n"
  shows "from_be_bytes (be_bytes n (w :: 'a word)) = w"
  using be_bytes_from_be_bytes [OF assms] by (intro be_bytes_inject [OF assms]) simp

section \<open>Hexadecimal text\<close>

definition hex_digit :: "nat \<Rightarrow> char" where
  "hex_digit d = ''0123456789abcdef'' ! d"

definition hex_byte :: "u8 \<Rightarrow> string" where
  "hex_byte b = [hex_digit (unat b div 16), hex_digit (unat b mod 16)]"

section \<open>Subsystems\<close>

datatype subsystem_id =
    PeerDiscovery | BlockStorage | TransactionIndexing | StateManagement | BlockPropagation
  | Mempool | BloomFilters | Consensus | Finality | SignatureVerification | SmartContracts
  | TransactionOrdering | LightClient | Sharding | CrossChain | ApiGateway | BlockProduction

fun as_u8 :: "subsystem_id \<Rightarrow> u8" where
  "as_u8 PeerDiscovery = 1"
| "as_u8 BlockStorage = 2"
| "as_u8 TransactionIndexing = 3"
| "as_u8 StateManagement = 4"
| "as_u8 BlockPropagation = 5"
| "as_u8 Mempool = 6"
| "as_u8 BloomFilters = 7"
| "as_u8 Consensus = 8"
| "as_u8 Finality = 9"
| "as_u8 SignatureVerification = 10"
| "as_u8 SmartContracts = 11"
| "as_u8 TransactionOrdering = 12"
| "as_u8 LightClient = 13"
| "as_u8 Sharding = 14"
| "as_u8 CrossChain = 15"
| "as_u8 ApiGateway = 16"
| "as_u8 BlockProduction = 17"

definition from_u8 :: "u8 \<Rightarrow> subsystem_id option" where
  "from_u8 i = map_of
     [(1, PeerDiscovery), (2, BlockStorage), (3, TransactionIndexing), (4, StateManagement),
      (5, BlockPropagation), (6, Mempool), (7, BloomFilters), (8, Consensus), (9, Finality),
      (10, SignatureVerification), (11, SmartContracts), (12, TransactionOrdering), (13, LightClient),
      (14, Sharding), (15, CrossChain), (16, ApiGateway), (17, BlockProduction)] i"

lemma from_u8_as_u8: "from_u8 i = Some s \<longleftrightarrow> i = as_u8 s"
proof
  assume "from_u8 i = Some s"
  from map_of_SomeD [OF this [unfolded from_u8_def]] show "i = as_u8 s" by auto
next
  assume "i = as_u8 s"
  then show "from_u8 i = Some s" by (cases s) (simp_all add: from_u8_def)
qed

section \<open>Chain entities\<close>

type_synonym public_key = "256 word"

record block_header =
  bh_version :: u16
  bh_height :: u64
  bh_parent_hash :: hash
  bh_merkle_root :: hash
  bh_state_root :: hash
  bh_timestamp :: u64
  bh_proposer :: public_key
  bh_difficulty :: u256
  bh_nonce :: u64

record transaction =
  tr_from :: public_key
  tr_to :: "public_key option"
  tr_value :: u64
  tr_nonce :: u64
  tr_data :: "u8 list"
  tr_signature :: "u8 list"

record validated_transaction =
  vt_inner :: transaction
  vt_tx_hash :: hash

record shared_attestation =
  sa_block_hash :: hash
  sa_epoch :: u64
  sa_validator :: public_key
  sa_signature :: "u8 list"

record consensus_proof =
  cpf_block_hash :: hash
  cpf_attestations :: "shared_attestation list"
  cpf_total_stake :: u64

record validated_block =
  vb_header :: block_header
  vb_transactions :: "validated_transaction list"
  vb_consensus_proof :: consensus_proof

record signed_transaction =
  st_from :: address
  st_to :: "address option"
  st_value :: u256
  st_nonce :: u64
  st_gas_price :: u256
  st_gas_limit :: u64
  st_data :: "u8 list"
  st_signature :: "u8 list"

text \<open>The bytes fed to the hasher, in the order of the \<open>update\<close> calls.\<close>

definition tx_preimage :: "signed_transaction \<Rightarrow> u8 list" where
  "tx_preimage t =
     be_bytes 20 (st_from t) @
     (case st_to t of None \<Rightarrow> [] | Some to \<Rightarrow> be_bytes 20 to) @
     be_bytes 32 (st_value t) @
     le_bytes 8 (st_nonce t) @
     be_bytes 32 (st_gas_price t) @
     le_bytes 8 (st_gas_limit t) @
     st_data t"

definition signed_tx_hash :: "(u8 list \<Rightarrow> hash) \<Rightarrow> signed_transaction \<Rightarrow> hash" where
  "signed_tx_hash sha256 t = sha256 (tx_preimage t)"

definition total_cost :: "signed_transaction \<Rightarrow> u256 option" where
  "total_cost t =
     (case checked_mul (st_gas_price t) (ucast (st_gas_limit t)) of
        None \<Rightarrow> None
      | Some fee \<Rightarrow> checked_add (st_value t) fee)"

section \<open>The transaction hash\<close>

text \<open>The prefix of the preimage up to the data has a fixed length once the recipient's presence is known.\<close>

lemma tx_preimage_inject:
  assumes "tx_preimage t = tx_preimage t'" and "st_to t = None \<longleftrightarrow> st_to t' = None"
    and "st_signature t = st_signature t'"
  shows "t = t'"
proof -
  have "be_bytes 20 (st_from t) = be_bytes 20 (st_from t') \<and>
      (case st_to t of None \<Rightarrow> [] | Some to \<Rightarrow> be_bytes 20 to) = (case st_to t' of None \<Rightarrow> [] | Some to \<Rightarrow> be_bytes 20 to) \<and>
      be_bytes 32 (st_value t) = be_bytes 32 (st_value t') \<and> be_bytes 8 (st_nonce t) = be_bytes 8 (st_nonce t') \<and>
      be_bytes 32 (st_gas_price t) = be_bytes 32 (st_gas_price t') \<and>
      be_bytes 8 (st_gas_limit t) = be_bytes 8 (st_gas_limit t') \<and> st_data t = st_data t'"
    using assms(1, 2) by (simp add: tx_preimage_def le_bytes_def split: option.splits)
  then have "st_from t = st_from t'" and "st_to t = st_to t'" and "st_value t = st_value t'" and "st_nonce t = st_nonce t'"
    and "st_gas_price t = st_gas_price t'" and "st_gas_limit t = st_gas_limit t'" and "st_data t = st_data t'"
    using assms(2) by (simp_all add: be_bytes_eq_iff split: option.splits)
  with assms(3) show ?thesis by simp
qed

text \<open>
  The transaction hash does not determine the transaction: for every transfer there is a contract
  creation of the same sender that feeds the hasher exactly the same bytes, so that both have
  the same hash whatever the hash function is. (The recipient is hashed without a marker of its presence.)
\<close>

theorem transfer_and_creation_collide:
  "\<exists>creation. st_to creation = None \<and> st_from creation = st_from transfer \<and>
     signed_tx_hash sha256 creation = signed_tx_hash sha256 (transfer\<lparr>st_to := Some to\<rparr>)"
proof -
  define rest where "rest = be_bytes 20 to @ be_bytes 32 (st_value transfer) @ le_bytes 8 (st_nonce transfer) @
    be_bytes 32 (st_gas_price transfer) @ le_bytes 8 (st_gas_limit transfer) @ st_data transfer"
  define creation where "creation = transfer\<lparr>st_to := None, st_value := from_be_bytes (take 32 rest),
    st_nonce := from_be_bytes (rev (take 8 (drop 32 rest))), st_gas_price := from_be_bytes (take 32 (drop 40 rest)),
    st_gas_limit := from_be_bytes (rev (take 8 (drop 72 rest))), st_data := drop 80 rest\<rparr>"
  have len: "80 \<le> length rest" by (simp add: rest_def)
  have split: "take 32 rest @ take 8 (drop 32 rest) @ take 32 (drop 40 rest) @ take 8 (drop 72 rest) @ drop 80 rest = rest"
    using append_take_drop_id [of 32 rest] append_take_drop_id [of 8 "drop 32 rest"]
      append_take_drop_id [of 32 "drop 40 rest"] append_take_drop_id [of 8 "drop 72 rest"] by simp
  have "tx_preimage creation = be_bytes 20 (st_from transfer) @
      take 32 rest @ take 8 (drop 32 rest) @ take 32 (drop 40 rest) @ take 8 (drop 72 rest) @ drop 80 rest"
    using len by (simp add: tx_preimage_def creation_def be_bytes_from_be_bytes le_bytes_from_be_bytes)
  also have "\<dots> = tx_preimage (transfer\<lparr>st_to := Some to\<rparr>)"
    unfolding split by (simp add: tx_preimage_def rest_def)
  finally have "signed_tx_hash sha256 creation = signed_tx_hash sha256 (transfer\<lparr>st_to := Some to\<rparr>)"
    by (simp add: signed_tx_hash_def)
  moreover have "st_to creation = None" and "st_from creation = st_from transfer" by (simp_all add: creation_def)
  ultimately show ?thesis by blast
qed

end
