(* ===== verification/Mempool.thy ===== *)
theory Mempool
  imports Containers SharedTypes
begin

text \<open>
  The transaction pool of crate \<^verbatim>\<open>qc-06-mempool\<close> (\<^verbatim>\<open>domain/pool.rs\<close>, \<^verbatim>\<open>domain/entities.rs\<close>,
  \<^verbatim>\<open>domain/value_objects.rs\<close>, \<^verbatim>\<open>domain/errors.rs\<close>): the three indices of the pool, admission
  with replace-by-fee and eviction, selection for a block, and the two-phase commit
  (propose, then confirm or roll back). The hash of a transaction is a parameter \<open>hash_of\<close>,
  which the node instantiates with \<open>signed_tx_hash\<close> of SHA-256. Mutating methods return the new pool next to
  their result, because a method that fails may already have changed the pool.
\<close>

section \<open>Entities\<close>

datatype transaction_state =
    Pending
  | PendingInclusion (block_height: u64) (proposed_at: timestamp)

record mempool_transaction =
  tx_transaction :: signed_transaction
  tx_hash :: hash
  tx_sender :: address
  tx_nonce :: u64
  tx_gas_price :: u256
  tx_gas_limit :: u64
  tx_state :: transaction_state
  tx_added_at :: timestamp
  tx_target_block :: "u64 option"

record mempool_config =
  max_transactions :: usize
  max_per_account :: usize
  min_gas_price :: u256
  max_gas_per_tx :: u64
  pending_inclusion_timeout_ms :: u64
  nonce_gap_timeout_ms :: u64
  enable_rbf :: bool
  rbf_min_bump_percent :: u64

definition default_config :: mempool_config where
  "default_config = \<lparr>
     max_transactions = 5000,
     max_per_account = 16,
     min_gas_price = 1000000000,
     max_gas_per_tx = 30000000,
     pending_inclusion_timeout_ms = 30000,
     nonce_gap_timeout_ms = 600000,
     enable_rbf = True,
     rbf_min_bump_percent = 10\<rparr>"

text \<open>\<open>SignedTransaction::hash\<close> is SHA-256 of the fields; the digest is a parameter.\<close>

definition new_mempool_transaction ::
  "(signed_transaction \<Rightarrow> hash) \<Rightarrow> signed_transaction \<Rightarrow> timestamp \<Rightarrow> mempool_transaction" where
  "new_mempool_transaction tx_digest t added_at = \<lparr>
     tx_transaction = t,
     tx_hash = tx_digest t,
     tx_sender = st_from t,
     tx_nonce = st_nonce t,
     tx_gas_price = st_gas_price t,
     tx_gas_limit = st_gas_limit t,
     tx_state = Pending,
     tx_added_at = added_at,
     tx_target_block = None\<rparr>"

fun is_pending :: "mempool_transaction \<Rightarrow> bool" where
  "is_pending tx = (case tx_state tx of Pending \<Rightarrow> True | PendingInclusion _ _ \<Rightarrow> False)"

fun is_pending_inclusion :: "mempool_transaction \<Rightarrow> bool" where
  "is_pending_inclusion tx = (case tx_state tx of Pending \<Rightarrow> False | PendingInclusion _ _ \<Rightarrow> True)"

definition tx_propose ::
  "mempool_transaction \<Rightarrow> u64 \<Rightarrow> timestamp \<Rightarrow> mempool_transaction \<times> (unit, string) outcome" where
  "tx_propose tx height now =
     (if is_pending_inclusion tx then (tx, Err ''Transaction already pending inclusion'')
      else (tx\<lparr>tx_state := PendingInclusion height now, tx_target_block := Some height\<rparr>, Ok ()))"

definition tx_rollback :: "mempool_transaction \<Rightarrow> mempool_transaction \<times> (unit, string) outcome" where
  "tx_rollback tx =
     (if \<not> is_pending_inclusion tx then (tx, Err ''Transaction not pending inclusion'')
      else (tx\<lparr>tx_state := Pending, tx_target_block := None\<rparr>, Ok ()))"

definition tx_is_timed_out :: "mempool_transaction \<Rightarrow> timestamp \<Rightarrow> u64 \<Rightarrow> bool" where
  "tx_is_timed_out tx now timeout_ms =
     (case tx_state tx of
        PendingInclusion _ at \<Rightarrow> timeout_ms \<le> saturating_sub now at
      | Pending \<Rightarrow> False)"

section \<open>The priority order\<close>

datatype priced_transaction =
  PricedTransaction (pt_gas_price: u256) (pt_hash: hash) (pt_added_at: timestamp)

text \<open>
  \<open>Ord for PricedTransaction\<close>: higher gas price first, then the earlier timestamp, then
  the smaller hash. Smaller in this order means higher priority.
\<close>

instantiation priced_transaction :: linorder
begin

definition less_eq_priced_transaction :: "priced_transaction \<Rightarrow> priced_transaction \<Rightarrow> bool" where
  "less_eq_priced_transaction a b \<longleftrightarrow>
     pt_gas_price b < pt_gas_price a \<or>
     pt_gas_price a = pt_gas_price b \<and>
       (pt_added_at a < pt_added_at b \<or>
        pt_added_at a = pt_added_at b \<and> pt_hash a \<le> pt_hash b)"

definition less_priced_transaction :: "priced_transaction \<Rightarrow> priced_transaction \<Rightarrow> bool" where
  "less_priced_transaction a b \<longleftrightarrow>
     pt_gas_price b < pt_gas_price a \<or>
     pt_gas_price a = pt_gas_price b \<and>
       (pt_added_at a < pt_added_at b \<or>
        pt_added_at a = pt_added_at b \<and> pt_hash a < pt_hash b)"

instance
proof
  fix a b c :: priced_transaction
  show "(a < b) = (a \<le> b \<and> \<not> b \<le> a)"
    by (auto simp: less_eq_priced_transaction_def less_priced_transaction_def)
  show "a \<le> a" by (simp add: less_eq_priced_transaction_def)
  show "a \<le> b \<Longrightarrow> b \<le> c \<Longrightarrow> a \<le> c"
    by (auto simp: less_eq_priced_transaction_def)
  show "a \<le> b \<Longrightarrow> b \<le> a \<Longrightarrow> a = b"
    by (cases a; cases b) (auto simp: less_eq_priced_transaction_def)
  show "a \<le> b \<or> b \<le> a"
    by (auto simp: less_eq_priced_transaction_def)
qed

end

definition priced :: "mempool_transaction \<Rightarrow> priced_transaction" where
  "priced tx = PricedTransaction (tx_gas_price tx) (tx_hash tx) (tx_added_at tx)"

section \<open>The pool\<close>

record pending_inclusion_batch =
  ba_block_height :: u64
  ba_block_hash :: "hash option"
  ba_proposed_at :: timestamp
  ba_transaction_hashes :: "hash list"

record transaction_pool =
  config :: mempool_config
  by_hash :: "(hash \<times> mempool_transaction) list"
  by_price :: "priced_transaction list"
  by_sender :: "(address \<times> (u64 \<times> hash) list) list"
  pending_batches :: "pending_inclusion_batch list"

datatype mempool_error =
    DuplicateTransaction hash
  | GasPriceTooLow u256 u256
  | GasLimitTooHigh u64 u64
  | AccountLimitReached address usize
  | PoolFull usize
  | TransactionNotFound hash
  | InsufficientBalance u256 u256
  | InvalidNonce u64 u64
  | NonceTooHigh u64 u64 u64
  | InsufficientFeeBump u256 u256 u64
  | RbfDisabled
  | TransactionPendingInclusion hash
  | CannotEvict hash
  | UnauthorizedSender u8 "u8 list"
  | SignatureNotVerified
  | TimestampTooOld u64 u64
  | TimestampTooFuture u64 u64
  | InvalidSignature
  | ReplayDetected u64
  | StateError string
  | Internal string

definition new_pool :: "mempool_config \<Rightarrow> transaction_pool" where
  "new_pool cfg = \<lparr>config = cfg, by_hash = [], by_price = [], by_sender = [], pending_batches = []\<rparr>"

definition get_tx :: "transaction_pool \<Rightarrow> hash \<Rightarrow> mempool_transaction option" where
  "get_tx p h = map_of (by_hash p) h"

definition sender_index :: "transaction_pool \<Rightarrow> address \<Rightarrow> (u64 \<times> hash) list" where
  "sender_index p a = (case map_of (by_sender p) a of None \<Rightarrow> [] | Some m \<Rightarrow> m)"

definition sender_count :: "transaction_pool \<Rightarrow> address \<Rightarrow> usize" where
  "sender_count p a = (case map_of (by_sender p) a of None \<Rightarrow> 0 | Some m \<Rightarrow> length m)"

definition pending_count :: "transaction_pool \<Rightarrow> usize" where
  "pending_count p = length (by_price p)"

definition pending_inclusion_count :: "transaction_pool \<Rightarrow> usize option" where
  "pending_inclusion_count p =
     (if length (by_price p) \<le> length (by_hash p) then Some (length (by_hash p) - length (by_price p))
      else None)"

subsection \<open>Adding and removing\<close>

definition add_internal ::
  "mempool_transaction \<Rightarrow> transaction_pool \<Rightarrow> transaction_pool \<times> (unit, mempool_error) outcome" where
  "add_internal tx p =
     (p\<lparr>by_price := (if is_pending tx then bs_insert (priced tx) (by_price p) else by_price p),
        by_sender := AList.update (tx_sender tx)
          (bt_insert (tx_nonce tx) (tx_hash tx) (sender_index p (tx_sender tx))) (by_sender p),
        by_hash := AList.update (tx_hash tx) tx (by_hash p)\<rparr>, Ok ())"

definition remove_from_sender :: "mempool_transaction \<Rightarrow> (address \<times> (u64 \<times> hash) list) list \<Rightarrow>
    (address \<times> (u64 \<times> hash) list) list" where
  "remove_from_sender tx bs =
     (case map_of bs (tx_sender tx) of
        None \<Rightarrow> bs
      | Some m \<Rightarrow>
          (let m' = AList.delete (tx_nonce tx) m in
           if m' = [] then AList.delete (tx_sender tx) bs
           else AList.update (tx_sender tx) m' bs))"

definition remove_internal ::
  "hash \<Rightarrow> transaction_pool \<Rightarrow> transaction_pool \<times> (mempool_transaction, mempool_error) outcome" where
  "remove_internal h p =
     (case map_of (by_hash p) h of
        None \<Rightarrow> (p, Err (TransactionNotFound h))
      | Some tx \<Rightarrow>
          (p\<lparr>by_hash := AList.delete h (by_hash p),
             by_price := bs_remove (priced tx) (by_price p),
             by_sender := remove_from_sender tx (by_sender p)\<rparr>, Ok tx))"

definition can_replace ::
  "mempool_config \<Rightarrow> mempool_transaction \<Rightarrow> mempool_transaction \<Rightarrow> (bool, mempool_error) outcome" where
  "can_replace cfg existing new =
     (if is_pending_inclusion existing then Err (TransactionPendingInclusion (tx_hash existing))
      else if tx_sender existing \<noteq> tx_sender new \<or> tx_nonce existing \<noteq> tx_nonce new then Ok False
      else
        (case checked_add 100 (rbf_min_bump_percent cfg) of
           None \<Rightarrow> Panic
         | Some bump \<Rightarrow>
             (case checked_mul (tx_gas_price existing) (ucast bump) of
                None \<Rightarrow> Panic
              | Some scaled \<Rightarrow> Ok (scaled div 100 \<le> tx_gas_price new))))"

definition replace_tx ::
  "hash \<Rightarrow> mempool_transaction \<Rightarrow> transaction_pool \<Rightarrow> transaction_pool \<times> (unit, mempool_error) outcome" where
  "replace_tx h tx p =
     (case remove_internal h p of
        (p', Ok _) \<Rightarrow> add_internal tx p'
      | (p', Err e) \<Rightarrow> (p', Err e)
      | (p', Panic) \<Rightarrow> (p', Panic))"

definition try_rbf_at_limit ::
  "mempool_transaction \<Rightarrow> transaction_pool \<Rightarrow> transaction_pool \<times> (unit, mempool_error) outcome" where
  "try_rbf_at_limit tx p =
     (let limit = AccountLimitReached (tx_sender tx) (max_per_account (config p)) in
      if \<not> enable_rbf (config p) then (p, Err limit)
      else
        (case map_of (sender_index p (tx_sender tx)) (tx_nonce tx) of
           None \<Rightarrow> (p, Err limit)
         | Some h \<Rightarrow>
             (case map_of (by_hash p) h of
                None \<Rightarrow> (p, Err (TransactionNotFound h))
              | Some existing \<Rightarrow>
                  (case can_replace (config p) existing tx of
                     Err e \<Rightarrow> (p, Err e)
                   | Panic \<Rightarrow> (p, Panic)
                   | Ok True \<Rightarrow> replace_tx h tx p
                   | Ok False \<Rightarrow> (p, Err limit)))))"

definition try_rbf_or_add ::
  "mempool_transaction \<Rightarrow> transaction_pool \<Rightarrow> transaction_pool \<times> (unit, mempool_error) outcome" where
  "try_rbf_or_add tx p =
     (case map_of (sender_index p (tx_sender tx)) (tx_nonce tx) of
        None \<Rightarrow> add_internal tx p
      | Some h \<Rightarrow>
          if \<not> enable_rbf (config p) then (p, Err RbfDisabled)
          else
            (case map_of (by_hash p) h of
               None \<Rightarrow> (p, Err (TransactionNotFound h))
             | Some existing \<Rightarrow>
                 (case can_replace (config p) existing tx of
                    Err e \<Rightarrow> (p, Err e)
                  | Panic \<Rightarrow> (p, Panic)
                  | Ok True \<Rightarrow> replace_tx h tx p
                  | Ok False \<Rightarrow>
                      (p, Err (InsufficientFeeBump (tx_gas_price existing) (tx_gas_price tx)
                        (rbf_min_bump_percent (config p)))))))"

definition try_evict_for ::
  "mempool_transaction \<Rightarrow> transaction_pool \<Rightarrow> transaction_pool \<times> (bool, mempool_error) outcome" where
  "try_evict_for new p =
     (if by_price p = [] then (p, Ok False)
      else
        (let lowest = last (by_price p) in
         case map_of (by_hash p) (pt_hash lowest) of
           None \<Rightarrow> (p, Ok False)
         | Some lowest_tx \<Rightarrow>
             if \<not> (tx_gas_price lowest_tx < tx_gas_price new) \<and>
                \<not> (tx_gas_price new = tx_gas_price lowest_tx \<and> tx_added_at new < tx_added_at lowest_tx)
             then (p, Ok False)
             else
               (case remove_internal (pt_hash lowest) p of
                  (p', Ok _) \<Rightarrow> (p', Ok True)
                | (p', Err e) \<Rightarrow> (p', Err e)
                | (p', Panic) \<Rightarrow> (p', Panic))))"

definition add ::
  "mempool_transaction \<Rightarrow> transaction_pool \<Rightarrow> transaction_pool \<times> (unit, mempool_error) outcome" where
  "add tx p =
     (if map_of (by_hash p) (tx_hash tx) \<noteq> None then (p, Err (DuplicateTransaction (tx_hash tx)))
      else if tx_gas_price tx < min_gas_price (config p)
        then (p, Err (GasPriceTooLow (tx_gas_price tx) (min_gas_price (config p))))
      else if max_gas_per_tx (config p) < tx_gas_limit tx
        then (p, Err (GasLimitTooHigh (tx_gas_limit tx) (max_gas_per_tx (config p))))
      else if max_per_account (config p) \<le> sender_count p (tx_sender tx) then try_rbf_at_limit tx p
      else if max_transactions (config p) \<le> length (by_hash p) then
        (case try_evict_for tx p of
           (p', Err e) \<Rightarrow> (p', Err e)
         | (p', Panic) \<Rightarrow> (p', Panic)
         | (p', Ok False) \<Rightarrow> (p', Err (PoolFull (max_transactions (config p))))
         | (p', Ok True) \<Rightarrow> try_rbf_or_add tx p')
      else try_rbf_or_add tx p)"

definition remove :: "hash \<Rightarrow> transaction_pool \<Rightarrow> transaction_pool \<times> (mempool_transaction, mempool_error) outcome" where
  "remove h p = remove_internal h p"

subsection \<open>Selection for a block\<close>

definition expected_nonce :: "transaction_pool \<Rightarrow> (address \<rightharpoonup> u64) \<Rightarrow> mempool_transaction \<Rightarrow> u64" where
  "expected_nonce p next_nonce tx =
     (case next_nonce (tx_sender tx) of
        Some n \<Rightarrow> n
      | None \<Rightarrow>
          (case map_of (by_sender p) (tx_sender tx) of
             None \<Rightarrow> tx_nonce tx
           | Some m \<Rightarrow> (case bt_first_key m of None \<Rightarrow> tx_nonce tx | Some n \<Rightarrow> n)))"

text \<open>\<open>None\<close> is the panic of \<open>tx.nonce + 1\<close> at the greatest nonce.\<close>

fun select_for_block ::
  "transaction_pool \<Rightarrow> usize \<Rightarrow> u64 \<Rightarrow> priced_transaction list \<Rightarrow>
   mempool_transaction list \<Rightarrow> u64 \<Rightarrow> (address \<rightharpoonup> u64) \<Rightarrow> mempool_transaction list option" where
  "select_for_block p max_count max_gas [] result total_gas next_nonce = Some result"
| "select_for_block p max_count max_gas (pt # pts) result total_gas next_nonce =
     (if max_count \<le> length result then Some result
      else
        (case map_of (by_hash p) (pt_hash pt) of
           None \<Rightarrow> select_for_block p max_count max_gas pts result total_gas next_nonce
         | Some tx \<Rightarrow>
             if max_gas < saturating_add total_gas (tx_gas_limit tx)
             then select_for_block p max_count max_gas pts result total_gas next_nonce
             else if tx_nonce tx \<noteq> expected_nonce p next_nonce tx
             then select_for_block p max_count max_gas pts result total_gas next_nonce
             else
               (case checked_add (tx_nonce tx) 1 of
                  None \<Rightarrow> None
                | Some n \<Rightarrow>
                    select_for_block p max_count max_gas pts (result @ [tx])
                      (saturating_add total_gas (tx_gas_limit tx))
                      (next_nonce(tx_sender tx \<mapsto> n)))))"

definition get_for_block :: "transaction_pool \<Rightarrow> usize \<Rightarrow> u64 \<Rightarrow> mempool_transaction list option" where
  "get_for_block p max_count max_gas =
     select_for_block p max_count max_gas (by_price p) [] 0 (\<lambda>_. None)"

subsection \<open>Two-phase commit\<close>

record propose_result =
  proposed_count :: usize
  already_pending :: "hash list"
  not_found :: "hash list"

definition propose_step :: "u64 \<Rightarrow> timestamp \<Rightarrow> hash \<Rightarrow>
    transaction_pool \<times> propose_result \<times> hash list \<Rightarrow> transaction_pool \<times> propose_result \<times> hash list" where
  "propose_step height now h = (\<lambda>(p, r, hs).
     (case map_of (by_hash p) h of
        None \<Rightarrow> (p, r\<lparr>not_found := not_found r @ [h]\<rparr>, hs)
      | Some tx \<Rightarrow>
          if is_pending_inclusion tx then (p, r\<lparr>already_pending := already_pending r @ [h]\<rparr>, hs)
          else
            (p\<lparr>by_price := bs_remove (priced tx) (by_price p),
               by_hash := AList.update h (fst (tx_propose tx height now)) (by_hash p)\<rparr>,
             r\<lparr>proposed_count := Suc (proposed_count r)\<rparr>, hs @ [h])))"

definition propose_result_default :: propose_result where
  "propose_result_default = \<lparr>proposed_count = 0, already_pending = [], not_found = []\<rparr>"

definition propose :: "hash list \<Rightarrow> u64 \<Rightarrow> timestamp \<Rightarrow> transaction_pool \<Rightarrow> transaction_pool \<times> propose_result" where
  "propose hs height now p =
     (case fold (propose_step height now) hs
             (p, propose_result_default, []) of
        (p', r, proposed) \<Rightarrow>
          ((if proposed = [] then p'
            else p'\<lparr>pending_batches := pending_batches p' @
              [\<lparr>ba_block_height = height, ba_block_hash = None, ba_proposed_at = now,
                ba_transaction_hashes = proposed\<rparr>]\<rparr>), r))"

definition confirm_step :: "hash \<Rightarrow> transaction_pool \<times> hash list \<Rightarrow> transaction_pool \<times> hash list" where
  "confirm_step h = (\<lambda>(p, confirmed).
     (case remove_internal h p of
        (p', Ok tx) \<Rightarrow> (p', confirmed @ [tx_hash tx])
      | (p', _) \<Rightarrow> (p', confirmed)))"

definition confirm :: "hash list \<Rightarrow> transaction_pool \<Rightarrow> transaction_pool \<times> hash list" where
  "confirm hs p =
     (case fold confirm_step hs (p, []) of
        (p', confirmed) \<Rightarrow>
          (p'\<lparr>pending_batches := filter (\<lambda>b. \<not> list_all (\<lambda>h. h \<in> set confirmed) (ba_transaction_hashes b))
             (pending_batches p')\<rparr>, confirmed))"

definition rollback_step :: "hash \<Rightarrow> transaction_pool \<times> hash list \<Rightarrow> transaction_pool \<times> hash list" where
  "rollback_step h = (\<lambda>(p, done).
     (case map_of (by_hash p) h of
        None \<Rightarrow> (p, done)
      | Some tx \<Rightarrow>
          if \<not> is_pending_inclusion tx then (p, done)
          else
            (p\<lparr>by_price := bs_insert (priced tx) (by_price p),
               by_hash := AList.update h (fst (tx_rollback tx)) (by_hash p)\<rparr>, done @ [h])))"

definition rollback :: "hash list \<Rightarrow> transaction_pool \<Rightarrow> transaction_pool \<times> hash list" where
  "rollback hs p =
     (case fold rollback_step hs (p, []) of
        (p', rolled_back) \<Rightarrow>
          (p'\<lparr>pending_batches := filter (\<lambda>b. \<not> list_ex (\<lambda>h. h \<in> set hs) (ba_transaction_hashes b))
             (pending_batches p')\<rparr>, rolled_back))"

definition cleanup_timeouts :: "timestamp \<Rightarrow> transaction_pool \<Rightarrow> transaction_pool \<times> hash list" where
  "cleanup_timeouts now p =
     rollback (map tx_hash (filter (\<lambda>tx. tx_is_timed_out tx now (pending_inclusion_timeout_ms (config p)))
       (map snd (by_hash p)))) p"

subsection \<open>Status\<close>

record mempool_status =
  ms_pending_count :: usize
  ms_pending_inclusion_count :: usize
  ms_total_gas :: u64
  ms_memory_bytes :: usize
  ms_oldest_tx_age_ms :: u64

fun sum_gas :: "u64 list \<Rightarrow> u64 option" where
  "sum_gas [] = Some 0"
| "sum_gas (g # gs) = (case sum_gas gs of None \<Rightarrow> None | Some s \<Rightarrow> checked_add g s)"

text \<open>
  The size of a \<open>MempoolTransaction\<close> in bytes is a constant of the compiler and is a
  parameter; \<open>None\<close> is the panic of the gas sum or of the count difference.
\<close>

definition status :: "usize \<Rightarrow> transaction_pool \<Rightarrow> timestamp \<Rightarrow> mempool_status option" where
  "status tx_bytes p now =
     (case (sum_gas (map (\<lambda>e. tx_gas_limit (snd e)) (by_hash p)), pending_inclusion_count p) of
        (Some gas_sum, Some inclusion) \<Rightarrow>
          Some \<lparr>ms_pending_count = pending_count p,
            ms_pending_inclusion_count = inclusion,
            ms_total_gas = gas_sum,
            ms_memory_bytes = length (by_hash p) * tx_bytes,
            ms_oldest_tx_age_ms =
              fold (\<lambda>e. max (saturating_sub now (tx_added_at (snd e)))) (by_hash p) 0\<rparr>
      | _ \<Rightarrow> None)"

section \<open>Well-formed pools\<close>

definition wf_hash :: "transaction_pool \<Rightarrow> bool" where
  "wf_hash p \<longleftrightarrow> hm_inv (by_hash p) \<and> (\<forall>h tx. map_of (by_hash p) h = Some tx \<longrightarrow> tx_hash tx = h)"

definition wf_price :: "transaction_pool \<Rightarrow> bool" where
  "wf_price p \<longleftrightarrow> bs_inv (by_price p) \<and>
     (\<forall>pt. pt \<in> set (by_price p) \<longleftrightarrow>
        (\<exists>tx. map_of (by_hash p) (pt_hash pt) = Some tx \<and> is_pending tx \<and> pt = priced tx))"

definition wf_sender :: "transaction_pool \<Rightarrow> bool" where
  "wf_sender p \<longleftrightarrow> hm_inv (by_sender p) \<and>
     (\<forall>a m. map_of (by_sender p) a = Some m \<longrightarrow> bt_inv m \<and> m \<noteq> []) \<and>
     (\<forall>a n h. map_of (sender_index p a) n = Some h \<longleftrightarrow>
        (\<exists>tx. map_of (by_hash p) h = Some tx \<and> tx_sender tx = a \<and> tx_nonce tx = n))"

definition pool_wf :: "transaction_pool \<Rightarrow> bool" where
  "pool_wf p \<longleftrightarrow> wf_hash p \<and> wf_price p \<and> wf_sender p"

definition within_limits :: "transaction_pool \<Rightarrow> bool" where
  "within_limits p \<longleftrightarrow> length (by_hash p) \<le> max_transactions (config p) \<and>
     (\<forall>a. sender_count p a \<le> max_per_account (config p))"

lemma priced_inj: "priced a = priced b \<Longrightarrow> tx_hash a = tx_hash b"
  by (simp add: priced_def)

lemma pt_hash_priced [simp]: "pt_hash (priced tx) = tx_hash tx"
  by (simp add: priced_def)

lemma is_pending_inclusion_iff: "is_pending_inclusion tx \<longleftrightarrow> \<not> is_pending tx"
  by (simp split: transaction_state.splits)

declare is_pending.simps [simp del] is_pending_inclusion.simps [simp del]

lemma pool_wf_new: "pool_wf (new_pool cfg)"
  by (simp add: pool_wf_def wf_hash_def wf_price_def wf_sender_def new_pool_def sender_index_def)

lemma sender_count_index: "sender_count p a = length (sender_index p a)"
  by (simp add: sender_count_def sender_index_def split: option.splits)

lemma wf_hashD: "pool_wf p \<Longrightarrow> map_of (by_hash p) h = Some tx \<Longrightarrow> tx_hash tx = h"
  by (simp add: pool_wf_def wf_hash_def)

lemma wf_hash_inv: "pool_wf p \<Longrightarrow> hm_inv (by_hash p)"
  by (simp add: pool_wf_def wf_hash_def)

lemma wf_price_inv: "pool_wf p \<Longrightarrow> bs_inv (by_price p)"
  by (simp add: pool_wf_def wf_price_def)

lemma wf_index_inv: "pool_wf p \<Longrightarrow> bt_inv (sender_index p a)"
  by (auto simp: pool_wf_def wf_sender_def sender_index_def split: option.splits)

lemma wf_index_iff: "pool_wf p \<Longrightarrow> map_of (sender_index p a) n = Some h \<longleftrightarrow>
    (\<exists>tx. map_of (by_hash p) h = Some tx \<and> tx_sender tx = a \<and> tx_nonce tx = n)"
  by (simp add: pool_wf_def wf_sender_def)

lemma wf_price_iff: "pool_wf p \<Longrightarrow> pt \<in> set (by_price p) \<longleftrightarrow>
    (\<exists>tx. map_of (by_hash p) (pt_hash pt) = Some tx \<and> is_pending tx \<and> pt = priced tx)"
  by (simp add: pool_wf_def wf_price_def)

subsection \<open>Adding and removing\<close>

lemma index_add_internal:
  "sender_index (fst (add_internal tx p)) a =
     (if a = tx_sender tx then bt_insert (tx_nonce tx) (tx_hash tx) (sender_index p a)
      else sender_index p a)"
  by (simp add: add_internal_def sender_index_def update_conv')

lemma add_internal_wf:
  assumes wf: "pool_wf p"
    and fresh: "map_of (by_hash p) (tx_hash tx) = None"
    and slot: "map_of (sender_index p (tx_sender tx)) (tx_nonce tx) = None"
  shows "pool_wf (fst (add_internal tx p))"
proof -
  let ?q = "fst (add_internal tx p)"
  have bh: "map_of (by_hash ?q) = (map_of (by_hash p))(tx_hash tx \<mapsto> tx)"
    by (simp add: add_internal_def update_conv')
  have taken: "map_of (by_hash p) k = Some t \<Longrightarrow> tx_sender t = tx_sender tx \<Longrightarrow> tx_nonce t \<noteq> tx_nonce tx" for k t
    using slot wf_index_iff [OF wf, of "tx_sender tx" "tx_nonce tx" k] by auto
  have "wf_hash ?q"
    using wf by (auto simp: pool_wf_def wf_hash_def bh) (simp add: add_internal_def distinct_update)
  moreover have "wf_price ?q"
  proof -
    have "bs_inv (by_price ?q)"
      using wf by (simp add: pool_wf_def wf_price_def add_internal_def bs_insert_inv)
    moreover have "set (by_price ?q) = (if is_pending tx then {priced tx} else {}) \<union> set (by_price p)"
      by (simp add: add_internal_def)
    ultimately show ?thesis
      using fresh by (auto simp: wf_price_def bh wf_price_iff [OF wf])
  qed
  moreover have "wf_sender ?q"
  proof -
    have inv: "hm_inv (by_sender ?q)"
      using wf by (simp add: pool_wf_def wf_sender_def add_internal_def distinct_update)
    have "bt_insert n h m \<noteq> []" for n :: u64 and h :: hash and m
      using bt_insert_keys [of n h m] by force
    then have ne: "map_of (by_sender ?q) a = Some m \<Longrightarrow> bt_inv m \<and> m \<noteq> []" for a m
      using wf wf_index_inv [OF wf]
      by (auto simp: pool_wf_def wf_sender_def add_internal_def update_conv' bt_insert_inv
        split: if_splits)
    have "map_of (sender_index ?q a) n = Some h \<longleftrightarrow>
      (\<exists>t. map_of (by_hash ?q) h = Some t \<and> tx_sender t = a \<and> tx_nonce t = n)" for a n h
      using wf_index_iff [OF wf, of a n h] fresh taken [of h]
      by (auto simp: index_add_internal bh bt_insert_lookup wf_index_inv [OF wf])
    with inv ne show ?thesis by (auto simp: wf_sender_def)
  qed
  ultimately show ?thesis by (simp add: pool_wf_def)
qed

lemma index_remove_from_sender:
  assumes "hm_inv (by_sender p)"
  shows "sender_index (p\<lparr>by_sender := remove_from_sender tx (by_sender p)\<rparr>) a =
     (if a = tx_sender tx then AList.delete (tx_nonce tx) (sender_index p a) else sender_index p a)"
  using assms
  by (auto simp: remove_from_sender_def sender_index_def Let_def update_conv' delete_conv'
    split: option.splits)

lemma remove_internal_wf:
  assumes wf: "pool_wf p"
  shows "pool_wf (fst (remove_internal h p))"
proof (cases "map_of (by_hash p) h")
  case None
  with wf show ?thesis by (simp add: remove_internal_def)
next
  case (Some tx)
  let ?q = "fst (remove_internal h p)"
  have th: "tx_hash tx = h" using wf_hashD [OF wf Some] .
  have bh: "map_of (by_hash ?q) = (map_of (by_hash p))(h := None)"
    by (simp add: remove_internal_def Some delete_conv')
  have "wf_hash ?q"
    using wf by (auto simp: pool_wf_def wf_hash_def bh) (simp add: remove_internal_def Some distinct_delete)
  moreover have "wf_price ?q"
  proof -
    have "set (by_price ?q) = set (by_price p) - {priced tx}"
      using wf_price_inv [OF wf] by (simp add: remove_internal_def Some bs_remove_set del: set_remove1_eq)
    moreover have "pt_hash pt = h \<Longrightarrow> pt \<in> set (by_price p) \<Longrightarrow> pt = priced tx" for pt
      using Some by (auto simp: wf_price_iff [OF wf])
    moreover have "bs_inv (by_price ?q)"
      using wf_price_inv [OF wf] by (simp add: remove_internal_def Some bs_remove_inv)
    ultimately show ?thesis
      using th by (auto simp: wf_price_def bh wf_price_iff [OF wf])
  qed
  moreover have "wf_sender ?q"
  proof -
    have idx: "sender_index ?q a =
      (if a = tx_sender tx then AList.delete (tx_nonce tx) (sender_index p a) else sender_index p a)" for a
      using index_remove_from_sender [of p tx a] wf
      by (simp add: pool_wf_def wf_sender_def remove_internal_def Some sender_index_def)
    have inv: "hm_inv (by_sender ?q)"
      using wf by (auto simp: pool_wf_def wf_sender_def remove_internal_def Some remove_from_sender_def
        Let_def distinct_update distinct_delete split: option.splits)
    have ne: "map_of (by_sender ?q) a = Some m \<Longrightarrow> bt_inv m \<and> m \<noteq> []" for a m
      using wf
      by (auto simp: pool_wf_def wf_sender_def remove_internal_def Some remove_from_sender_def Let_def
        update_conv' delete_conv' bt_delete_inv split: option.splits if_splits)
    have "map_of (sender_index ?q a) n = Some k \<longleftrightarrow>
      (\<exists>t. map_of (by_hash ?q) k = Some t \<and> tx_sender t = a \<and> tx_nonce t = n)" for a n k
    proof (cases "a = tx_sender tx \<and> n = tx_nonce tx")
      case True
      then have "map_of (sender_index p a) n = Some h"
        using Some by (simp add: wf_index_iff [OF wf])
      moreover have "map_of (sender_index ?q a) n = None"
        using True by (simp add: idx delete_conv')
      ultimately show ?thesis
        using wf_index_iff [OF wf, of a n k] by (auto simp: bh)
    next
      case False
      then have "map_of (sender_index ?q a) n = map_of (sender_index p a) n"
        by (simp add: idx delete_conv')
      then show ?thesis
        using False Some wf_index_iff [OF wf, of a n k] by (auto simp: bh)
    qed
    with inv ne show ?thesis by (auto simp: wf_sender_def)
  qed
  ultimately show ?thesis by (simp add: pool_wf_def)
qed


lemma by_hash_remove_internal:
  "map_of (by_hash (fst (remove_internal h p))) = (map_of (by_hash p))(h := None)"
  by (auto simp: remove_internal_def delete_conv' fun_eq_iff split: option.splits)

lemma by_hash_add_internal:
  "map_of (by_hash (fst (add_internal tx p))) = (map_of (by_hash p))(tx_hash tx \<mapsto> tx)"
  by (simp add: add_internal_def update_conv')

lemma snd_add_internal [simp]: "snd (add_internal tx p) = Ok ()"
  by (simp add: add_internal_def)

lemma snd_remove_internal:
  "snd (remove_internal h p) =
     (case map_of (by_hash p) h of None \<Rightarrow> Err (TransactionNotFound h) | Some tx \<Rightarrow> Ok tx)"
  by (simp add: remove_internal_def split: option.splits)

lemma remove_internal_found:
  "map_of (by_hash p) h = Some tx \<Longrightarrow> remove_internal h p = (fst (remove_internal h p), Ok tx)"
  by (simp add: prod_eq_iff snd_remove_internal)

lemma config_internal [simp]:
  "config (fst (remove_internal h p)) = config p"
  "config (fst (add_internal tx p)) = config p"
  by (simp_all add: remove_internal_def add_internal_def split: option.splits)

lemma batches_internal [simp]:
  "pending_batches (fst (remove_internal h p)) = pending_batches p"
  "pending_batches (fst (add_internal tx p)) = pending_batches p"
  by (simp_all add: remove_internal_def add_internal_def split: option.splits)

lemma remove_frees_slot:
  assumes wf: "pool_wf p" and tx: "map_of (by_hash p) h = Some tx"
  shows "map_of (sender_index (fst (remove_internal h p)) (tx_sender tx)) (tx_nonce tx) = None"
proof (rule ccontr)
  assume "\<not> ?thesis"
  then obtain k where "map_of (sender_index (fst (remove_internal h p)) (tx_sender tx)) (tx_nonce tx) = Some k"
    by blast
  then obtain t where "k \<noteq> h" "map_of (by_hash p) k = Some t" "tx_sender t = tx_sender tx" "tx_nonce t = tx_nonce tx"
    by (auto simp: wf_index_iff [OF remove_internal_wf [OF wf]] by_hash_remove_internal split: if_splits)
  then have "map_of (sender_index p (tx_sender tx)) (tx_nonce tx) = Some k"
    by (auto simp: wf_index_iff [OF wf])
  moreover have "map_of (sender_index p (tx_sender tx)) (tx_nonce tx) = Some h"
    using tx by (auto simp: wf_index_iff [OF wf])
  ultimately show False using \<open>k \<noteq> h\<close> by simp
qed

lemma replace_tx_eq:
  "map_of (by_hash p) h = Some t \<Longrightarrow> replace_tx h tx p = add_internal tx (fst (remove_internal h p))"
  by (simp add: replace_tx_def remove_internal_def)

lemma replace_tx_wf:
  assumes "pool_wf p" and "map_of (by_hash p) (tx_hash tx) = None"
    and "map_of (sender_index p (tx_sender tx)) (tx_nonce tx) = Some h"
  shows "pool_wf (fst (replace_tx h tx p))"
proof -
  from assms obtain t where t: "map_of (by_hash p) h = Some t" "tx_sender t = tx_sender tx" "tx_nonce t = tx_nonce tx"
    by (auto simp: wf_index_iff)
  from remove_frees_slot [OF assms(1) t(1)] t assms show ?thesis
    by (simp add: replace_tx_eq add_internal_wf remove_internal_wf by_hash_remove_internal)
qed

subsection \<open>Limits\<close>

lemma length_remove_internal:
  assumes "pool_wf p" and "map_of (by_hash p) h = Some tx"
  shows "Suc (length (by_hash (fst (remove_internal h p)))) = length (by_hash p)"
  using assms hm.len_del [of "by_hash p" h] hm.len_pos [of "by_hash p" h tx]
  by (simp add: remove_internal_def wf_hash_inv)

lemma length_add_internal:
  assumes "pool_wf p" and "map_of (by_hash p) (tx_hash tx) = None"
  shows "length (by_hash (fst (add_internal tx p))) = Suc (length (by_hash p))"
  using assms hm.len_ins [of "by_hash p" "tx_hash tx" tx] by (simp add: add_internal_def wf_hash_inv)

lemma index_remove_internal:
  assumes "pool_wf p" and "map_of (by_hash p) h = Some tx"
  shows "sender_index (fst (remove_internal h p)) a =
    (if a = tx_sender tx then AList.delete (tx_nonce tx) (sender_index p a) else sender_index p a)"
  using assms index_remove_from_sender [of p tx a]
  by (simp add: pool_wf_def wf_sender_def remove_internal_def sender_index_def)

lemma sender_count_remove_internal:
  assumes "pool_wf p" and "map_of (by_hash p) h = Some tx"
  shows "sender_count (fst (remove_internal h p)) a =
    (if a = tx_sender tx then sender_count p a - 1 else sender_count p a)"
    and "0 < sender_count p (tx_sender tx)"
proof -
  have "map_of (sender_index p (tx_sender tx)) (tx_nonce tx) = Some h"
    using assms by (simp add: wf_index_iff)
  then show "0 < sender_count p (tx_sender tx)"
    and "sender_count (fst (remove_internal h p)) a =
      (if a = tx_sender tx then sender_count p a - 1 else sender_count p a)"
    using bt.len_pos [OF wf_index_inv] bt.len_del [OF wf_index_inv] assms
    by (auto simp: sender_count_index index_remove_internal)
qed

lemma sender_count_add_internal:
  assumes "pool_wf p" and "map_of (sender_index p (tx_sender tx)) (tx_nonce tx) = None"
  shows "sender_count (fst (add_internal tx p)) a =
    (if a = tx_sender tx then Suc (sender_count p a) else sender_count p a)"
  using assms by (simp add: sender_count_index index_add_internal bt.len_ins wf_index_inv)

lemma remove_internal_limits:
  assumes "pool_wf p" and "within_limits p"
  shows "within_limits (fst (remove_internal h p))"
proof (cases "map_of (by_hash p) h")
  case None
  with assms show ?thesis by (simp add: remove_internal_def)
next
  case (Some tx)
  have "sender_count (fst (remove_internal h p)) a \<le> sender_count p a" for a
    using sender_count_remove_internal(1) [OF assms(1) Some] by simp
  then show ?thesis
    using assms(2) length_remove_internal [OF assms(1) Some]
    by (auto simp: within_limits_def intro: le_trans)
qed

lemma add_internal_limits:
  assumes "pool_wf p" and "within_limits p"
    and "map_of (by_hash p) (tx_hash tx) = None"
    and "map_of (sender_index p (tx_sender tx)) (tx_nonce tx) = None"
    and "length (by_hash p) < max_transactions (config p)"
    and "sender_count p (tx_sender tx) < max_per_account (config p)"
  shows "within_limits (fst (add_internal tx p))"
  using assms by (auto simp: within_limits_def length_add_internal sender_count_add_internal)

lemma replace_tx_limits:
  assumes wf: "pool_wf p" and lim: "within_limits p" and fresh: "map_of (by_hash p) (tx_hash tx) = None"
    and slot: "map_of (sender_index p (tx_sender tx)) (tx_nonce tx) = Some h"
  shows "within_limits (fst (replace_tx h tx p))"
proof -
  from assms obtain t where t: "map_of (by_hash p) h = Some t" "tx_sender t = tx_sender tx" "tx_nonce t = tx_nonce tx"
    by (auto simp: wf_index_iff)
  let ?q = "fst (remove_internal h p)"
  have "within_limits (fst (add_internal tx ?q))"
  proof (rule add_internal_limits)
    show "pool_wf ?q" using wf by (rule remove_internal_wf)
    show "within_limits ?q" using wf lim by (rule remove_internal_limits)
    show "map_of (by_hash ?q) (tx_hash tx) = None" using fresh by (simp add: by_hash_remove_internal)
    show "map_of (sender_index ?q (tx_sender tx)) (tx_nonce tx) = None"
      using remove_frees_slot [OF wf t(1)] t by simp
    show "length (by_hash ?q) < max_transactions (config ?q)"
      using length_remove_internal [OF wf t(1)] lim by (simp add: within_limits_def)
    have "sender_count ?q (tx_sender tx) < sender_count p (tx_sender tx)"
      using sender_count_remove_internal [OF wf t(1)] t by simp
    then show "sender_count ?q (tx_sender tx) < max_per_account (config ?q)"
      using lim by (auto simp: within_limits_def intro: less_le_trans)
  qed
  then show ?thesis using t by (simp add: replace_tx_eq)
qed


subsection \<open>Admission\<close>

lemma can_replace_TrueD:
  assumes "can_replace cfg t tx = Ok True"
  shows "is_pending t" and "tx_sender t = tx_sender tx" and "tx_nonce t = tx_nonce tx"
    and "unat (tx_gas_price t) * (100 + unat (rbf_min_bump_percent cfg)) div 100 \<le> unat (tx_gas_price tx)"
proof -
  show "is_pending t" "tx_sender t = tx_sender tx" "tx_nonce t = tx_nonce tx"
    using assms by (auto simp: can_replace_def is_pending_inclusion_iff split: if_splits)
  obtain bump scaled where "checked_add 100 (rbf_min_bump_percent cfg) = Some bump"
    and "checked_mul (tx_gas_price t) (ucast bump) = Some scaled"
    and le: "scaled div 100 \<le> tx_gas_price tx"
    using assms by (auto simp: can_replace_def split: if_splits option.splits)
  then have "unat bump = 100 + unat (rbf_min_bump_percent cfg)"
    and "unat scaled = unat (tx_gas_price t) * unat (ucast bump :: u256)"
    by (simp_all add: checked_add_Some_iff checked_mul_Some_iff)
  moreover have "unat (ucast bump :: u256) = unat bump"
    by (simp add: unat_ucast_up)
  ultimately show "unat (tx_gas_price t) * (100 + unat (rbf_min_bump_percent cfg)) div 100 \<le> unat (tx_gas_price tx)"
    using le by (simp add: word_le_nat_alt unat_div)
qed

lemma try_rbf_at_limit_cases:
  obtains (refused) "fst (try_rbf_at_limit tx p) = p" "\<not> is_ok (snd (try_rbf_at_limit tx p))"
  | (replaced) h t where "map_of (sender_index p (tx_sender tx)) (tx_nonce tx) = Some h"
      "map_of (by_hash p) h = Some t" "can_replace (config p) t tx = Ok True" "enable_rbf (config p)"
      "try_rbf_at_limit tx p = replace_tx h tx p"
proof (cases "\<exists>h t. map_of (sender_index p (tx_sender tx)) (tx_nonce tx) = Some h \<and>
    map_of (by_hash p) h = Some t \<and> can_replace (config p) t tx = Ok True \<and> enable_rbf (config p)")
  case True
  then show ?thesis by (auto simp: try_rbf_at_limit_def Let_def intro: replaced)
next
  case False
  then show ?thesis
    by (intro refused)
      (auto simp: try_rbf_at_limit_def Let_def split: option.splits outcome.splits bool.splits)
qed

lemma try_rbf_or_add_cases:
  obtains (refused) "fst (try_rbf_or_add tx p) = p" "\<not> is_ok (snd (try_rbf_or_add tx p))"
  | (added) "map_of (sender_index p (tx_sender tx)) (tx_nonce tx) = None"
      "try_rbf_or_add tx p = add_internal tx p"
  | (replaced) h t where "map_of (sender_index p (tx_sender tx)) (tx_nonce tx) = Some h"
      "map_of (by_hash p) h = Some t" "can_replace (config p) t tx = Ok True" "enable_rbf (config p)"
      "try_rbf_or_add tx p = replace_tx h tx p"
proof (cases "map_of (sender_index p (tx_sender tx)) (tx_nonce tx)")
  case None
  then show ?thesis by (intro added) (auto simp: try_rbf_or_add_def)
next
  case (Some h)
  show ?thesis
  proof (cases "\<exists>t. map_of (by_hash p) h = Some t \<and> can_replace (config p) t tx = Ok True \<and> enable_rbf (config p)")
    case True
    with Some show ?thesis by (auto simp: try_rbf_or_add_def intro: replaced)
  next
    case False
    with Some show ?thesis
      by (intro refused) (auto simp: try_rbf_or_add_def split: option.splits outcome.splits bool.splits)
  qed
qed

text \<open>An eviction removes the pending transaction of lowest priority and nothing else.\<close>

lemma try_evict_for_cases:
  assumes "pool_wf p"
  obtains (kept) "try_evict_for tx p = (p, Ok False)"
  | (evicted) t where "map_of (by_hash p) (tx_hash t) = Some t" "is_pending t"
      "\<And>pt. pt \<in> set (by_price p) \<Longrightarrow> pt \<le> priced t"
      "tx_gas_price t < tx_gas_price tx \<or> tx_gas_price tx = tx_gas_price t \<and> tx_added_at tx < tx_added_at t"
      "try_evict_for tx p = (fst (remove_internal (tx_hash t) p), Ok True)"
proof (cases "by_price p = []")
  case True
  then have "try_evict_for tx p = (p, Ok False)" by (simp add: try_evict_for_def)
  then show ?thesis by (rule kept)
next
  case False
  then have "last (by_price p) \<in> set (by_price p)" by simp
  then obtain t where t: "map_of (by_hash p) (tx_hash t) = Some t" "is_pending t" "last (by_price p) = priced t"
    using wf_price_iff [OF assms] by auto
  have "\<And>pt. pt \<in> set (by_price p) \<Longrightarrow> pt \<le> priced t"
    using bs_last_greatest [OF wf_price_inv [OF assms] False] t(3) by simp
  note lowest = this
  show ?thesis
  proof (cases "tx_gas_price t < tx_gas_price tx \<or> tx_gas_price tx = tx_gas_price t \<and> tx_added_at tx < tx_added_at t")
    case True
    then have "try_evict_for tx p = (fst (remove_internal (tx_hash t) p), Ok True)"
      using t False by (subst try_evict_for_def) (auto simp: Let_def remove_internal_def)
    with t lowest True show ?thesis by (intro evicted) auto
  next
    case none: False
    then have "try_evict_for tx p = (p, Ok False)"
      using t False by (auto simp: try_evict_for_def Let_def)
    then show ?thesis by (rule kept)
  qed
qed

lemma try_rbf_at_limit_wf:
  assumes "pool_wf p" and "map_of (by_hash p) (tx_hash tx) = None"
  shows "pool_wf (fst (try_rbf_at_limit tx p))"
  by (cases tx p rule: try_rbf_at_limit_cases) (use assms in \<open>auto intro: replace_tx_wf\<close>)

lemma try_rbf_or_add_wf:
  assumes "pool_wf p" and "map_of (by_hash p) (tx_hash tx) = None"
  shows "pool_wf (fst (try_rbf_or_add tx p))"
  by (cases tx p rule: try_rbf_or_add_cases) (use assms in \<open>auto intro: replace_tx_wf add_internal_wf\<close>)

lemma try_rbf_at_limit_limits:
  assumes "pool_wf p" and "within_limits p" and "map_of (by_hash p) (tx_hash tx) = None"
  shows "within_limits (fst (try_rbf_at_limit tx p))"
  by (cases tx p rule: try_rbf_at_limit_cases) (use assms in \<open>auto intro: replace_tx_limits\<close>)

lemma try_rbf_or_add_limits:
  assumes "pool_wf p" and "within_limits p" and "map_of (by_hash p) (tx_hash tx) = None"
    and "length (by_hash p) < max_transactions (config p)"
    and "sender_count p (tx_sender tx) < max_per_account (config p)"
  shows "within_limits (fst (try_rbf_or_add tx p))"
  by (cases tx p rule: try_rbf_or_add_cases)
    (use assms in \<open>auto intro: replace_tx_limits add_internal_limits\<close>)

lemma add_cases:
  assumes wf: "pool_wf p"
  obtains (refused) "fst (add tx p) = p" "\<not> is_ok (snd (add tx p))"
  | (at_limit) "map_of (by_hash p) (tx_hash tx) = None"
      "max_per_account (config p) \<le> sender_count p (tx_sender tx)" "add tx p = try_rbf_at_limit tx p"
  | (room) "map_of (by_hash p) (tx_hash tx) = None"
      "sender_count p (tx_sender tx) < max_per_account (config p)"
      "length (by_hash p) < max_transactions (config p)" "add tx p = try_rbf_or_add tx p"
  | (evicting) t where "map_of (by_hash p) (tx_hash tx) = None"
      "sender_count p (tx_sender tx) < max_per_account (config p)"
      "max_transactions (config p) \<le> length (by_hash p)"
      "map_of (by_hash p) (tx_hash t) = Some t" "is_pending t"
      "add tx p = try_rbf_or_add tx (fst (remove_internal (tx_hash t) p))"
proof (cases "map_of (by_hash p) (tx_hash tx) \<noteq> None \<or> tx_gas_price tx < min_gas_price (config p) \<or>
    max_gas_per_tx (config p) < tx_gas_limit tx")
  case True
  then show ?thesis by (intro refused) (auto simp: add_def)
next
  case False
  then have fresh: "map_of (by_hash p) (tx_hash tx) = None" by simp
  show ?thesis
  proof (cases "max_per_account (config p) \<le> sender_count p (tx_sender tx)")
    case True
    with False show ?thesis by (intro at_limit) (auto simp: add_def)
  next
    case few: False
    show ?thesis
    proof (cases "max_transactions (config p) \<le> length (by_hash p)")
      case full: True
      show ?thesis
      proof (cases tx rule: try_evict_for_cases [OF wf, case_names kept evicted])
        case kept
        with False few full show ?thesis by (intro refused) (auto simp: add_def)
      next
        case (evicted t)
        with False few full fresh show ?thesis by (intro evicting [of t]) (auto simp: add_def)
      qed
    next
      case room': False
      with False few fresh show ?thesis by (intro room) (auto simp: add_def)
    qed
  qed
qed

lemma add_wf:
  assumes wf: "pool_wf p"
  shows "pool_wf (fst (add tx p))"
proof (cases tx rule: add_cases [OF wf, case_names refused at_limit room evicting])
  case (evicting t)
  then show ?thesis
    using wf by (auto simp: by_hash_remove_internal intro!: try_rbf_or_add_wf remove_internal_wf)
next
  case at_limit
  then show ?thesis using wf by (simp add: try_rbf_at_limit_wf)
next
  case room
  then show ?thesis using wf by (simp add: try_rbf_or_add_wf)
qed (use wf in simp)

lemma add_limits:
  assumes wf: "pool_wf p" and lim: "within_limits p"
  shows "within_limits (fst (add tx p))"
proof (cases tx rule: add_cases [OF wf, case_names refused at_limit room evicting])
  case (evicting t)
  let ?q = "fst (remove_internal (tx_hash t) p)"
  have "within_limits (fst (try_rbf_or_add tx ?q))"
  proof (rule try_rbf_or_add_limits)
    show "pool_wf ?q" using wf by (rule remove_internal_wf)
    show "within_limits ?q" using wf lim by (rule remove_internal_limits)
    show "map_of (by_hash ?q) (tx_hash tx) = None" using evicting by (simp add: by_hash_remove_internal)
    show "length (by_hash ?q) < max_transactions (config ?q)"
      using length_remove_internal [OF wf evicting(4)] lim by (simp add: within_limits_def)
    show "sender_count ?q (tx_sender tx) < max_per_account (config ?q)"
      using sender_count_remove_internal(1) [OF wf evicting(4), of "tx_sender tx"] evicting(2)
      by (auto intro: le_less_trans)
  qed
  then show ?thesis using evicting by simp
next
  case at_limit
  then show ?thesis using wf lim by (simp add: try_rbf_at_limit_limits)
next
  case room
  then show ?thesis using wf lim by (simp add: try_rbf_or_add_limits)
qed (use lim in simp)

text \<open>A transaction that has been proposed for a block survives every admission.\<close>

lemma replace_tx_lookup:
  assumes "map_of (by_hash p) h = Some t"
  shows "map_of (by_hash (fst (replace_tx h tx p))) = (map_of (by_hash p))(h := None, tx_hash tx \<mapsto> tx)"
  using assms by (simp add: replace_tx_eq by_hash_add_internal by_hash_remove_internal)

lemma try_rbf_or_add_keeps:
  assumes "map_of (by_hash p) h = Some t" and "is_pending_inclusion t" and "h \<noteq> tx_hash tx"
  shows "map_of (by_hash (fst (try_rbf_or_add tx p))) h = Some t"
  by (cases tx p rule: try_rbf_or_add_cases)
    (use assms in \<open>auto simp: by_hash_add_internal replace_tx_lookup is_pending_inclusion_iff dest: can_replace_TrueD(1)\<close>)

lemma try_rbf_at_limit_keeps:
  assumes "map_of (by_hash p) h = Some t" and "is_pending_inclusion t" and "h \<noteq> tx_hash tx"
  shows "map_of (by_hash (fst (try_rbf_at_limit tx p))) h = Some t"
  by (cases tx p rule: try_rbf_at_limit_cases)
    (use assms in \<open>auto simp: replace_tx_lookup is_pending_inclusion_iff dest: can_replace_TrueD(1)\<close>)

lemma add_keeps_proposed:
  assumes wf: "pool_wf p" and "map_of (by_hash p) h = Some t" and "is_pending_inclusion t"
  shows "map_of (by_hash (fst (add tx p))) h = Some t"
proof (cases tx rule: add_cases [OF wf, case_names refused at_limit room evicting])
  case (evicting u)
  with assms have "map_of (by_hash (fst (remove_internal (tx_hash u) p))) h = Some t"
    by (auto simp: by_hash_remove_internal is_pending_inclusion_iff)
  moreover have "h \<noteq> tx_hash tx" using evicting(1) assms(2) by auto
  ultimately show ?thesis using evicting assms(3) by (simp add: try_rbf_or_add_keeps)
next
  case at_limit
  then have "h \<noteq> tx_hash tx" using assms(2) by auto
  then show ?thesis using at_limit assms by (simp add: try_rbf_at_limit_keeps)
next
  case room
  then have "h \<noteq> tx_hash tx" using assms(2) by auto
  then show ?thesis using room assms by (simp add: try_rbf_or_add_keeps)
qed (use assms in simp)

subsection \<open>Two-phase commit\<close>

text \<open>Changing only the state of a stored transaction keeps a pool well formed.\<close>

definition same_identity :: "mempool_transaction \<Rightarrow> mempool_transaction \<Rightarrow> bool" where
  "same_identity t t' \<longleftrightarrow> priced t = priced t' \<and> tx_sender t = tx_sender t' \<and> tx_nonce t = tx_nonce t'"

lemma restate_wf:
  assumes wf: "pool_wf p" and tx: "map_of (by_hash p) h = Some tx" and same: "same_identity tx' tx"
    and price: "bs_inv X" "set X = (if is_pending tx' then insert (priced tx) (set (by_price p))
      else set (by_price p) - {priced tx})"
  shows "pool_wf (p\<lparr>by_price := X, by_hash := AList.update h tx' (by_hash p)\<rparr>)" (is "pool_wf ?q")
proof -
  have th: "tx_hash tx = h" using wf_hashD [OF wf tx] .
  then have th': "tx_hash tx' = h" using same by (auto simp: same_identity_def dest: priced_inj)
  have bh: "map_of (by_hash ?q) = (map_of (by_hash p))(h \<mapsto> tx')" by (simp add: update_conv')
  have "wf_hash ?q"
    using wf th' by (auto simp: pool_wf_def wf_hash_def update_conv' distinct_update)
  moreover have "wf_price ?q"
  proof -
    have "pt_hash pt = h \<Longrightarrow> pt \<in> set (by_price p) \<Longrightarrow> pt = priced tx" for pt
      using tx by (auto simp: wf_price_iff [OF wf])
    moreover have "priced tx' = priced tx" using same by (simp add: same_identity_def)
    ultimately show ?thesis
      using price th th' by (auto simp: wf_price_def update_conv' wf_price_iff [OF wf] split: if_splits)
  qed
  moreover have "wf_sender ?q"
  proof -
    have "map_of (sender_index ?q a) n = Some k \<longleftrightarrow>
      (\<exists>t. map_of (by_hash ?q) k = Some t \<and> tx_sender t = a \<and> tx_nonce t = n)" for a n k
      using wf_index_iff [OF wf, of a n k] tx same
      by (cases "k = h") (auto simp: sender_index_def same_identity_def update_conv')
    with wf show ?thesis by (auto simp: pool_wf_def wf_sender_def)
  qed
  ultimately show ?thesis by (simp add: pool_wf_def)
qed

lemma same_identity_state:
  "same_identity (fst (tx_propose tx height now)) tx"
  "same_identity (fst (tx_rollback tx)) tx"
  by (simp_all add: tx_propose_def tx_rollback_def same_identity_def priced_def)

lemma is_pending_state [simp]:
  "\<not> is_pending (tx\<lparr>tx_state := PendingInclusion b t, tx_target_block := c\<rparr>)"
  "is_pending (tx\<lparr>tx_state := Pending, tx_target_block := c\<rparr>)"
  by (simp_all add: is_pending.simps)

lemma is_pending_propose: "\<not> is_pending (fst (tx_propose tx height now))"
  by (simp add: tx_propose_def is_pending_inclusion_iff)

lemma is_pending_rollback: "is_pending (fst (tx_rollback tx))"
  by (simp add: tx_rollback_def is_pending_inclusion_iff)

text \<open>
  What one round of propose, and of rollback, leaves alone: everything but the state of
  the transaction it names.
\<close>

definition same_frame :: "transaction_pool \<Rightarrow> transaction_pool \<Rightarrow> bool" where
  "same_frame p q \<longleftrightarrow> config q = config p \<and> by_sender q = by_sender p \<and>
     map fst (by_hash q) = map fst (by_hash p) \<and> pending_batches q = pending_batches p"

lemma same_frame_refl: "same_frame p p"
  by (simp add: same_frame_def)

lemma same_frame_trans: "same_frame p q \<Longrightarrow> same_frame q r \<Longrightarrow> same_frame p r"
  by (simp add: same_frame_def)

lemma same_frame_limits: "same_frame p q \<Longrightarrow> within_limits p \<Longrightarrow> within_limits q"
  by (metis (no_types, lifting) same_frame_def within_limits_def sender_count_def length_map)

lemma propose_step_wf: "pool_wf (fst s) \<Longrightarrow> pool_wf (fst (propose_step height now h s))"
  by (auto simp: propose_step_def wf_price_inv bs_rules is_pending_propose same_identity_state
    simp del: set_remove1_eq split: prod.splits option.splits intro!: restate_wf)

lemma propose_step_frame: "same_frame (fst s) (fst (propose_step height now h s))"
  by (auto simp: propose_step_def same_frame_def hm_update_keys_present split: prod.splits option.splits)

lemma rollback_step_wf: "pool_wf (fst s) \<Longrightarrow> pool_wf (fst (rollback_step h s))"
  by (auto simp: rollback_step_def wf_price_inv bs_rules is_pending_rollback same_identity_state
    split: prod.splits option.splits intro!: restate_wf)

lemma rollback_step_frame: "same_frame (fst s) (fst (rollback_step h s))"
  by (auto simp: rollback_step_def same_frame_def hm_update_keys_present split: prod.splits option.splits)

lemma fold_propose_wf: "pool_wf (fst s) \<Longrightarrow> pool_wf (fst (fold (propose_step height now) hs s))"
  by (induction hs arbitrary: s) (simp_all add: propose_step_wf)

lemma fold_rollback_wf: "pool_wf (fst s) \<Longrightarrow> pool_wf (fst (fold rollback_step hs s))"
  by (induction hs arbitrary: s) (simp_all add: rollback_step_wf)

lemma fold_propose_frame: "same_frame (fst s) (fst (fold (propose_step height now) hs s))"
proof (induction hs arbitrary: s)
  case (Cons h hs)
  show ?case
    using same_frame_trans [OF propose_step_frame Cons.IH] by simp
qed (simp add: same_frame_refl)

lemma fold_rollback_frame: "same_frame (fst s) (fst (fold rollback_step hs s))"
proof (induction hs arbitrary: s)
  case (Cons h hs)
  show ?case
    using same_frame_trans [OF rollback_step_frame Cons.IH] by simp
qed (simp add: same_frame_refl)

text \<open>The state of every transaction after the loops.\<close>

definition proposed_tx :: "u64 \<Rightarrow> timestamp \<Rightarrow> mempool_transaction \<Rightarrow> mempool_transaction" where
  "proposed_tx height now tx =
     (if is_pending tx then tx\<lparr>tx_state := PendingInclusion height now, tx_target_block := Some height\<rparr> else tx)"

definition restored_tx :: "mempool_transaction \<Rightarrow> mempool_transaction" where
  "restored_tx tx = (if is_pending tx then tx else tx\<lparr>tx_state := Pending, tx_target_block := None\<rparr>)"

lemma proposed_tx_idem [simp]: "proposed_tx b t (proposed_tx b' t' tx) = proposed_tx b' t' tx"
  by (simp add: proposed_tx_def)

lemma restored_tx_idem [simp]: "restored_tx (restored_tx tx) = restored_tx tx"
  by (simp add: restored_tx_def)

lemma fold_propose_lookup:
  "map_of (by_hash (fst (fold (propose_step height now) hs s))) k =
     (if k \<in> set hs then map_option (proposed_tx height now) (map_of (by_hash (fst s)) k)
      else map_of (by_hash (fst s)) k)"
proof (induction hs arbitrary: s)
  case (Cons h hs)
  have "map_of (by_hash (fst (propose_step height now h s))) k =
    (if k = h then map_option (proposed_tx height now) (map_of (by_hash (fst s)) k) else map_of (by_hash (fst s)) k)" for k
    by (auto simp: propose_step_def proposed_tx_def tx_propose_def is_pending_inclusion_iff update_conv'
      split: prod.splits option.splits)
  with Cons.IH [of "propose_step height now h s"] show ?case
    by (auto simp: option.map_comp o_def)
qed simp

lemma fold_rollback_lookup:
  "map_of (by_hash (fst (fold rollback_step hs s))) k =
     (if k \<in> set hs then map_option restored_tx (map_of (by_hash (fst s)) k)
      else map_of (by_hash (fst s)) k)"
proof (induction hs arbitrary: s)
  case (Cons h hs)
  have "map_of (by_hash (fst (rollback_step h s))) k =
    (if k = h then map_option restored_tx (map_of (by_hash (fst s)) k) else map_of (by_hash (fst s)) k)" for k
    by (auto simp: rollback_step_def restored_tx_def tx_rollback_def is_pending_inclusion_iff update_conv'
      split: prod.splits option.splits)
  with Cons.IH [of "rollback_step h s"] show ?case
    by (auto simp: option.map_comp o_def)
qed simp

lemma pool_wf_batches [simp]: "pool_wf (p\<lparr>pending_batches := bs\<rparr>) = pool_wf p"
  by (simp add: pool_wf_def wf_hash_def wf_price_def wf_sender_def sender_index_def)

lemma within_limits_batches [simp]: "within_limits (p\<lparr>pending_batches := bs\<rparr>) = within_limits p"
  by (simp add: within_limits_def sender_count_def)

lemma propose_wf: "pool_wf p \<Longrightarrow> pool_wf (fst (propose hs height now p))"
  using fold_propose_wf [of "(p, propose_result_default, [])" height now hs]
  by (auto simp: propose_def split: prod.splits)

lemma propose_limits: "within_limits p \<Longrightarrow> within_limits (fst (propose hs height now p))"
  using same_frame_limits [OF fold_propose_frame [of "(p, propose_result_default, [])" height now hs]]
  by (auto simp: propose_def split: prod.splits)

lemma propose_lookup:
  "map_of (by_hash (fst (propose hs height now p))) k =
     (if k \<in> set hs then map_option (proposed_tx height now) (map_of (by_hash p) k) else map_of (by_hash p) k)"
  using fold_propose_lookup [of height now hs "(p, propose_result_default, [])" k]
  by (cases "fold (propose_step height now) hs (p, propose_result_default, [])") (auto simp: propose_def)

lemma rollback_wf: "pool_wf p \<Longrightarrow> pool_wf (fst (rollback hs p))"
  using fold_rollback_wf [of "(p, [])" hs] by (auto simp: rollback_def split: prod.splits)

lemma rollback_limits: "within_limits p \<Longrightarrow> within_limits (fst (rollback hs p))"
  using same_frame_limits [OF fold_rollback_frame [of "(p, [])" hs]]
  by (auto simp: rollback_def split: prod.splits)

lemma rollback_lookup:
  "map_of (by_hash (fst (rollback hs p))) k =
     (if k \<in> set hs then map_option restored_tx (map_of (by_hash p) k) else map_of (by_hash p) k)"
  using fold_rollback_lookup [of hs "(p, [])" k]
  by (cases "fold rollback_step hs (p, [])") (auto simp: rollback_def)

lemma cleanup_wf: "pool_wf p \<Longrightarrow> pool_wf (fst (cleanup_timeouts now p))"
  by (simp add: cleanup_timeouts_def rollback_wf)

lemma cleanup_limits: "within_limits p \<Longrightarrow> within_limits (fst (cleanup_timeouts now p))"
  by (simp add: cleanup_timeouts_def rollback_limits)

lemma confirm_step_lookup:
  "map_of (by_hash (fst (confirm_step h s))) = (map_of (by_hash (fst s)))(h := None)"
  using by_hash_remove_internal [of h "fst s"]
  by (auto simp: confirm_step_def split: prod.splits outcome.splits)

lemma confirm_step_inv:
  assumes "pool_wf (fst s)"
  shows "pool_wf (fst (confirm_step h s))"
    and "within_limits (fst s) \<Longrightarrow> within_limits (fst (confirm_step h s))"
  using assms remove_internal_wf [of "fst s" h] remove_internal_limits [of "fst s" h]
  by (auto simp: confirm_step_def split: prod.splits outcome.splits)

lemma fold_confirm_inv:
  "pool_wf (fst s) \<Longrightarrow> pool_wf (fst (fold confirm_step hs s)) \<and>
     (within_limits (fst s) \<longrightarrow> within_limits (fst (fold confirm_step hs s)))"
  by (induction hs arbitrary: s) (simp_all add: confirm_step_inv)

lemma fold_confirm_lookup:
  "map_of (by_hash (fst (fold confirm_step hs s))) k =
     (if k \<in> set hs then None else map_of (by_hash (fst s)) k)"
  by (induction hs arbitrary: s) (auto simp: confirm_step_lookup)

lemma confirm_wf: "pool_wf p \<Longrightarrow> pool_wf (fst (confirm hs p))"
  using fold_confirm_inv [of "(p, [])" hs] by (auto simp: confirm_def split: prod.splits)

lemma confirm_limits: "pool_wf p \<Longrightarrow> within_limits p \<Longrightarrow> within_limits (fst (confirm hs p))"
  using fold_confirm_inv [of "(p, [])" hs] by (auto simp: confirm_def split: prod.splits)

lemma confirm_lookup:
  "map_of (by_hash (fst (confirm hs p))) k = (if k \<in> set hs then None else map_of (by_hash p) k)"
  using fold_confirm_lookup [of hs "(p, [])" k]
  by (cases "fold confirm_step hs (p, [])") (auto simp: confirm_def)

section \<open>Reachable pools\<close>

inductive pool_step :: "transaction_pool \<Rightarrow> transaction_pool \<Rightarrow> bool" where
  step_add: "pool_step p (fst (add tx p))"
| step_remove: "pool_step p (fst (remove h p))"
| step_propose: "pool_step p (fst (propose hs height now p))"
| step_confirm: "pool_step p (fst (confirm hs p))"
| step_rollback: "pool_step p (fst (rollback hs p))"
| step_cleanup: "pool_step p (fst (cleanup_timeouts now p))"

inductive reachable_pool :: "mempool_config \<Rightarrow> transaction_pool \<Rightarrow> bool" for cfg where
  start: "reachable_pool cfg (new_pool cfg)"
| step: "reachable_pool cfg p \<Longrightarrow> pool_step p q \<Longrightarrow> reachable_pool cfg q"

lemma pool_step_inv:
  assumes "pool_step p q" and "pool_wf p" and "within_limits p"
  shows "pool_wf q" and "within_limits q"
  using assms
  by (auto elim!: pool_step.cases simp: remove_def add_wf add_limits remove_internal_wf remove_internal_limits
    propose_wf propose_limits confirm_wf confirm_limits rollback_wf rollback_limits cleanup_wf cleanup_limits)

lemma reachable_pool_inv:
  "reachable_pool cfg p \<Longrightarrow> pool_wf p \<and> within_limits p"
proof (induction rule: reachable_pool.induct)
  case start
  have "within_limits (new_pool cfg)"
    by (simp add: within_limits_def new_pool_def sender_count_def)
  then show ?case by (simp add: pool_wf_new)
next
  case (step p q)
  then show ?case by (auto dest: pool_step_inv)
qed

text \<open>
  C1. Every pool that the operations can produce from an empty one is well formed: the
  three indices describe the same transactions, the price index holds exactly the pending
  ones, each sender and nonce has at most one transaction, and neither the pool limit nor
  the account limit is exceeded.
\<close>

theorem reachable_pool_consistent:
  "reachable_pool cfg p \<Longrightarrow> pool_wf p \<and> within_limits p"
  by (rule reachable_pool_inv)

section \<open>Properties\<close>

lemma same_by_hash_same_price:
  assumes "pool_wf p" and "pool_wf q" and "by_hash p = by_hash q"
  shows "by_price p = by_price q"
  using assms wf_price_iff [of p] wf_price_iff [of q]
  by (intro bs_eqI) (auto simp: wf_price_inv)

text \<open>
  C4. Rolling a proposal back restores the pool: if none of the named transactions was in
  flight before, proposing them and then rolling them back leaves the transactions, the
  priority queue and the sender index exactly as they were.
\<close>

theorem rollback_undoes_propose:
  assumes wf: "pool_wf p"
    and idle: "\<And>h tx. h \<in> set hs \<Longrightarrow> get_tx p h = Some tx \<Longrightarrow> is_pending tx \<and> tx_target_block tx = None"
    and q_def: "q = fst (rollback hs (fst (propose hs height now p)))"
  shows "by_hash q = by_hash p \<and> by_price q = by_price p \<and> by_sender q = by_sender p \<and> config q = config p"
proof -
  let ?r = "fst (propose hs height now p)"
  have frame_r: "config ?r = config p \<and> by_sender ?r = by_sender p \<and> map fst (by_hash ?r) = map fst (by_hash p)"
    using fold_propose_frame [of "(p, propose_result_default, [])" height now hs]
    by (cases "fold (propose_step height now) hs (p, propose_result_default, [])")
      (auto simp: propose_def same_frame_def)
  have frame_q: "config q = config ?r \<and> by_sender q = by_sender ?r \<and> map fst (by_hash q) = map fst (by_hash ?r)"
    using fold_rollback_frame [of "(?r, [])" hs]
    by (cases "fold rollback_step hs (?r, [])") (auto simp: q_def rollback_def same_frame_def)
  have wf_q: "pool_wf q" unfolding q_def by (intro rollback_wf propose_wf wf)
  have undo: "restored_tx (proposed_tx height now tx) = tx" if "is_pending tx" "tx_target_block tx = None" for tx
    using that by (cases tx) (simp add: restored_tx_def proposed_tx_def is_pending.simps split: transaction_state.splits)
  have "map_of (by_hash q) k = map_of (by_hash p) k" for k
    using idle [of k] undo
    by (cases "map_of (by_hash p) k") (auto simp: q_def rollback_lookup propose_lookup get_tx_def)
  then have "by_hash q = by_hash p"
    using frame_r frame_q wf_hash_inv [OF wf_q] by (intro hm_eqI) auto
  with wf wf_q frame_r frame_q show ?thesis by (auto intro: same_by_hash_same_price)
qed

text \<open>
  After the periodic cleanup no proposed transaction is past the inclusion timeout: each
  one that was has gone back to pending and is in the priority queue again, and every
  other transaction is untouched.
\<close>

theorem cleanup_releases_timed_out:
  assumes wf: "pool_wf p"
    and q_def: "q = fst (cleanup_timeouts now p)"
    and timeout_def: "timeout = pending_inclusion_timeout_ms (config p)"
  shows "(\<forall>h tx. get_tx q h = Some tx \<longrightarrow> \<not> tx_is_timed_out tx now timeout) \<and>
    (\<forall>h tx. get_tx p h = Some tx \<longrightarrow>
       (if tx_is_timed_out tx now timeout
        then get_tx q h = Some (tx\<lparr>tx_state := Pending, tx_target_block := None\<rparr>) \<and>
             priced tx \<in> set (by_price q)
        else get_tx q h = Some tx))"
proof -
  let ?hs = "map tx_hash (filter (\<lambda>tx. tx_is_timed_out tx now timeout) (map snd (by_hash p)))"
  have mem: "h \<in> set ?hs \<longleftrightarrow> (\<exists>tx. get_tx p h = Some tx \<and> tx_is_timed_out tx now timeout)" for h
    using wf_hashD [OF wf] hm_values_iff [OF wf_hash_inv [OF wf]]
    by (auto simp: get_tx_def image_iff)
  have q: "q = fst (rollback ?hs p)" by (simp add: q_def timeout_def cleanup_timeouts_def)
  have flight: "tx_is_timed_out tx now timeout \<Longrightarrow> \<not> is_pending tx" for tx
    by (simp add: tx_is_timed_out_def is_pending.simps split: transaction_state.splits)
  have look: "get_tx q h = (case get_tx p h of None \<Rightarrow> None | Some tx \<Rightarrow>
      Some (if tx_is_timed_out tx now timeout then tx\<lparr>tx_state := Pending, tx_target_block := None\<rparr> else tx))" for h
    using mem [of h] flight unfolding q get_tx_def rollback_lookup
    by (auto simp: restored_tx_def get_tx_def split: option.splits)
  have wf_q: "pool_wf q" unfolding q by (rule rollback_wf [OF wf])
  have "\<not> tx_is_timed_out (tx\<lparr>tx_state := Pending, tx_target_block := None\<rparr>) now timeout" for tx
    by (simp add: tx_is_timed_out_def)
  moreover have "priced tx \<in> set (by_price q)"
    if "get_tx p h = Some tx" "tx_is_timed_out tx now timeout" for h tx
    using that look [of h] wf_hashD [OF wf, of h tx]
    by (auto simp: wf_price_iff [OF wf_q] get_tx_def priced_def)
  ultimately show ?thesis
    by (auto simp: look split: option.splits)
qed

subsection \<open>Selection for a block\<close>

definition first_nonce :: "transaction_pool \<Rightarrow> address \<Rightarrow> u64 option" where
  "first_nonce p a = bt_first_key (sender_index p a)"

definition from_sender :: "address \<Rightarrow> mempool_transaction list \<Rightarrow> mempool_transaction list" where
  "from_sender a txs = filter (\<lambda>t. tx_sender t = a) txs"

definition nonces_run :: "transaction_pool \<Rightarrow> address \<Rightarrow> u64 option \<Rightarrow> mempool_transaction list \<Rightarrow> bool" where
  "nonces_run p a nxt txs \<longleftrightarrow>
     (case nxt of
        None \<Rightarrow> from_sender a txs = []
      | Some n \<Rightarrow> from_sender a txs \<noteq> [] \<and> (\<exists>n0. first_nonce p a = Some n0 \<and>
          map (\<lambda>t. unat (tx_nonce t)) (from_sender a txs) = [unat n0..<unat n]))"

definition sel_inv :: "transaction_pool \<Rightarrow> usize \<Rightarrow> u64 \<Rightarrow> priced_transaction list \<Rightarrow>
    mempool_transaction list \<Rightarrow> u64 \<Rightarrow> (address \<rightharpoonup> u64) \<Rightarrow> bool" where
  "sel_inv p max_count max_gas pts txs gas_sum nxt \<longleftrightarrow>
     length txs \<le> max_count \<and>
     unat gas_sum = min (sum_list (map (\<lambda>t. unat (tx_gas_limit t)) txs)) (2 ^ 64 - 1) \<and>
     gas_sum \<le> max_gas \<and>
     (\<forall>t \<in> set txs. get_tx p (tx_hash t) = Some t \<and> is_pending t) \<and>
     sorted_wrt (<) (map priced txs @ pts) \<and>
     set pts \<subseteq> set (by_price p) \<and>
     (\<forall>a. nonces_run p a (nxt a) txs)"

lemma from_sender_append: "from_sender a (xs @ [t]) = from_sender a xs @ (if tx_sender t = a then [t] else [])"
  by (simp add: from_sender_def)

lemma sel_inv_skip: "sel_inv p c g (pt # pts) txs gas_sum nxt \<Longrightarrow> sel_inv p c g pts txs gas_sum nxt"
  by (auto simp: sel_inv_def sorted_wrt_append)

lemma sel_inv_run: "sel_inv p c g pts txs gas_sum nxt \<Longrightarrow> nonces_run p a (nxt a) txs"
  by (simp add: sel_inv_def)

lemma expected_nonce_first:
  assumes "pool_wf p" and "map_of (by_hash p) (tx_hash tx) = Some tx" and "nxt (tx_sender tx) = None"
  shows "first_nonce p (tx_sender tx) = Some (expected_nonce p nxt tx)"
proof -
  have "map_of (sender_index p (tx_sender tx)) (tx_nonce tx) = Some (tx_hash tx)"
    using assms by (simp add: wf_index_iff)
  then have "sender_index p (tx_sender tx) \<noteq> []" by auto
  then show ?thesis
    using assms(3) by (auto simp: first_nonce_def expected_nonce_def sender_index_def bt_first_key_def
      split: option.splits list.splits)
qed

lemma sel_inv_take:
  assumes wf: "pool_wf p" and inv: "sel_inv p c g (pt # pts) txs gas_sum nxt"
    and room: "\<not> c \<le> length txs"
    and tx: "map_of (by_hash p) (pt_hash pt) = Some tx"
    and gas: "\<not> g < saturating_add gas_sum (tx_gas_limit tx)"
    and nonce: "tx_nonce tx = expected_nonce p nxt tx"
    and n: "checked_add (tx_nonce tx) 1 = Some n"
  shows "sel_inv p c g pts (txs @ [tx]) (saturating_add gas_sum (tx_gas_limit tx)) (nxt(tx_sender tx \<mapsto> n))"
proof -
  have th: "tx_hash tx = pt_hash pt" using wf_hashD [OF wf tx] .
  have "pt \<in> set (by_price p)" using inv by (simp add: sel_inv_def)
  then have pt: "is_pending tx" "pt = priced tx"
    using tx by (auto simp: wf_price_iff [OF wf])
  have n1: "unat n = Suc (unat (tx_nonce tx))" using n by (simp add: checked_add_Some_iff)
  have "nonces_run p a ((nxt(tx_sender tx \<mapsto> n)) a) (txs @ [tx])" for a
  proof (cases "a = tx_sender tx")
    case False
    then show ?thesis
      using sel_inv_run [OF inv, of a] by (auto simp: nonces_run_def from_sender_append split: option.splits)
  next
    case True
    have run: "nonces_run p a (nxt a) txs" using inv by (rule sel_inv_run)
    show ?thesis
    proof (cases "nxt a")
      case None
      then have "first_nonce p a = Some (tx_nonce tx)"
        using expected_nonce_first [OF wf, of tx nxt] tx th True nonce by simp
      with None run True n1 show ?thesis by (simp add: nonces_run_def from_sender_append)
    next
      case (Some m)
      then obtain n0 where n0: "first_nonce p a = Some n0"
        "map (\<lambda>t. unat (tx_nonce t)) (from_sender a txs) = [unat n0..<unat m]" "from_sender a txs \<noteq> []"
        using run by (auto simp: nonces_run_def)
      have m: "m = tx_nonce tx" using nonce Some True by (simp add: expected_nonce_def)
      from n0(2,3) have "unat n0 < unat m" by (cases "unat n0 < unat m") auto
      with n0 m True n1 show ?thesis by (simp add: nonces_run_def from_sender_append)
    qed
  qed
  moreover have "unat (saturating_add gas_sum (tx_gas_limit tx)) =
      min (sum_list (map (\<lambda>t. unat (tx_gas_limit t)) (txs @ [tx]))) (2 ^ 64 - 1)"
    using inv by (auto simp: sel_inv_def unat_saturating_add min_def)
  moreover have "sorted_wrt (<) (map priced (txs @ [tx]) @ pts)"
    using inv pt(2) by (simp add: sel_inv_def)
  moreover have "\<forall>t \<in> set (txs @ [tx]). get_tx p (tx_hash t) = Some t \<and> is_pending t"
    using inv pt(1) tx th by (simp add: sel_inv_def get_tx_def)
  ultimately show ?thesis
    using inv room gas unfolding sel_inv_def by simp
qed

lemma select_for_block_inv:
  assumes "pool_wf p" and "sel_inv p c g pts txs gas_sum nxt"
    and "select_for_block p c g pts txs gas_sum nxt = Some result"
  shows "\<exists>gas_sum nxt. sel_inv p c g [] result gas_sum nxt"
  using assms(2,3)
proof (induction pts arbitrary: txs gas_sum nxt)
  case (Cons pt pts)
  have trim: "\<exists>gas_sum nxt. sel_inv p c g [] txs gas_sum nxt"
    using Cons.prems(1) by (auto simp: sel_inv_def sorted_wrt_append)
  have skip: "sel_inv p c g pts txs gas_sum nxt"
    using Cons.prems(1) by (rule sel_inv_skip)
  show ?case
  proof (cases "c \<le> length txs")
    case True
    with Cons.prems(2) trim show ?thesis by simp
  next
    case room: False
    show ?thesis
    proof (cases "map_of (by_hash p) (pt_hash pt)")
      case None
      with Cons.prems(2) room show ?thesis by (auto intro: Cons.IH [OF skip])
    next
      case (Some tx)
      show ?thesis
      proof (cases "g < saturating_add gas_sum (tx_gas_limit tx) \<or> tx_nonce tx \<noteq> expected_nonce p nxt tx")
        case True
        with Cons.prems(2) room Some have "select_for_block p c g pts txs gas_sum nxt = Some result"
          by (auto split: if_splits)
        with skip show ?thesis by (rule Cons.IH)
      next
        case False
        then obtain n where n: "checked_add (tx_nonce tx) 1 = Some n"
          and sel: "select_for_block p c g pts (txs @ [tx]) (saturating_add gas_sum (tx_gas_limit tx))
            (nxt(tx_sender tx \<mapsto> n)) = Some result"
          using Cons.prems(2) room Some
          by (cases "checked_add (tx_nonce tx) 1") simp_all
        have "sel_inv p c g pts (txs @ [tx]) (saturating_add gas_sum (tx_gas_limit tx)) (nxt(tx_sender tx \<mapsto> n))"
          using False by (intro sel_inv_take [OF assms(1) Cons.prems(1) room Some _ _ n]) auto
        then show ?thesis using sel by (rule Cons.IH)
      qed
    qed
  qed
qed auto

lemma get_for_block_inv:
  assumes "pool_wf p" and "get_for_block p max_count max_gas = Some txs"
  shows "\<exists>gas_sum nxt. sel_inv p max_count max_gas [] txs gas_sum nxt"
proof -
  have "sel_inv p max_count max_gas (by_price p) [] 0 (\<lambda>_. None)"
    by (simp add: sel_inv_def nonces_run_def from_sender_def wf_price_inv [OF assms(1)])
  then show ?thesis
    using select_for_block_inv [OF assms(1)] assms(2) unfolding get_for_block_def by blast
qed

lemma get_for_block_stored:
  assumes "pool_wf p" and "get_for_block p max_count max_gas = Some txs" and "t \<in> set txs"
  shows "map_of (by_hash p) (tx_hash t) = Some t" and "is_pending t"
  using get_for_block_inv [OF assms(1, 2)] assms(3) by (auto simp: sel_inv_def get_tx_def)

text \<open>
  C2. A selection for a block never exceeds the requested number of transactions or the
  gas budget, offers only transactions that are stored and pending, lists them by
  strictly decreasing priority, and takes from each sender a gap-free run of nonces that
  starts at the lowest nonce the pool holds for that sender.
\<close>

theorem get_for_block_sound:
  assumes "pool_wf p" and "get_for_block p max_count max_gas = Some txs"
  shows "length txs \<le> max_count \<and>
    min (sum_list (map (\<lambda>t. unat (tx_gas_limit t)) txs)) (2 ^ 64 - 1) \<le> unat max_gas \<and>
    (\<forall>t \<in> set txs. get_tx p (tx_hash t) = Some t \<and> is_pending t) \<and>
    sorted_wrt (<) (map priced txs) \<and>
    (\<forall>a. from_sender a txs \<noteq> [] \<longrightarrow>
       (\<exists>n0 k. first_nonce p a = Some n0 \<and>
          map (\<lambda>t. unat (tx_nonce t)) (from_sender a txs) = [unat n0..<unat n0 + k]))"
proof -
  obtain gas_sum nxt where inv: "sel_inv p max_count max_gas [] txs gas_sum nxt"
    using get_for_block_inv [OF assms] by blast
  have "\<exists>n0 k. first_nonce p a = Some n0 \<and>
      map (\<lambda>t. unat (tx_nonce t)) (from_sender a txs) = [unat n0..<unat n0 + k]"
    if ne: "from_sender a txs \<noteq> []" for a
  proof -
    have run: "nonces_run p a (nxt a) txs" using inv by (rule sel_inv_run)
    with ne obtain n where "nxt a = Some n" by (cases "nxt a") (auto simp: nonces_run_def)
    with run obtain n0 where n0: "first_nonce p a = Some n0"
      "map (\<lambda>t. unat (tx_nonce t)) (from_sender a txs) = [unat n0..<unat n]"
      by (auto simp: nonces_run_def)
    with ne have "unat n0 \<le> unat n" by (cases "unat n0 \<le> unat n") auto
    with n0 have "map (\<lambda>t. unat (tx_nonce t)) (from_sender a txs) = [unat n0..<unat n0 + (unat n - unat n0)]"
      by simp
    with n0(1) show ?thesis by blast
  qed
  with inv show ?thesis by (auto simp: sel_inv_def word_le_nat_alt)
qed

definition example_tx :: "hash \<Rightarrow> address \<Rightarrow> u64 \<Rightarrow> u256 \<Rightarrow> mempool_transaction" where
  "example_tx h sender nonce price = new_mempool_transaction (\<lambda>_. h)
     \<lparr>st_from = sender, st_to = None, st_value = 0, st_nonce = nonce, st_gas_price = price,
      st_gas_limit = 21000, st_data = [], st_signature = []\<rparr> 1000"

definition example_pool :: transaction_pool where
  "example_pool = fst (add (example_tx 12 7 1 3000000000) (fst (add (example_tx 11 7 0 2000000000)
     (new_pool default_config))))"

definition example_pool2 :: transaction_pool where
  "example_pool2 = fst (propose [11] 5 1000 example_pool)"

lemma example_pool_reachable: "reachable_pool default_config example_pool"
  unfolding example_pool_def
  by (intro reachable_pool.step [OF _ step_add] reachable_pool.start)

lemma example_pool2_reachable: "reachable_pool default_config example_pool2"
  unfolding example_pool2_def
  by (rule reachable_pool.step [OF example_pool_reachable step_propose])

theorem reachable_pool_consistent_witness:
  "pool_wf example_pool2 \<and> within_limits example_pool2 \<and> length (by_hash example_pool2) = 2 \<and>
   pending_count example_pool2 = 1"
proof -
  have "length (by_hash example_pool2) = 2" "pending_count example_pool2 = 1"
    by code_simp+
  with reachable_pool_consistent [OF example_pool2_reachable] show ?thesis by simp
qed

text \<open>
  Admission is not atomic: there is a reachable pool and a transaction whose admission
  fails although the pool has already evicted the transaction of another sender for it
  (the eviction runs before the replace-by-fee check that rejects the newcomer).
\<close>

theorem add_error_can_evict:
  "\<exists>cfg p tx h. reachable_pool cfg p \<and> \<not> is_ok (snd (add tx p)) \<and>
     get_tx p h \<noteq> None \<and> tx_sender (the (get_tx p h)) \<noteq> tx_sender tx \<and> get_tx (fst (add tx p)) h = None"
proof -
  define cfg where "cfg = default_config\<lparr>max_transactions := 2\<rparr>"
  define p where "p = fst (add (example_tx 12 8 0 2000000000) (fst (add (example_tx 11 7 0 100000000000)
     (new_pool (default_config\<lparr>max_transactions := 2\<rparr>)))))"
  define tx where "tx = example_tx 13 7 0 101000000000"
  have "reachable_pool cfg p"
    unfolding p_def cfg_def by (intro reachable_pool.step [OF _ step_add] reachable_pool.start)
  moreover have "\<not> is_ok (snd (add tx p))" unfolding p_def tx_def by code_simp
  moreover have "get_tx p 12 \<noteq> None" unfolding p_def by code_simp
  moreover have "tx_sender (the (get_tx p 12)) \<noteq> tx_sender tx" unfolding p_def tx_def by code_simp
  moreover have "get_tx (fst (add tx p)) 12 = None" unfolding p_def tx_def by code_simp
  ultimately show ?thesis by blast
qed

text \<open>
  Under the default configuration a reachable pool and a transaction exist for which
  admission panics: the fee-bump product of an existing gas price overflows \<open>U256\<close>.
\<close>

theorem add_can_panic:
  "\<exists>p tx. reachable_pool default_config p \<and> snd (add tx p) = Panic"
proof -
  define p where "p = fst (add (example_tx 11 7 0 (- 1)) (new_pool default_config))"
  define tx where "tx = example_tx 12 7 0 (- 1)"
  have "reachable_pool default_config p"
    unfolding p_def by (intro reachable_pool.step [OF _ step_add] reachable_pool.start)
  moreover have "snd (add tx p) = Panic" unfolding p_def tx_def by code_simp
  ultimately show ?thesis by blast
qed

lemma example_pool_wf: "pool_wf example_pool" and example_pool2_wf: "pool_wf example_pool2"
  using reachable_pool_inv [OF example_pool_reachable]
    reachable_pool_inv [OF example_pool2_reachable] by simp_all

lemma example_pool_lookup: "get_tx example_pool 11 = Some (example_tx 11 7 0 2000000000)"
  by code_simp

lemma example_pool2_lookup:
  "get_tx example_pool2 11 = Some ((example_tx 11 7 0 2000000000)
     \<lparr>tx_state := PendingInclusion 5 1000, tx_target_block := Some 5\<rparr>)"
  by code_simp

theorem get_for_block_sound_witness:
  "get_for_block example_pool 10 100000 = Some [example_tx 11 7 0 2000000000] \<and>
   length [example_tx 11 7 0 2000000000] \<le> 10"
proof -
  have g: "get_for_block example_pool 10 100000 = Some [example_tx 11 7 0 2000000000]"
    by code_simp
  with get_for_block_sound [OF example_pool_wf g] show ?thesis by blast
qed

theorem rollback_undoes_propose_witness:
  "by_hash (fst (rollback [11] (fst (propose [11] 5 1000 example_pool)))) = by_hash example_pool \<and>
   by_price (fst (rollback [11] (fst (propose [11] 5 1000 example_pool)))) = by_price example_pool \<and>
   by_price (fst (propose [11] 5 1000 example_pool)) \<noteq> by_price example_pool"
proof -
  have "is_pending tx \<and> tx_target_block tx = None"
    if "h \<in> set [11]" "get_tx example_pool h = Some tx" for h tx
    using that example_pool_lookup
    by (auto simp: example_tx_def new_mempool_transaction_def is_pending.simps)
  note idle = this
  from rollback_undoes_propose [where hs = "[11]" and height = 5 and now = 1000, OF example_pool_wf idle refl]
  have "by_hash (fst (rollback [11] (fst (propose [11] 5 1000 example_pool)))) = by_hash example_pool"
    and "by_price (fst (rollback [11] (fst (propose [11] 5 1000 example_pool)))) = by_price example_pool"
    by simp_all
  moreover have "by_price (fst (propose [11] 5 1000 example_pool)) \<noteq> by_price example_pool"
    by code_simp
  ultimately show ?thesis by simp
qed

theorem cleanup_releases_timed_out_witness:
  "priced (example_tx 11 7 0 2000000000) \<in> set (by_price (fst (cleanup_timeouts 40000 example_pool2))) \<and>
   priced (example_tx 11 7 0 2000000000) \<notin> set (by_price example_pool2)"
proof -
  let ?t = "(example_tx 11 7 0 2000000000)\<lparr>tx_state := PendingInclusion 5 1000, tx_target_block := Some 5\<rparr>"
  have late: "tx_is_timed_out ?t 40000 (pending_inclusion_timeout_ms (config example_pool2))"
    by code_simp
  note released = cleanup_releases_timed_out
    [where now = 40000, OF example_pool2_wf refl refl, THEN conjunct2, rule_format, OF example_pool2_lookup]
  then have "priced ?t \<in> set (by_price (fst (cleanup_timeouts 40000 example_pool2)))"
    unfolding if_P [OF late] by (rule conjunct2)
  moreover have "priced ?t = priced (example_tx 11 7 0 2000000000)"
    by (simp add: priced_def)
  moreover have "priced (example_tx 11 7 0 2000000000) \<notin> set (by_price example_pool2)"
    by code_simp
  ultimately show ?thesis by simp
qed

text \<open>
  A transaction that has been proposed for a block is never replaced or evicted by the
  admission of another one, whatever the outcome of the admission.
\<close>

theorem add_keeps_in_flight:
  assumes "pool_wf p" and "get_tx p h = Some t" and "is_pending_inclusion t"
  shows "get_tx (fst (add tx p)) h = Some t"
  using assms add_keeps_proposed by (simp add: get_tx_def)

theorem add_keeps_in_flight_witness:
  "get_tx (fst (add (example_tx 13 7 0 90000000000) example_pool2)) 11 = get_tx example_pool2 11 \<and>
   get_tx example_pool2 11 \<noteq> None"
proof -
  let ?t = "(example_tx 11 7 0 2000000000)\<lparr>tx_state := PendingInclusion 5 1000, tx_target_block := Some 5\<rparr>"
  have "is_pending_inclusion ?t" by (simp add: is_pending_inclusion.simps)
  from add_keeps_in_flight [OF example_pool2_wf example_pool2_lookup this] example_pool2_lookup
  show ?thesis by simp
qed

end
