(* ===== verification/IpcSecurity.thy ===== *)
theory IpcSecurity
  imports Containers
begin

text \<open>
  Authentication of inter-subsystem messages: \<^verbatim>\<open>shared-types/src/security.rs\<close> (nonce cache,
  HMAC check, timestamp window, message verifier, authorisation matrix),
  \<^verbatim>\<open>shared-types/src/envelope.rs\<close> and the time-bounded nonce cache of
  \<^verbatim>\<open>shared-bus/src/nonce_cache.rs\<close>.

  \<open>Instant::now()\<close> and \<open>SystemTime::now()\<close> are read once per call and are arguments of
  the model. An instant is a number of nanoseconds. HMAC-SHA256 is a parameter \<open>hmac\<close>
  from a key and a message to a tag. A panic of unchecked arithmetic is \<open>None\<close>.
\<close>

section \<open>Constants and envelope\<close>

type_synonym instant = nat

definition nanos_per_sec :: nat where "nanos_per_sec = 1000000000"

definition MAX_FUTURE_SKEW :: u64 where "MAX_FUTURE_SKEW = 10"
definition MAX_AGE :: u64 where "MAX_AGE = 60"
definition NONCE_CACHE_TTL :: nat where "NONCE_CACHE_TTL = 120 * nanos_per_sec"
definition MAX_NONCE_CACHE_SIZE :: usize where "MAX_NONCE_CACHE_SIZE = 100000"

record reply_to =
  topic :: string
  reply_subsystem_id :: u8

record 'a authenticated_message =
  version :: u16
  sender_id :: u8
  recipient_id :: u8
  correlation_id :: uuid
  reply_to_field :: "reply_to option"
  msg_timestamp :: u64
  msg_nonce :: uuid
  msg_signature :: "u8 list"
  payload :: 'a

definition CURRENT_VERSION :: u16 where "CURRENT_VERSION = 1"

datatype verification_result =
    Valid
  | UnsupportedVersion u16 u16
  | TimestampOutOfRange u64 u64
  | ReplayDetectedNonce uuid
  | InvalidMessageSignature
  | ReplyToMismatch u8 u8

section \<open>Nonce cache\<close>

type_synonym nonce_cache = "(uuid \<times> instant) list"

definition check_and_insert :: "instant \<Rightarrow> uuid \<Rightarrow> nonce_cache \<Rightarrow> nonce_cache \<times> bool" where
  "check_and_insert now nonce cache =
     (let expiry = now + NONCE_CACHE_TTL;
          cache1 = (if MAX_NONCE_CACHE_SIZE \<le> length cache
                    then filter (\<lambda>(_, exp). now < exp) cache else cache)
      in case map_of cache1 nonce of
           Some exp \<Rightarrow>
             if now < exp then (cache1, False) else (AList.update nonce expiry cache1, True)
         | None \<Rightarrow> (AList.update nonce expiry cache1, True))"

section \<open>Signatures and timestamps\<close>

definition validate_hmac_signature ::
  "(u8 list \<Rightarrow> u8 list \<Rightarrow> u8 list) \<Rightarrow> u8 list \<Rightarrow> u8 list \<Rightarrow> u8 list \<Rightarrow> bool" where
  "validate_hmac_signature hmac message_bytes signature shared_secret \<longleftrightarrow>
     take 32 signature = hmac shared_secret message_bytes"

definition sign_message ::
  "(u8 list \<Rightarrow> u8 list \<Rightarrow> u8 list) \<Rightarrow> u8 list \<Rightarrow> u8 list \<Rightarrow> u8 list" where
  "sign_message hmac message_bytes shared_secret = hmac shared_secret message_bytes @ replicate 32 0"

definition derive_key :: "(u8 list \<Rightarrow> u8 list \<Rightarrow> u8 list) \<Rightarrow> u8 list \<Rightarrow> u8 \<Rightarrow> u8 list" where
  "derive_key hmac master_secret subsystem_id = hmac master_secret [subsystem_id]"

definition derived_shared_secret ::
  "(u8 list \<Rightarrow> u8 list \<Rightarrow> u8 list) \<Rightarrow> u8 list \<Rightarrow> u8 \<Rightarrow> u8 list option" where
  "derived_shared_secret hmac master_secret sid = Some (derive_key hmac master_secret sid)"

text \<open>\<open>None\<close>: overflow panic; \<open>Some None\<close>: accepted; \<open>Some (Some e)\<close>: rejected with \<open>e\<close>.\<close>

definition validate_timestamp :: "u64 \<Rightarrow> u64 \<Rightarrow> verification_result option option" where
  "validate_timestamp now ts =
     (case checked_add ts MAX_AGE of
        None \<Rightarrow> None
      | Some limit \<Rightarrow>
          if limit < now then Some (Some (TimestampOutOfRange ts now))
          else
            (case checked_add now MAX_FUTURE_SKEW of
               None \<Rightarrow> None
             | Some horizon \<Rightarrow>
                 if horizon < ts then Some (Some (TimestampOutOfRange ts now)) else Some None))"


section \<open>Message verifier\<close>

definition verify ::
  "(u8 list \<Rightarrow> u8 list \<Rightarrow> u8 list) \<Rightarrow> (u8 \<Rightarrow> u8 list option) \<Rightarrow> u64 \<Rightarrow> instant \<Rightarrow>
   'a authenticated_message \<Rightarrow> u8 list \<Rightarrow> nonce_cache \<Rightarrow> nonce_cache \<times> verification_result option" where
  "verify hmac keys now inst m bytes cache =
     (if version m \<noteq> CURRENT_VERSION then (cache, Some (UnsupportedVersion (version m) CURRENT_VERSION))
      else
        (case validate_timestamp now (msg_timestamp m) of
           None \<Rightarrow> (cache, None)
         | Some (Some e) \<Rightarrow> (cache, Some e)
         | Some None \<Rightarrow>
             (case check_and_insert inst (msg_nonce m) cache of
                (cache', False) \<Rightarrow> (cache', Some (ReplayDetectedNonce (msg_nonce m)))
              | (cache', True) \<Rightarrow>
                  (case keys (sender_id m) of
                     None \<Rightarrow> (cache', Some InvalidMessageSignature)
                   | Some secret \<Rightarrow>
                       if \<not> validate_hmac_signature hmac bytes (msg_signature m) secret
                       then (cache', Some InvalidMessageSignature)
                       else
                         (case reply_to_field m of
                            None \<Rightarrow> (cache', Some Valid)
                          | Some r \<Rightarrow>
                              if reply_subsystem_id r \<noteq> sender_id m
                              then (cache', Some (ReplyToMismatch (reply_subsystem_id r) (sender_id m)))
                              else (cache', Some Valid))))))"

section \<open>Authorisation matrix\<close>

definition authorization_rules :: "((u8 \<times> u8 \<times> string) \<times> bool) list" where
  "authorization_rules =
     [((8, 2, ''BlockValidated''), True),
      ((3, 2, ''MerkleRootComputed''), True),
      ((4, 2, ''StateRootComputed''), True),
      ((9, 2, ''MarkFinalized''), True),
      ((8, 3, ''BlockValidated''), True),
      ((2, 3, ''BlockStored''), True),
      ((8, 4, ''BlockValidated''), True),
      ((11, 4, ''ContractExecuted''), True),
      ((1, 6, ''PeerTransaction''), True),
      ((2, 6, ''BlockStorageConfirmation''), True),
      ((10, 6, ''SignatureVerified''), True),
      ((6, 8, ''TransactionBatch''), True),
      ((9, 8, ''FinalityVote''), True),
      ((8, 9, ''BlockProposed''), True),
      ((2, 9, ''BlockStored''), True),
      ((6, 10, ''VerifyTransaction''), True),
      ((1, 10, ''VerifyPeerSignature''), True),
      ((8, 1, ''RequestPeers''), True),
      ((5, 1, ''PropagationStatus''), True)]"

definition is_authorized :: "u8 \<Rightarrow> u8 \<Rightarrow> string \<Rightarrow> bool" where
  "is_authorized sender recipient message_type =
     (case map_of authorization_rules (sender, recipient, message_type) of
        Some authorized \<Rightarrow> authorized
      | None \<Rightarrow> False)"

section \<open>Time-bounded nonce cache of the event bus\<close>

record time_bounded_nonce_cache =
  tb_cache :: "(uuid \<times> u64) list"
  validity_window_secs :: u64
  last_gc :: u64
  gc_interval_secs :: u64

datatype nonce_error =
    NonceReused uuid
  | MessageTooOld u64 u64
  | MessageFromFuture u64 u64

definition new_time_bounded :: "u64 \<Rightarrow> time_bounded_nonce_cache" where
  "new_time_bounded now =
     \<lparr>tb_cache = [], validity_window_secs = 120, last_gc = now, gc_interval_secs = 10\<rparr>"

definition garbage_collect :: "u64 \<Rightarrow> time_bounded_nonce_cache \<Rightarrow> time_bounded_nonce_cache" where
  "garbage_collect now c =
     c\<lparr>tb_cache := filter (\<lambda>(_, ts). saturating_sub now (validity_window_secs c) < ts) (tb_cache c)\<rparr>"

definition validate_and_add :: "u64 \<Rightarrow> uuid \<Rightarrow> u64 \<Rightarrow> time_bounded_nonce_cache \<Rightarrow>
    time_bounded_nonce_cache \<times> (unit, nonce_error) outcome" where
  "validate_and_add now nonce ts c =
     (let min_valid = saturating_sub now MAX_AGE;
          max_valid = saturating_add now MAX_FUTURE_SKEW in
      if ts < min_valid then (c, Err (MessageTooOld ts min_valid))
      else if max_valid < ts then (c, Err (MessageFromFuture ts max_valid))
      else
        (let c1 = (if gc_interval_secs c < saturating_sub now (last_gc c)
                   then (garbage_collect now c)\<lparr>last_gc := now\<rparr> else c) in
         if map_of (tb_cache c1) nonce \<noteq> None then (c1, Err (NonceReused nonce))
         else (c1\<lparr>tb_cache := AList.update nonce ts (tb_cache c1)\<rparr>, Ok ())))"

section \<open>Replay guards\<close>

text \<open>
  The contract of a replay guard: \<open>admit\<close> reports whether a message (its nonce and its
  timestamp) is let through at a clock reading. An admitted nonce is guarded until a
  deadline; guarded nonces are refused and stay guarded; from the deadline on, the
  message is refused because of its timestamp. Times are natural numbers of one clock.
\<close>

fun admit_run :: "('c \<Rightarrow> uuid \<Rightarrow> u64 \<Rightarrow> nat \<Rightarrow> 'c \<times> bool) \<Rightarrow> (uuid \<times> u64 \<times> nat) list \<Rightarrow> 'c \<Rightarrow> 'c" where
  "admit_run admit [] c = c"
| "admit_run admit ((m, ts, t) # evs) c = admit_run admit evs (fst (admit c m ts t))"

definition times_ordered :: "nat \<Rightarrow> (uuid \<times> u64 \<times> nat) list \<Rightarrow> nat \<Rightarrow> bool" where
  "times_ordered t0 evs t1 \<longleftrightarrow> sorted (t0 # map (snd \<circ> snd) evs @ [t1])"

locale replay_guard =
  fixes admit :: "'c \<Rightarrow> uuid \<Rightarrow> u64 \<Rightarrow> nat \<Rightarrow> 'c \<times> bool"
    and guards :: "'c \<Rightarrow> uuid \<Rightarrow> nat \<Rightarrow> bool"
    and deadline :: "u64 \<Rightarrow> nat \<Rightarrow> nat"
    and inv :: "'c \<Rightarrow> bool"
  assumes inv_admit: "inv c \<Longrightarrow> inv (fst (admit c n ts t))"
    and accept: "inv c \<Longrightarrow> snd (admit c n ts t) \<Longrightarrow> guards (fst (admit c n ts t)) n (deadline ts t)"
    and keep: "inv c \<Longrightarrow> guards c n d \<Longrightarrow> t < d \<Longrightarrow> guards (fst (admit c m ts t)) n d"
    and refuse: "inv c \<Longrightarrow> guards c n d \<Longrightarrow> t < d \<Longrightarrow> \<not> snd (admit c n ts t)"
    and expire: "inv c \<Longrightarrow> inv c' \<Longrightarrow> snd (admit c n ts t) \<Longrightarrow> deadline ts t \<le> t' \<Longrightarrow> \<not> snd (admit c' n ts t')"
begin

lemma run_inv: "inv c \<Longrightarrow> inv (admit_run admit evs c)"
  by (induction evs arbitrary: c) (auto simp: inv_admit)

lemma run_guards:
  assumes "inv c" and "guards c n d" and "\<forall>e \<in> set evs. snd (snd e) < d"
  shows "guards (admit_run admit evs c) n d"
  using assms
proof (induction evs arbitrary: c)
  case (Cons e evs)
  obtain m ts t where e: "e = (m, ts, t)" by (cases e)
  have "guards (fst (admit c m ts t)) n d" using Cons.prems e by (auto intro: keep)
  with Cons e show ?case by (auto simp: inv_admit)
qed simp

lemma no_replay:
  assumes c: "inv c" and first: "snd (admit c n ts t0)" and ordered: "times_ordered t0 evs t1"
  shows "\<not> snd (admit (admit_run admit evs (fst (admit c n ts t0))) n ts t1)"
proof (cases "t1 < deadline ts t0")
  case True
  have "\<forall>e \<in> set evs. snd (snd e) < deadline ts t0"
    using ordered True by (auto simp: times_ordered_def sorted_append)
  then have "guards (admit_run admit evs (fst (admit c n ts t0))) n (deadline ts t0)"
    by (intro run_guards accept inv_admit c first)
  with True c show ?thesis by (intro refuse run_inv inv_admit)
next
  case False
  with c first show ?thesis by (intro expire [OF c]) (auto intro: run_inv inv_admit)
qed

end

lemma check_and_insert_inv: "hm_inv c \<Longrightarrow> hm_inv (fst (check_and_insert t n c))"
  by (auto simp: check_and_insert_def Let_def hm.inv_ins hm_filter_inv split: option.splits)

lemma check_and_insert_accept:
  "hm_inv c \<Longrightarrow> snd (check_and_insert t n c) \<Longrightarrow>
     map_of (fst (check_and_insert t n c)) n = Some (t + NONCE_CACHE_TTL)"
  by (auto simp: check_and_insert_def Let_def update_conv' split: option.splits if_splits)

lemma check_and_insert_keep:
  assumes "hm_inv c" and "map_of c n = Some e" and "t < e"
  shows "\<exists>e'. map_of (fst (check_and_insert t m c)) n = Some e' \<and> e \<le> e'" "\<not> snd (check_and_insert t n c)"
  using assms
  by (auto simp: check_and_insert_def Let_def update_conv' hm_filter_lookup split: option.splits)


lemma validate_timestamp_ok_iff:
  "validate_timestamp now ts = Some None \<longleftrightarrow>
     unat ts + 60 < 2 ^ 64 \<and> unat now + 10 < 2 ^ 64 \<and>
     unat now \<le> unat ts + 60 \<and> unat ts \<le> unat now + 10"
  by (auto simp: validate_timestamp_def MAX_AGE_def MAX_FUTURE_SKEW_def checked_add_def
        word_less_nat_alt word_arith_simps split: option.splits if_splits)










lemma validate_timestamp_not_Valid [simp]: "validate_timestamp now ts \<noteq> Some (Some Valid)"
  by (auto simp: validate_timestamp_def split: option.splits)






definition time_bounded_inv :: "time_bounded_nonce_cache \<Rightarrow> bool" where
  "time_bounded_inv c \<longleftrightarrow> hm_inv (tb_cache c) \<and> validity_window_secs c = 120"

text \<open>The bus guard read as a replay guard, for clock readings from two minutes after the epoch on.\<close>

definition bus_admit :: "time_bounded_nonce_cache \<Rightarrow> uuid \<Rightarrow> u64 \<Rightarrow> nat \<Rightarrow> time_bounded_nonce_cache \<times> bool" where
  "bus_admit c n ts t =
     (if 120 \<le> t \<and> t < 2 ^ 64
      then (let (c', r) = validate_and_add (of_nat t) n ts c in (c', is_ok r)) else (c, False))"

definition bus_guarded_until :: "time_bounded_nonce_cache \<Rightarrow> uuid \<Rightarrow> nat \<Rightarrow> bool" where
  "bus_guarded_until c n d \<longleftrightarrow> (\<exists>ts. map_of (tb_cache c) n = Some ts \<and> d \<le> unat ts + 120 \<and> 0 < ts)"

lemma unat_clock: "t < 2 ^ 64 \<Longrightarrow> unat (of_nat t :: u64) = t"
  by (simp add: unat_of_nat)

lemma collected_inv:
  "time_bounded_inv c \<Longrightarrow> time_bounded_inv (garbage_collect now c)"
  by (simp add: time_bounded_inv_def garbage_collect_def hm_filter_inv)

lemma collected_guarded:
  "time_bounded_inv c \<Longrightarrow> bus_guarded_until c n d \<Longrightarrow> unat now < d \<Longrightarrow> bus_guarded_until (garbage_collect now c) n d"
  by (auto simp: time_bounded_inv_def bus_guarded_until_def garbage_collect_def hm_filter_lookup
        word_less_nat_alt unat_saturating_sub)

lemma bus_window:
  assumes "120 \<le> t" and "t < 2 ^ 64" and "is_ok (snd (validate_and_add (of_nat t) n ts c))"
  shows "t \<le> unat ts + 60" and "unat ts \<le> t + 10" and "0 < ts"
  using assms
  by (auto simp: validate_and_add_def Let_def MAX_AGE_def MAX_FUTURE_SKEW_def word_less_nat_alt
        unat_saturating_sub unat_saturating_add unat_clock split: if_splits)

lemma bus_update_guarded:
  "bus_guarded_until c n d \<Longrightarrow> map_of (tb_cache c) m = None \<Longrightarrow>
   bus_guarded_until (c\<lparr>tb_cache := AList.update m ts (tb_cache c)\<rparr>) n d"
  by (auto simp: bus_guarded_until_def update_conv')

lemma bus_guarded_last_gc: "bus_guarded_until (c\<lparr>last_gc := g\<rparr>) n d = bus_guarded_until c n d"
  by (simp add: bus_guarded_until_def)

interpretation bg: replay_guard bus_admit bus_guarded_until "\<lambda>ts _. unat ts + 120" time_bounded_inv
proof
  fix c n ts t d m
  show "time_bounded_inv c \<Longrightarrow> time_bounded_inv (fst (bus_admit c n ts t))"
    using collected_inv [of c "of_nat t"]
    by (auto simp: bus_admit_def validate_and_add_def Let_def time_bounded_inv_def hm.inv_ins garbage_collect_def)
  show "time_bounded_inv c \<Longrightarrow> snd (bus_admit c n ts t) \<Longrightarrow>
      bus_guarded_until (fst (bus_admit c n ts t)) n (unat ts + 120)"
    using bus_window(3) [of t n ts c]
    by (auto simp: bus_admit_def validate_and_add_def Let_def bus_guarded_until_def update_conv' split: if_splits)
  show "time_bounded_inv c \<Longrightarrow> bus_guarded_until c n d \<Longrightarrow> t < d \<Longrightarrow>
      bus_guarded_until (fst (bus_admit c m ts t)) n d"
    using collected_guarded [of c n d "of_nat t"] 
    by (auto simp: bus_admit_def validate_and_add_def Let_def bus_guarded_last_gc unat_clock
         intro: bus_update_guarded [where c = "(garbage_collect (of_nat t) c)\<lparr>last_gc := of_nat t\<rparr>", simplified]
           bus_update_guarded)
  show "time_bounded_inv c \<Longrightarrow> bus_guarded_until c n d \<Longrightarrow> t < d \<Longrightarrow> \<not> snd (bus_admit c n ts t)"
    using collected_guarded [of c n d "of_nat t"] 
    by (auto simp: bus_admit_def validate_and_add_def Let_def bus_guarded_until_def unat_clock split: if_splits)
  fix c' t'
  show "snd (bus_admit c n ts t) \<Longrightarrow> unat ts + 120 \<le> t' \<Longrightarrow> \<not> snd (bus_admit c' n ts t')"
    using bus_window(1) [of t' n ts c'] by (auto simp: bus_admit_def split_beta Let_def)
qed

section \<open>Properties\<close>

definition sample_hmac :: "u8 list \<Rightarrow> u8 list \<Rightarrow> u8 list" where
  "sample_hmac k m = (sum_list k + sum_list m) # replicate 31 0"

definition sample_message :: "nat authenticated_message" where
  "sample_message =
     \<lparr>version = 1, sender_id = 8, recipient_id = 6, correlation_id = 5, reply_to_field = None,
      msg_timestamp = 1000, msg_nonce = 7, msg_signature = sign_message sample_hmac [1, 2, 3] [9, 8],
      payload = 0\<rparr>"

definition forged_message :: "nat authenticated_message" where
  "forged_message = sample_message\<lparr>msg_signature := 1 # replicate 63 0\<rparr>"

lemma sample_verified:
  "snd (verify sample_hmac (\<lambda>_. Some [9, 8]) 1000 t sample_message [1, 2, 3] []) = Some Valid"
  by (simp add: verify_def sample_message_def CURRENT_VERSION_def validate_timestamp_def MAX_AGE_def
    MAX_FUTURE_SKEW_def checked_add_def check_and_insert_def MAX_NONCE_CACHE_SIZE_def
    validate_hmac_signature_def sign_message_def sample_hmac_def)



text \<open>
  What \<open>verify\<close> accepts, exactly: version 1, a timestamp at most 60 s old and at most 10 s
  ahead (without overflow), a nonce not seen in the last 120 s, a known sender whose key gives the
  first 32 bytes of the signature, and a reply address of the sender itself.
\<close>

theorem verify_valid_iff:
  assumes "hm_inv c"
  shows "snd (verify hmac keys now t m bytes c) = Some Valid \<longleftrightarrow>
     version m = CURRENT_VERSION \<and>
     unat (msg_timestamp m) + 60 < 2 ^ 64 \<and> unat now + 10 < 2 ^ 64 \<and>
     unat now \<le> unat (msg_timestamp m) + 60 \<and> unat (msg_timestamp m) \<le> unat now + 10 \<and>
     (case map_of c (msg_nonce m) of None \<Rightarrow> True | Some e \<Rightarrow> e \<le> t) \<and>
     (\<exists>k. keys (sender_id m) = Some k \<and> take 32 (msg_signature m) = hmac k bytes) \<and>
     (case reply_to_field m of None \<Rightarrow> True | Some r \<Rightarrow> reply_subsystem_id r = sender_id m)"
proof -
  have fresh: "snd (check_and_insert t n c) \<longleftrightarrow> (case map_of c n of None \<Rightarrow> True | Some e \<Rightarrow> e \<le> t)" for n
    using assms by (auto simp: check_and_insert_def Let_def hm_filter_lookup split: option.splits)
  have "snd (verify hmac keys now t m bytes c) = Some Valid \<longleftrightarrow>
     version m = CURRENT_VERSION \<and> validate_timestamp now (msg_timestamp m) = Some None \<and>
     snd (check_and_insert t (msg_nonce m) c) \<and>
     (\<exists>k. keys (sender_id m) = Some k \<and> validate_hmac_signature hmac bytes (msg_signature m) k) \<and>
     (case reply_to_field m of None \<Rightarrow> True | Some r \<Rightarrow> reply_subsystem_id r = sender_id m)"
    by (auto simp: verify_def split: option.splits prod.splits bool.splits if_splits)
  then show ?thesis
    by (simp only: fresh validate_timestamp_ok_iff validate_hmac_signature_def conj_assoc)
qed

theorem verify_valid_iff_witness:
  "snd (verify sample_hmac (\<lambda>_. Some [9, 8]) 1060 (1060 * nanos_per_sec) sample_message [1, 2, 3] []) = Some Valid"
  by (subst verify_valid_iff)
     (simp_all add: sample_message_def sign_message_def sample_hmac_def CURRENT_VERSION_def)

text \<open>
  The nonce is recorded before the signature is checked: a forged message that carries a
  nonce makes the verifier refuse the genuine message with that nonce as a replay for two minutes.
\<close>

theorem forged_message_burns_nonce:
  assumes "hm_inv c"
    and "version f = CURRENT_VERSION" and "validate_timestamp now0 (msg_timestamp f) = Some None"
    and "\<And>k. keys (sender_id f) = Some k \<Longrightarrow> \<not> validate_hmac_signature hmac fb (msg_signature f) k"
    and "msg_nonce f = msg_nonce m"
    and "version m = CURRENT_VERSION" and "validate_timestamp now1 (msg_timestamp m) = Some None"
    and "t1 < t0 + NONCE_CACHE_TTL" and "map_of c (msg_nonce f) = None"
  shows "snd (verify hmac keys now0 t0 f fb c) = Some InvalidMessageSignature \<and>
    snd (verify hmac keys now1 t1 m mb (fst (verify hmac keys now0 t0 f fb c)))
           = Some (ReplayDetectedNonce (msg_nonce m))"
proof -
  have admitted: "snd (check_and_insert t0 (msg_nonce f) c)"
    using assms(1, 9) by (simp add: check_and_insert_def Let_def hm_filter_lookup)
  then have "snd (verify hmac keys now0 t0 f fb c) = Some InvalidMessageSignature"
    using assms(2, 3, 4) by (auto simp: verify_def split: option.splits prod.splits bool.splits)
  moreover have "fst (verify hmac keys now0 t0 f fb c) = fst (check_and_insert t0 (msg_nonce f) c)"
    using assms(2, 3, 4) by (auto simp: verify_def split: option.splits prod.splits bool.splits)
  then have "\<not> snd (check_and_insert t1 (msg_nonce m) (fst (verify hmac keys now0 t0 f fb c)))"
    using check_and_insert_keep(2) [OF check_and_insert_inv [OF assms(1)] check_and_insert_accept [OF assms(1) admitted]]
      assms(5, 8) by simp
  then have "snd (verify hmac keys now1 t1 m mb (fst (verify hmac keys now0 t0 f fb c)))
           = Some (ReplayDetectedNonce (msg_nonce m))"
    using assms(6, 7) by (auto simp: verify_def split: prod.splits bool.splits)
  ultimately show ?thesis by blast
qed

theorem forged_message_burns_nonce_witness:
  "snd (verify sample_hmac (\<lambda>_. Some [9, 8]) 1000 5 sample_message [1, 2, 3] []) = Some Valid \<and>
   snd (verify sample_hmac (\<lambda>_. Some [9, 8]) 1000 5 sample_message [1, 2, 3]
     (fst (verify sample_hmac (\<lambda>_. Some [9, 8]) 1000 4 forged_message [1, 2, 3] [])))
     = Some (ReplayDetectedNonce 7)"
proof
  show "snd (verify sample_hmac (\<lambda>_. Some [9, 8]) 1000 5 sample_message [1, 2, 3] []) = Some Valid"
    by (rule sample_verified)
  have "snd (verify sample_hmac (\<lambda>_. Some [9, 8]) 1000 5 sample_message [1, 2, 3]
     (fst (verify sample_hmac (\<lambda>_. Some [9, 8]) 1000 4 forged_message [1, 2, 3] [])))
     = Some (ReplayDetectedNonce (msg_nonce sample_message))"
    by (rule forged_message_burns_nonce [THEN conjunct2])
       (simp_all add: forged_message_def sample_message_def CURRENT_VERSION_def validate_timestamp_ok_iff
         validate_hmac_signature_def sample_hmac_def NONCE_CACHE_TTL_def nanos_per_sec_def)
  then show "snd (verify sample_hmac (\<lambda>_. Some [9, 8]) 1000 5 sample_message [1, 2, 3]
     (fst (verify sample_hmac (\<lambda>_. Some [9, 8]) 1000 4 forged_message [1, 2, 3] [])))
     = Some (ReplayDetectedNonce 7)"
    by (simp add: sample_message_def)
qed

text \<open>
  The event bus accepts no nonce twice with the same timestamp: after \<open>validate_and_add\<close> has
  returned \<open>Ok\<close>, a later call with the same nonce and timestamp fails, across garbage collections.
\<close>

theorem bus_no_replay:
  assumes "time_bounded_inv c" and "times_ordered t0 evs t1" and "120 \<le> t0" and "t1 < 2 ^ 64"
    and "snd (validate_and_add (of_nat t0) n ts c) = Ok ()"
    and "fst (validate_and_add (of_nat t0) n ts c) = c0"
  shows "snd (validate_and_add (of_nat t1) n ts
           (fold (\<lambda>(m, s, t) c. fst (validate_and_add (of_nat t) m s c)) evs c0)) \<noteq> Ok ()"
proof -
  have bounds: "120 \<le> t1" "t0 < 2 ^ 64" "\<forall>(m, s, t) \<in> set evs. 120 \<le> t \<and> t < 2 ^ 64"
    using assms(2-4) by (auto simp: times_ordered_def sorted_append)
  have run: "admit_run bus_admit evs c = fold (\<lambda>(m, s, t) c. fst (validate_and_add (of_nat t) m s c)) evs c" for c
    using bounds(3) by (induction evs arbitrary: c) (auto simp: bus_admit_def split_beta Let_def)
  have "\<not> snd (bus_admit (admit_run bus_admit evs (fst (bus_admit c n ts t0))) n ts t1)"
    by (rule bg.no_replay [OF assms(1) _ assms(2)]) (use assms bounds in \<open>simp add: bus_admit_def split_beta Let_def\<close>)
  then show ?thesis
    using bounds assms unfolding run by (auto simp: bus_admit_def split_beta Let_def)
qed

theorem bus_no_replay_witness:
  "snd (validate_and_add (of_nat 1050) 7 1000
     (fold (\<lambda>(m, s, t) c. fst (validate_and_add (of_nat t) m s c)) [(8, 1020, 1020)]
       (fst (validate_and_add (of_nat 1000) 7 1000 (new_time_bounded 990))))) \<noteq> Ok ()"
  by (rule bus_no_replay [of "new_time_bounded 990" 1000])
     (simp_all add: time_bounded_inv_def new_time_bounded_def times_ordered_def validate_and_add_def
       saturating_sub_def saturating_add_def MAX_AGE_def MAX_FUTURE_SKEW_def)

end
