(* ===== verification/MempoolIpc.thy ===== *)
theory MempoolIpc
  imports Mempool IpcSecurity
begin

text \<open>
  The message handlers of the mempool: \<^verbatim>\<open>qc-06-mempool/src/ipc/security.rs\<close>,
  \<^verbatim>\<open>ipc/payloads.rs\<close> and \<^verbatim>\<open>ipc/handler.rs\<close>. Readings of the time source and of the
  monotonic clock are arguments, as are HMAC-SHA256 (\<open>hmac\<close>), the transaction hash
  (\<open>hash_of\<close>) and the text of an error (\<open>error_text\<close>, generated by \<open>thiserror\<close>).
\<close>

section \<open>Authorisation rules\<close>

definition BLOCK_STORAGE :: u8 where "BLOCK_STORAGE = 2"
definition CONSENSUS :: u8 where "CONSENSUS = 8"
definition SIGNATURE_VERIFICATION :: u8 where "SIGNATURE_VERIFICATION = 10"

definition validate_add_transaction :: "u8 \<Rightarrow> (unit, mempool_error) outcome" where
  "validate_add_transaction sender =
     (if sender \<noteq> SIGNATURE_VERIFICATION
      then Err (UnauthorizedSender sender [SIGNATURE_VERIFICATION]) else Ok ())"

definition validate_get_transactions :: "u8 \<Rightarrow> (unit, mempool_error) outcome" where
  "validate_get_transactions sender =
     (if sender \<noteq> CONSENSUS then Err (UnauthorizedSender sender [CONSENSUS]) else Ok ())"

definition validate_remove_transactions :: "u8 \<Rightarrow> (unit, mempool_error) outcome" where
  "validate_remove_transactions sender =
     (if sender \<noteq> CONSENSUS then Err (UnauthorizedSender sender [CONSENSUS]) else Ok ())"

definition validate_storage_confirmation :: "u8 \<Rightarrow> (unit, mempool_error) outcome" where
  "validate_storage_confirmation sender =
     (if sender \<noteq> BLOCK_STORAGE then Err (UnauthorizedSender sender [BLOCK_STORAGE]) else Ok ())"

definition validate_block_rejected :: "u8 \<Rightarrow> (unit, mempool_error) outcome" where
  "validate_block_rejected sender =
     (if sender \<noteq> BLOCK_STORAGE \<and> sender \<noteq> CONSENSUS
      then Err (UnauthorizedSender sender [BLOCK_STORAGE, CONSENSUS]) else Ok ())"

section \<open>Payloads\<close>

record add_transaction_request =
  aq_correlation_id :: uuid
  aq_transaction :: signed_transaction
  aq_signature_verified :: bool

record add_transaction_response =
  ar_correlation_id :: uuid
  ar_accepted :: bool
  ar_tx_hash :: "hash option"
  ar_error :: "string option"

record get_transactions_request =
  gq_correlation_id :: uuid
  gq_max_count :: u32
  gq_max_gas :: u64
  gq_target_block_height :: u64

record get_transactions_response =
  gr_correlation_id :: uuid
  gr_tx_hashes :: "hash list"
  gr_total_gas :: u64

record block_storage_confirmation =
  bc_correlation_id :: uuid
  bc_block_hash :: hash
  bc_block_height :: u64
  bc_included_transactions :: "hash list"
  bc_storage_timestamp :: u64

datatype block_rejection_reason = ConsensusRejected | StorageFailure | RejectTimeout | Reorg

record block_rejected_notification =
  br_correlation_id :: uuid
  br_block_hash :: hash
  br_block_height :: u64
  br_affected_transactions :: "hash list"
  br_rejection_reason :: block_rejection_reason

datatype removal_reason = RemovalInvalid | RemovalExpired

record remove_transactions_request =
  rq_correlation_id :: uuid
  rq_tx_hashes :: "hash list"
  rq_reason :: removal_reason

record remove_transactions_response =
  rr_correlation_id :: uuid
  rr_removed_count :: usize
  rr_removed :: "hash list"

record mempool_status_payload =
  sp_pending_count :: u32
  sp_pending_inclusion_count :: u32
  sp_total_gas :: u64
  sp_memory_bytes :: u64

definition status_payload :: "mempool_status \<Rightarrow> mempool_status_payload" where
  "status_payload s =
     \<lparr>sp_pending_count = of_nat (ms_pending_count s),
      sp_pending_inclusion_count = of_nat (ms_pending_inclusion_count s),
      sp_total_gas = ms_total_gas s, sp_memory_bytes = of_nat (ms_memory_bytes s)\<rparr>"

section \<open>Handler\<close>

record ipc_security_context =
  ctx_sender_id :: u8
  ctx_timestamp :: u64
  ctx_nonce :: uuid
  ctx_signature :: "u8 list"
  ctx_message_bytes :: "u8 list"

record ipc_handler =
  ih_pool :: transaction_pool
  ih_nonce_cache :: nonce_cache
  ih_master_secret :: "u8 list"

definition with_master_secret :: "transaction_pool \<Rightarrow> u8 list \<Rightarrow> ipc_handler" where
  "with_master_secret p secret = \<lparr>ih_pool = p, ih_nonce_cache = [], ih_master_secret = secret\<rparr>"

definition ipc_validate_timestamp :: "u64 \<Rightarrow> u64 \<Rightarrow> (unit, mempool_error) outcome" where
  "ipc_validate_timestamp ts now =
     (case checked_add now MAX_FUTURE_SKEW of
        None \<Rightarrow> Panic
      | Some horizon \<Rightarrow>
          if horizon < ts then Err (TimestampTooFuture ts now)
          else if ts < now \<and> MAX_AGE < now - ts then Err (TimestampTooOld ts now)
          else Ok ())"

definition validate_security :: "(u8 list \<Rightarrow> u8 list \<Rightarrow> u8 list) \<Rightarrow> u64 \<Rightarrow> instant \<Rightarrow>
    ipc_security_context \<Rightarrow> ipc_handler \<Rightarrow> ipc_handler \<times> (unit, mempool_error) outcome" where
  "validate_security hmac now inst ctx h =
     (case ipc_validate_timestamp (ctx_timestamp ctx) now of
        Panic \<Rightarrow> (h, Panic)
      | Err e \<Rightarrow> (h, Err e)
      | Ok _ \<Rightarrow>
          (case derived_shared_secret hmac (ih_master_secret h) (ctx_sender_id ctx) of
             None \<Rightarrow> (h, Err InvalidSignature)
           | Some secret \<Rightarrow>
               if \<not> validate_hmac_signature hmac (ctx_message_bytes ctx) (ctx_signature ctx) secret
               then (h, Err InvalidSignature)
               else
                 (case check_and_insert inst (ctx_nonce ctx) (ih_nonce_cache h) of
                    (cache, fresh) \<Rightarrow>
                      (h\<lparr>ih_nonce_cache := cache\<rparr>,
                       if fresh then Ok () else Err (ReplayDetected (ucast (ctx_nonce ctx)))))))"

text \<open>
  Every handler first checks the sender against its rule and then the message; \<open>guarded\<close> is
  that common prefix, with the rest of the handler as its last argument.
\<close>

definition guarded :: "(unit, mempool_error) outcome \<Rightarrow> (u8 list \<Rightarrow> u8 list \<Rightarrow> u8 list) \<Rightarrow> u64 \<Rightarrow> instant \<Rightarrow>
    ipc_security_context \<Rightarrow> (ipc_handler \<Rightarrow> ipc_handler \<times> ('a, mempool_error) outcome) \<Rightarrow>
    ipc_handler \<Rightarrow> ipc_handler \<times> ('a, mempool_error) outcome" where
  "guarded rule hmac now inst ctx cont h =
     (case rule of
        Panic \<Rightarrow> (h, Panic)
      | Err e \<Rightarrow> (h, Err e)
      | Ok _ \<Rightarrow>
          (case validate_security hmac now inst ctx h of
             (h', Ok _) \<Rightarrow> cont h'
           | (h', Err e) \<Rightarrow> (h', Err e)
           | (h', Panic) \<Rightarrow> (h', Panic)))"

definition handle_add_transaction :: "(u8 list \<Rightarrow> u8 list \<Rightarrow> u8 list) \<Rightarrow> (signed_transaction \<Rightarrow> hash) \<Rightarrow>
    (mempool_error \<Rightarrow> string) \<Rightarrow> u64 \<Rightarrow> instant \<Rightarrow> u64 \<Rightarrow> ipc_security_context \<Rightarrow> add_transaction_request \<Rightarrow>
    ipc_handler \<Rightarrow> ipc_handler \<times> (add_transaction_response, mempool_error) outcome" where
  "handle_add_transaction hmac hash_of error_text now inst now2 ctx req =
     guarded (validate_add_transaction (ctx_sender_id ctx)) hmac now inst ctx
       (\<lambda>h.
          if \<not> aq_signature_verified req then (h, Err SignatureNotVerified)
          else
            (let tx = new_mempool_transaction hash_of (aq_transaction req) now2 in
             case add tx (ih_pool h) of
               (p, Ok _) \<Rightarrow>
                 (h\<lparr>ih_pool := p\<rparr>,
                  Ok \<lparr>ar_correlation_id = aq_correlation_id req, ar_accepted = True,
                      ar_tx_hash = Some (tx_hash tx), ar_error = None\<rparr>)
             | (p, Err e) \<Rightarrow>
                 (h\<lparr>ih_pool := p\<rparr>,
                  Ok \<lparr>ar_correlation_id = aq_correlation_id req, ar_accepted = False,
                      ar_tx_hash = None, ar_error = Some (error_text e)\<rparr>)
             | (p, Panic) \<Rightarrow> (h\<lparr>ih_pool := p\<rparr>, Panic)))"

definition handle_get_transactions :: "(u8 list \<Rightarrow> u8 list \<Rightarrow> u8 list) \<Rightarrow> u64 \<Rightarrow> instant \<Rightarrow> u64 \<Rightarrow>
    ipc_security_context \<Rightarrow> get_transactions_request \<Rightarrow>
    ipc_handler \<Rightarrow> ipc_handler \<times> (get_transactions_response, mempool_error) outcome" where
  "handle_get_transactions hmac now inst now2 ctx req =
     guarded (validate_get_transactions (ctx_sender_id ctx)) hmac now inst ctx
       (\<lambda>h.
          case get_for_block (ih_pool h) (unat (gq_max_count req)) (gq_max_gas req) of
            None \<Rightarrow> (h, Panic)
          | Some txs \<Rightarrow>
              (case sum_gas (map tx_gas_limit txs) of
                 None \<Rightarrow> (h, Panic)
               | Some gas_sum \<Rightarrow>
                   (h\<lparr>ih_pool := fst (propose (map tx_hash txs) (gq_target_block_height req) now2 (ih_pool h))\<rparr>,
                    Ok \<lparr>gr_correlation_id = gq_correlation_id req, gr_tx_hashes = map tx_hash txs,
                        gr_total_gas = gas_sum\<rparr>)))"

definition handle_storage_confirmation :: "(u8 list \<Rightarrow> u8 list \<Rightarrow> u8 list) \<Rightarrow> u64 \<Rightarrow> instant \<Rightarrow>
    ipc_security_context \<Rightarrow> block_storage_confirmation \<Rightarrow>
    ipc_handler \<Rightarrow> ipc_handler \<times> (hash list, mempool_error) outcome" where
  "handle_storage_confirmation hmac now inst ctx conf =
     guarded (validate_storage_confirmation (ctx_sender_id ctx)) hmac now inst ctx
       (\<lambda>h. case confirm (bc_included_transactions conf) (ih_pool h) of
              (p, confirmed) \<Rightarrow> (h\<lparr>ih_pool := p\<rparr>, Ok confirmed))"

definition handle_block_rejected :: "(u8 list \<Rightarrow> u8 list \<Rightarrow> u8 list) \<Rightarrow> u64 \<Rightarrow> instant \<Rightarrow>
    ipc_security_context \<Rightarrow> block_rejected_notification \<Rightarrow>
    ipc_handler \<Rightarrow> ipc_handler \<times> (hash list, mempool_error) outcome" where
  "handle_block_rejected hmac now inst ctx n =
     guarded (validate_block_rejected (ctx_sender_id ctx)) hmac now inst ctx
       (\<lambda>h. case rollback (br_affected_transactions n) (ih_pool h) of
              (p, rolled_back) \<Rightarrow> (h\<lparr>ih_pool := p\<rparr>, Ok rolled_back))"

fun remove_all_txs :: "hash list \<Rightarrow> transaction_pool \<Rightarrow> transaction_pool \<times> hash list" where
  "remove_all_txs [] p = (p, [])"
| "remove_all_txs (h # hs) p =
     (case remove h p of
        (p', r) \<Rightarrow>
          (case remove_all_txs hs p' of
             (q, removed) \<Rightarrow> (q, if is_ok r then h # removed else removed)))"

definition handle_remove_transactions :: "(u8 list \<Rightarrow> u8 list \<Rightarrow> u8 list) \<Rightarrow> u64 \<Rightarrow> instant \<Rightarrow>
    ipc_security_context \<Rightarrow> remove_transactions_request \<Rightarrow>
    ipc_handler \<Rightarrow> ipc_handler \<times> (remove_transactions_response, mempool_error) outcome" where
  "handle_remove_transactions hmac now inst ctx req =
     guarded (validate_remove_transactions (ctx_sender_id ctx)) hmac now inst ctx
       (\<lambda>h. case remove_all_txs (rq_tx_hashes req) (ih_pool h) of
              (p, removed) \<Rightarrow>
                (h\<lparr>ih_pool := p\<rparr>,
                 Ok \<lparr>rr_correlation_id = rq_correlation_id req, rr_removed_count = length removed,
                     rr_removed = removed\<rparr>))"

definition handle_get_status :: "usize \<Rightarrow> u64 \<Rightarrow> uuid \<Rightarrow> ipc_handler \<Rightarrow> (uuid \<times> mempool_status_payload) option" where
  "handle_get_status tx_bytes now corr h =
     (case status tx_bytes (ih_pool h) now of
        None \<Rightarrow> None
      | Some s \<Rightarrow> Some (corr, status_payload s))"

definition ipc_cleanup_timeouts :: "u64 \<Rightarrow> ipc_handler \<Rightarrow> ipc_handler \<times> hash list" where
  "ipc_cleanup_timeouts now h =
     (case cleanup_timeouts now (ih_pool h) of (p, hs) \<Rightarrow> (h\<lparr>ih_pool := p\<rparr>, hs))"

section \<open>Requests as one type\<close>

datatype ipc_request =
    AddTransaction add_transaction_request
  | GetTransactions get_transactions_request
  | StorageConfirmation block_storage_confirmation
  | BlockRejected block_rejected_notification
  | RemoveTransactions remove_transactions_request

fun ipc_dispatch :: "(u8 list \<Rightarrow> u8 list \<Rightarrow> u8 list) \<Rightarrow> (signed_transaction \<Rightarrow> hash) \<Rightarrow> (mempool_error \<Rightarrow> string) \<Rightarrow>
    u64 \<Rightarrow> instant \<Rightarrow> u64 \<Rightarrow> ipc_security_context \<Rightarrow> ipc_request \<Rightarrow> ipc_handler \<Rightarrow> ipc_handler" where
  "ipc_dispatch hmac hash_of et now inst now2 ctx (AddTransaction r) h =
     fst (handle_add_transaction hmac hash_of et now inst now2 ctx r h)"
| "ipc_dispatch hmac hash_of et now inst now2 ctx (GetTransactions r) h =
     fst (handle_get_transactions hmac now inst now2 ctx r h)"
| "ipc_dispatch hmac hash_of et now inst now2 ctx (StorageConfirmation r) h =
     fst (handle_storage_confirmation hmac now inst ctx r h)"
| "ipc_dispatch hmac hash_of et now inst now2 ctx (BlockRejected r) h =
     fst (handle_block_rejected hmac now inst ctx r h)"
| "ipc_dispatch hmac hash_of et now inst now2 ctx (RemoveTransactions r) h =
     fst (handle_remove_transactions hmac now inst ctx r h)"

fun allowed_senders :: "ipc_request \<Rightarrow> u8 list" where
  "allowed_senders (AddTransaction _) = [10]"
| "allowed_senders (GetTransactions _) = [8]"
| "allowed_senders (StorageConfirmation _) = [2]"
| "allowed_senders (BlockRejected _) = [2, 8]"
| "allowed_senders (RemoveTransactions _) = [8]"

definition authentic :: "(u8 list \<Rightarrow> u8 list \<Rightarrow> u8 list) \<Rightarrow> u64 \<Rightarrow> instant \<Rightarrow> ipc_security_context \<Rightarrow> ipc_handler \<Rightarrow> bool" where
  "authentic hmac now inst ctx h \<longleftrightarrow>
     unat (ctx_timestamp ctx) \<le> unat now + 10 \<and> unat now \<le> unat (ctx_timestamp ctx) + 60 \<and>
     take 32 (ctx_signature ctx) = hmac (hmac (ih_master_secret h) [ctx_sender_id ctx]) (ctx_message_bytes ctx) \<and>
     (case map_of (ih_nonce_cache h) (ctx_nonce ctx) of None \<Rightarrow> True | Some e \<Rightarrow> e \<le> inst)"

lemmas rule_defs = validate_add_transaction_def validate_get_transactions_def validate_remove_transactions_def
  validate_storage_confirmation_def validate_block_rejected_def
  SIGNATURE_VERIFICATION_def CONSENSUS_def BLOCK_STORAGE_def

lemmas handler_defs = handle_add_transaction_def handle_get_transactions_def handle_storage_confirmation_def
  handle_block_rejected_def handle_remove_transactions_def

lemma check_and_insert_fresh:
  "hm_inv c \<Longrightarrow> snd (check_and_insert t n c) \<longleftrightarrow> (case map_of c n of None \<Rightarrow> True | Some e \<Rightarrow> e \<le> t)"
  by (auto simp: check_and_insert_def Let_def hm_filter_lookup split: option.splits)

lemma ipc_timestamp_ok:
  "ipc_validate_timestamp ts now = Ok u \<Longrightarrow> unat ts \<le> unat now + 10 \<and> unat now \<le> unat ts + 60"
  by (auto simp: ipc_validate_timestamp_def checked_add_def MAX_AGE_def MAX_FUTURE_SKEW_def word_less_nat_alt
      word_arith_simps unat_sub_if' split: option.splits if_splits)

lemma validate_security_frame:
  "ih_pool (fst (validate_security hmac now inst ctx h)) = ih_pool h \<and>
   ih_master_secret (fst (validate_security hmac now inst ctx h)) = ih_master_secret h"
  by (auto simp: validate_security_def split: outcome.splits option.splits prod.splits)

lemma validate_security_cache:
  "hm_inv (ih_nonce_cache h) \<Longrightarrow> hm_inv (ih_nonce_cache (fst (validate_security hmac now inst ctx h)))"
  using check_and_insert_inv [of "ih_nonce_cache h" inst "ctx_nonce ctx"]
  by (auto simp: validate_security_def split: outcome.splits option.splits prod.splits)

lemma validate_security_ok:
  assumes "hm_inv (ih_nonce_cache h)" and "validate_security hmac now inst ctx h = (h', Ok u)"
  shows "authentic hmac now inst ctx h \<and>
    map_of (ih_nonce_cache h') (ctx_nonce ctx) = Some (inst + NONCE_CACHE_TTL)"
  using assms check_and_insert_fresh [OF assms(1), of inst "ctx_nonce ctx"]
    check_and_insert_accept [OF assms(1), of inst "ctx_nonce ctx"]
  by (auto simp: validate_security_def authentic_def derived_shared_secret_def derive_key_def
      validate_hmac_signature_def dest!: ipc_timestamp_ok split: outcome.splits prod.splits if_splits)

text \<open>The three ways through the common prefix of the handlers.\<close>

lemma guarded_cases:
  obtains (refused) e where "rule = Err e" "fst (guarded rule hmac now inst ctx cont h) = h"
  | (rejected) "fst (guarded rule hmac now inst ctx cont h) = fst (validate_security hmac now inst ctx h)"
  | (panics) "fst (guarded rule hmac now inst ctx cont h) = h"
  | (passed) h' u v where "rule = Ok u" "validate_security hmac now inst ctx h = (h', Ok v)"
      "guarded rule hmac now inst ctx cont h = cont h'"
proof (cases rule)
  case (Ok u)
  then show ?thesis
    using rejected passed
    by (cases "validate_security hmac now inst ctx h"; cases "snd (validate_security hmac now inst ctx h)")
       (auto simp: guarded_def)
qed (auto simp: guarded_def intro: refused panics)

lemma guarded_authentic:
  assumes "hm_inv (ih_nonce_cache h)"
    and changed: "ih_pool (fst (guarded rule hmac now inst ctx cont h)) \<noteq> ih_pool h"
    and cont: "\<And>h'. ih_nonce_cache (fst (cont h')) = ih_nonce_cache h'"
    and allow: "\<And>u. rule = Ok u \<Longrightarrow> s \<in> set senders"
  shows "s \<in> set senders \<and> authentic hmac now inst ctx h \<and>
    map_of (ih_nonce_cache (fst (guarded rule hmac now inst ctx cont h))) (ctx_nonce ctx)
      = Some (inst + NONCE_CACHE_TTL)"
  using changed validate_security_ok [OF assms(1), of hmac now inst ctx]
    validate_security_frame [of hmac now inst ctx h] cont allow
  by (cases rule: guarded_cases [of rule hmac now inst ctx cont h]; auto)

lemma dispatch_authentic:
  assumes "hm_inv (ih_nonce_cache h)"
    and "ih_pool (ipc_dispatch hmac hash_of et now inst now2 ctx req h) \<noteq> ih_pool h"
  shows "ctx_sender_id ctx \<in> set (allowed_senders req) \<and> authentic hmac now inst ctx h \<and>
    map_of (ih_nonce_cache (ipc_dispatch hmac hash_of et now inst now2 ctx req h)) (ctx_nonce ctx)
      = Some (inst + NONCE_CACHE_TTL)"
  using assms
  by (cases req; simp only: ipc_dispatch.simps handler_defs allowed_senders.simps)
     (erule (1) guarded_authentic;
      force simp: rule_defs Let_def split: prod.splits outcome.splits option.splits if_splits)+

section \<open>Reachable handlers\<close>

inductive ipc_reachable :: "(u8 list \<Rightarrow> u8 list \<Rightarrow> u8 list) \<Rightarrow> (signed_transaction \<Rightarrow> hash) \<Rightarrow>
    (mempool_error \<Rightarrow> string) \<Rightarrow> mempool_config \<Rightarrow> ipc_handler \<Rightarrow> bool" for hmac hash_of et cfg where
  ipc_start: "ipc_reachable hmac hash_of et cfg (with_master_secret (new_pool cfg) secret)"
| ipc_message: "ipc_reachable hmac hash_of et cfg h \<Longrightarrow>
    ipc_reachable hmac hash_of et cfg (ipc_dispatch hmac hash_of et now inst now2 ctx req h)"
| ipc_tick: "ipc_reachable hmac hash_of et cfg h \<Longrightarrow>
    ipc_reachable hmac hash_of et cfg (fst (ipc_cleanup_timeouts now h))"

definition ipc_inv :: "mempool_config \<Rightarrow> ipc_handler \<Rightarrow> bool" where
  "ipc_inv cfg h \<longleftrightarrow> reachable_pool cfg (ih_pool h) \<and> hm_inv (ih_nonce_cache h)"

lemma remove_all_reachable: "reachable_pool cfg p \<Longrightarrow> reachable_pool cfg (fst (remove_all_txs hs p))"
proof (induction hs arbitrary: p)
  case (Cons h hs)
  have "reachable_pool cfg (fst (remove h p))" using Cons.prems step_remove by (rule reachable_pool.step)
  with Cons.IH show ?case by (auto simp: split_beta)
qed simp

lemma guarded_inv:
  assumes "ipc_inv cfg h" and "\<And>h'. ipc_inv cfg h' \<Longrightarrow> ipc_inv cfg (fst (cont h'))"
  shows "ipc_inv cfg (fst (guarded rule hmac now inst ctx cont h))"
proof -
  have "ipc_inv cfg (fst (validate_security hmac now inst ctx h))"
    using assms(1) validate_security_frame [of hmac now inst ctx h] validate_security_cache [of h hmac now inst ctx]
    by (simp add: ipc_inv_def)
  with assms show ?thesis
    by (cases rule: guarded_cases [of rule hmac now inst ctx cont h]) auto
qed

lemma pool_step_ipc_inv:
  "ipc_inv cfg h \<Longrightarrow> pool_step (ih_pool h) q \<Longrightarrow> ipc_inv cfg (h\<lparr>ih_pool := q\<rparr>)"
  by (auto simp: ipc_inv_def intro: reachable_pool.step)

lemma pool_steps_fst:
  "add tx p = (q, r) \<Longrightarrow> pool_step p q"
  "confirm hs p = (q, c) \<Longrightarrow> pool_step p q"
  "rollback hs p = (q, c) \<Longrightarrow> pool_step p q"
  "cleanup_timeouts now p = (q, c) \<Longrightarrow> pool_step p q"
  using step_add [of p tx] step_confirm [of p hs] step_rollback [of p hs] step_cleanup [of p now] by simp_all

lemma dispatch_inv: "ipc_inv cfg h \<Longrightarrow> ipc_inv cfg (ipc_dispatch hmac hash_of et now inst now2 ctx req h)"
proof (cases req)
  case (AddTransaction r)
  then show "ipc_inv cfg h \<Longrightarrow> ?thesis"
    by (auto simp: handle_add_transaction_def Let_def intro!: guarded_inv
        dest!: pool_steps_fst(1) intro: pool_step_ipc_inv split: prod.splits outcome.splits)
next
  case (GetTransactions r)
  then show "ipc_inv cfg h \<Longrightarrow> ?thesis"
    by (auto simp: handle_get_transactions_def intro!: guarded_inv
        pool_step_ipc_inv step_propose split: option.splits)
next
  case (RemoveTransactions r)
  have "ipc_inv cfg h' \<Longrightarrow> remove_all_txs hs (ih_pool h') = (p, rs) \<Longrightarrow> ipc_inv cfg (h'\<lparr>ih_pool := p\<rparr>)" for h' hs p rs
    using remove_all_reachable [of cfg "ih_pool h'" hs] by (simp add: ipc_inv_def)
  with RemoveTransactions show "ipc_inv cfg h \<Longrightarrow> ?thesis"
    by (auto simp: handle_remove_transactions_def intro!: guarded_inv split: prod.splits)
qed (auto simp: handle_storage_confirmation_def handle_block_rejected_def intro!: guarded_inv
      pool_step_ipc_inv dest!: pool_steps_fst(2, 3) split: prod.splits)

lemma reachable_ipc_inv: "ipc_reachable hmac hash_of et cfg h \<Longrightarrow> ipc_inv cfg h"
proof (induction rule: ipc_reachable.induct)
  case (ipc_start secret)
  then show ?case by (simp add: ipc_inv_def with_master_secret_def reachable_pool.start)
next
  case (ipc_message h now inst now2 ctx req)
  then show ?case by (simp add: dispatch_inv)
next
  case (ipc_tick h now)
  then show ?case
    by (auto simp: ipc_cleanup_timeouts_def split: prod.splits intro: pool_step_ipc_inv pool_steps_fst)
qed

section \<open>Properties\<close>

text \<open>
  C6. Only authentic messages change the mempool. In every reachable handler, if a request
  changes the pool then its sender is one the rule for that request names, its timestamp is at most
  10 units ahead of and 60 behind the clock, the signature is the HMAC of the message under the
  sender's derived key, the nonce was not in use, and the nonce is now blocked for two minutes.
\<close>

theorem pool_changes_are_authentic:
  assumes "ipc_reachable hmac hash_of et cfg h"
    and "ih_pool (ipc_dispatch hmac hash_of et now inst now2 ctx req h) \<noteq> ih_pool h"
  shows "ctx_sender_id ctx \<in> set (allowed_senders req) \<and>
    unat (ctx_timestamp ctx) \<le> unat now + 10 \<and> unat now \<le> unat (ctx_timestamp ctx) + 60 \<and>
    take 32 (ctx_signature ctx) = hmac (hmac (ih_master_secret h) [ctx_sender_id ctx]) (ctx_message_bytes ctx) \<and>
    (case map_of (ih_nonce_cache h) (ctx_nonce ctx) of None \<Rightarrow> True | Some e \<Rightarrow> e \<le> inst) \<and>
    map_of (ih_nonce_cache (ipc_dispatch hmac hash_of et now inst now2 ctx req h)) (ctx_nonce ctx)
      = Some (inst + NONCE_CACHE_TTL)"
proof -
  have "hm_inv (ih_nonce_cache h)" using reachable_ipc_inv [OF assms(1)] by (simp add: ipc_inv_def)
  from dispatch_authentic [OF this assms(2)] show ?thesis by (simp add: authentic_def)
qed

definition sample_tx :: signed_transaction where
  "sample_tx = \<lparr>st_from = 7, st_to = None, st_value = 0, st_nonce = 0, st_gas_price = 2000000000,
     st_gas_limit = 21000, st_data = [], st_signature = []\<rparr>"

definition sample_handler :: ipc_handler where
  "sample_handler = with_master_secret (new_pool default_config) [9, 8]"

definition sample_context :: "u8 \<Rightarrow> uuid \<Rightarrow> ipc_security_context" where
  "sample_context s n = \<lparr>ctx_sender_id = s, ctx_timestamp = 1000, ctx_nonce = n,
     ctx_signature = sign_message sample_hmac [1, 2] (derive_key sample_hmac [9, 8] s), ctx_message_bytes = [1, 2]\<rparr>"

definition sample_add :: ipc_request where
  "sample_add = AddTransaction \<lparr>aq_correlation_id = 1, aq_transaction = sample_tx, aq_signature_verified = True\<rparr>"

definition sample_handler2 :: ipc_handler where
  "sample_handler2 = ipc_dispatch sample_hmac (\<lambda>_. 11) (\<lambda>_. []) 1000 5 1000 (sample_context 10 7) sample_add sample_handler"

lemma sample_context_sender [simp]: "ctx_sender_id (sample_context s n) = s"
  by (simp add: sample_context_def)

lemma sample_security:
  "hm_inv (ih_nonce_cache h) \<Longrightarrow> ih_master_secret h = [9, 8] \<Longrightarrow> map_of (ih_nonce_cache h) n = None \<Longrightarrow>
   snd (validate_security sample_hmac 1000 t (sample_context s n) h) = Ok ()"
  using check_and_insert_fresh [of "ih_nonce_cache h" t n]
  by (auto simp: validate_security_def sample_context_def ipc_validate_timestamp_def checked_add_def
      MAX_FUTURE_SKEW_def MAX_AGE_def derived_shared_secret_def validate_hmac_signature_def sign_message_def
      sample_hmac_def split: prod.splits)

lemma guarded_ok:
  "rule = Ok u \<Longrightarrow> snd (validate_security hmac now inst ctx h) = Ok v \<Longrightarrow>
   guarded rule hmac now inst ctx cont h = cont (fst (validate_security hmac now inst ctx h))"
  by (auto simp: guarded_def split: prod.splits)

lemma sample_cache:
  assumes "hm_inv (ih_nonce_cache h)" and "n \<noteq> m" and "map_of (ih_nonce_cache h) m = None"
  shows "map_of (ih_nonce_cache (fst (validate_security hmac now t (sample_context s n) h))) m = None"
  using assms
  by (auto simp: validate_security_def sample_context_def check_and_insert_def Let_def hm_filter_lookup update_conv'
    split: outcome.splits option.splits prod.splits if_splits)

definition sample_pool :: transaction_pool where
  "sample_pool = fst (add (new_mempool_transaction (\<lambda>_. 11) sample_tx 1000) (new_pool default_config))"

lemma sample_handler2_eq:
  "ih_pool sample_handler2 = sample_pool" "ih_master_secret sample_handler2 = [9, 8]"
  "n \<noteq> 7 \<Longrightarrow> map_of (ih_nonce_cache sample_handler2) n = None"
proof -
  let ?v = "validate_security sample_hmac 1000 5 (sample_context 10 7) sample_handler"
  have frame: "ih_pool sample_handler = new_pool default_config" "ih_nonce_cache sample_handler = []"
    "ih_master_secret sample_handler = [9, 8]"
    by (simp_all add: sample_handler_def with_master_secret_def)
  have "snd ?v = Ok ()"
    by (rule sample_security) (simp_all add: frame)
  then have h2: "sample_handler2 = (fst ?v)\<lparr>ih_pool := sample_pool\<rparr>"
    using validate_security_frame [of sample_hmac 1000 5 "sample_context 10 7" sample_handler]
    by (auto simp: sample_handler2_def sample_add_def handle_add_transaction_def guarded_ok rule_defs frame
        sample_pool_def Let_def sample_context_def split: prod.splits outcome.splits)
  show "ih_pool sample_handler2 = sample_pool" by (simp add: h2)
  show "ih_master_secret sample_handler2 = [9, 8]" by (simp add: h2 validate_security_frame frame)
  show "n \<noteq> 7 \<Longrightarrow> map_of (ih_nonce_cache sample_handler2) n = None"
    by (simp add: h2 sample_cache frame)
qed

lemma sample_pool_block:
  "get_for_block sample_pool 10 1000000 = Some [new_mempool_transaction (\<lambda>_. 11) sample_tx 1000]"
  by code_simp

lemma sample_handler_reachable:
  "ipc_reachable sample_hmac (\<lambda>_. 11) (\<lambda>_. []) default_config sample_handler"
  "ipc_reachable sample_hmac (\<lambda>_. 11) (\<lambda>_. []) default_config sample_handler2"
  unfolding sample_handler2_def sample_handler_def by (intro ipc_start ipc_message)+

theorem pool_changes_are_authentic_witness:
  "ih_pool sample_handler2 \<noteq> ih_pool sample_handler \<and> map_of (ih_nonce_cache sample_handler2) 7 = Some (5 + NONCE_CACHE_TTL)"
proof -
  have changed: "ih_pool sample_handler2 \<noteq> ih_pool sample_handler"
  proof
    assume "ih_pool sample_handler2 = ih_pool sample_handler"
    then have "sample_pool = new_pool default_config"
      by (simp add: sample_handler2_eq) (simp add: sample_handler_def with_master_secret_def)
    from sample_pool_block [unfolded this] show False by (simp add: get_for_block_def new_pool_def)
  qed
  from pool_changes_are_authentic [OF sample_handler_reachable(1) changed [unfolded sample_handler2_def]] changed show ?thesis
    by (simp add: sample_handler2_def sample_context_def)
qed

text \<open>
  C9. The two phases together: when a block request succeeds, exactly the transactions it returned
  are in flight for the requested height in addition to those that were before, and all others are
  unchanged; a storage confirmation of these transactions then removes exactly them.
\<close>

theorem get_then_confirm:
  assumes "ipc_reachable hmac hash_of et cfg h"
    and "handle_get_transactions hmac now inst now2 ctx req h = (h1, Ok resp)"
    and "handle_storage_confirmation hmac now' inst' ctx' conf h1 = (h2, Ok confirmed)"
    and "bc_included_transactions conf = gr_tx_hashes resp"
  shows "(\<forall>k \<in> set (gr_tx_hashes resp). \<exists>tx. get_tx (ih_pool h) k = Some tx \<and> is_pending tx \<and>
       get_tx (ih_pool h1) k = Some (tx\<lparr>tx_state := PendingInclusion (gq_target_block_height req) now2,
         tx_target_block := Some (gq_target_block_height req)\<rparr>)) \<and>
    (\<forall>k. k \<notin> set (gr_tx_hashes resp) \<longrightarrow> get_tx (ih_pool h1) k = get_tx (ih_pool h) k) \<and>
    (\<forall>k. get_tx (ih_pool h2) k = (if k \<in> set (gr_tx_hashes resp) then None else get_tx (ih_pool h) k))"
proof -
  let ?height = "gq_target_block_height req"
  have wf: "pool_wf (ih_pool h)"
    using reachable_ipc_inv [OF assms(1)] reachable_pool_inv by (auto simp: ipc_inv_def)
  have frame: "ih_pool (fst (validate_security hmac now inst ctx h)) = ih_pool h" for hmac now inst ctx h
    using validate_security_frame by blast
  obtain txs where txs: "get_for_block (ih_pool h) (unat (gq_max_count req)) (gq_max_gas req) = Some txs"
    and h1: "ih_pool h1 = fst (propose (map tx_hash txs) ?height now2 (ih_pool h))"
    and resp: "gr_tx_hashes resp = map tx_hash txs"
    using assms(2) frame [of hmac now inst ctx h]
    by (auto simp: handle_get_transactions_def guarded_def split: outcome.splits prod.splits option.splits)
  have h2: "ih_pool h2 = fst (confirm (gr_tx_hashes resp) (ih_pool h1))"
    using assms(3, 4) frame [of hmac now' inst' ctx' h1]
    by (auto simp: handle_storage_confirmation_def guarded_def split: outcome.splits prod.splits)
  have "\<exists>tx. get_tx (ih_pool h) k = Some tx \<and> is_pending tx \<and>
       get_tx (ih_pool h1) k = Some (proposed_tx ?height now2 tx)" if k: "k \<in> set (gr_tx_hashes resp)" for k
    using get_for_block_stored [OF wf txs] k by (auto simp: resp h1 get_tx_def propose_lookup)
  moreover have "is_pending tx \<Longrightarrow> proposed_tx ?height now2 tx =
      tx\<lparr>tx_state := PendingInclusion ?height now2, tx_target_block := Some ?height\<rparr>" for tx
    by (auto simp: proposed_tx_def tx_propose_def is_pending_inclusion_iff)
  ultimately show ?thesis
    by (fastforce simp: h2 get_tx_def confirm_lookup h1 propose_lookup resp)
qed

theorem get_then_confirm_witness:
  "\<exists>h1 h2 resp confirmed.
     handle_get_transactions sample_hmac 1000 6 1000 (sample_context 8 8)
       \<lparr>gq_correlation_id = 1, gq_max_count = 10, gq_max_gas = 1000000, gq_target_block_height = 5\<rparr>
       sample_handler2 = (h1, Ok resp) \<and> gr_tx_hashes resp = [11] \<and>
     handle_storage_confirmation sample_hmac 1000 7 (sample_context 2 9)
       \<lparr>bc_correlation_id = 2, bc_block_hash = 0, bc_block_height = 5, bc_included_transactions = [11],
        bc_storage_timestamp = 0\<rparr> h1 = (h2, Ok confirmed) \<and> get_tx (ih_pool h2) 11 = None"
proof -
  let ?v = "validate_security sample_hmac 1000 6 (sample_context 8 8) sample_handler2"
  let ?req = "\<lparr>gq_correlation_id = 1, gq_max_count = 10, gq_max_gas = 1000000, gq_target_block_height = 5\<rparr>"
  let ?conf = "\<lparr>bc_correlation_id = 2, bc_block_hash = 0, bc_block_height = 5, bc_included_transactions = [11],
        bc_storage_timestamp = 0\<rparr>"
  have inv: "hm_inv (ih_nonce_cache sample_handler2)"
    using reachable_ipc_inv [OF sample_handler_reachable(2)] by (simp add: ipc_inv_def)
  then have "snd ?v = Ok ()" by (intro sample_security) (simp_all add: sample_handler2_eq)
  then obtain h1 resp where get: "handle_get_transactions sample_hmac 1000 6 1000 (sample_context 8 8) ?req sample_handler2
      = (h1, Ok resp)" and resp: "gr_tx_hashes resp = [11]"
    and h1: "ih_master_secret h1 = [9, 8]" "map_of (ih_nonce_cache h1) 9 = None" "hm_inv (ih_nonce_cache h1)"
    using inv
    by (simp add: handle_get_transactions_def guarded_ok rule_defs validate_security_frame validate_security_cache
      sample_handler2_eq sample_cache sample_pool_block new_mempool_transaction_def sample_tx_def checked_add_def)
  then have "snd (validate_security sample_hmac 1000 7 (sample_context 2 9) h1) = Ok ()" by (intro sample_security)
  then obtain h2 confirmed where conf: "handle_storage_confirmation sample_hmac 1000 7 (sample_context 2 9) ?conf h1
      = (h2, Ok confirmed)"
    by (auto simp: handle_storage_confirmation_def guarded_ok rule_defs split_beta)
  have "get_tx (ih_pool h2) 11 = None"
    using get_then_confirm [OF sample_handler_reachable(2) get conf] resp by simp
  with get resp conf show ?thesis by blast
qed

end
