(* ===== verification/MerkleTree.thy ===== *)
theory MerkleTree
  imports Containers SharedTypes
begin

text \<open>
  The binary Merkle tree of the transaction index:
  \<^verbatim>\<open>qc-03-transaction-indexing/src/domain/entities.rs\<close> (\<open>MerkleTree\<close>, \<open>MerkleProof\<close>, \<open>MultiProof\<close>)
  with the constants of \<^verbatim>\<open>domain/value_objects.rs\<close> and the errors of \<^verbatim>\<open>domain/errors.rs\<close>.

  SHA3-256 is a parameter \<open>sha3\<close> from byte strings to hashes. The tree is an array with
  the root at index 0 and the children of node \<open>i\<close> at \<open>2i+1\<close> and \<open>2i+2\<close>; an access out of
  range is a panic, \<open>None\<close>.
\<close>

section \<open>Data\<close>

definition LEAF_DOMAIN :: u8 where "LEAF_DOMAIN = 0"
definition NODE_DOMAIN :: u8 where "NODE_DOMAIN = 1"
definition SENTINEL_HASH :: hash where "SENTINEL_HASH = 0"
definition PARALLEL_THRESHOLD :: usize where "PARALLEL_THRESHOLD = 1024"

datatype indexing_error =
    TransactionNotFound hash
  | TreeNotCached hash
  | InvalidIndex usize usize
  | EmptyBlock hash
  | SerializationError string
  | StorageError string
  | UnauthorizedSender u8 u8
  | CommunicationError string
  | Timeout string
  | ProofTooDeep usize usize

record merkle_tree =
  mt_nodes :: "hash list"
  mt_transaction_count :: usize
  mt_padded_leaf_count :: usize
  mt_root :: hash

datatype sibling_position = SiblingLeft | SiblingRight

record proof_node =
  pn_hash :: hash
  pn_position :: sibling_position

record merkle_proof =
  mp_leaf_hash :: hash
  mp_tx_index :: usize
  mp_block_height :: u64
  mp_block_hash :: hash
  mp_root :: hash
  mp_path :: "proof_node list"

section \<open>Hashing\<close>

definition hash_leaf :: "(u8 list \<Rightarrow> hash) \<Rightarrow> u8 list \<Rightarrow> hash" where
  "hash_leaf sha3 data = sha3 (LEAF_DOMAIN # data)"

definition hash_pair :: "(u8 list \<Rightarrow> hash) \<Rightarrow> hash \<Rightarrow> hash \<Rightarrow> hash" where
  "hash_pair sha3 left right = sha3 (NODE_DOMAIN # be_bytes 32 left @ be_bytes 32 right)"

section \<open>Construction\<close>

fun next_power_of_two :: "nat \<Rightarrow> nat" where
  "next_power_of_two n = (if n \<le> 1 then 1 else 2 * next_power_of_two ((n + 1) div 2))"

declare next_power_of_two.simps [simp del]

fun place_leaves :: "nat \<Rightarrow> hash list \<Rightarrow> hash list \<Rightarrow> hash list option" where
  "place_leaves start [] nodes = Some nodes"
| "place_leaves start (h # hs) nodes =
     (if start < length nodes then place_leaves (Suc start) hs (nodes[start := h]) else None)"

definition arr_get :: "'a list \<Rightarrow> nat \<Rightarrow> 'a option" where
  "arr_get xs i = (if i < length xs then Some (xs ! i) else None)"

text \<open>\<open>hash_nodes sha3 m nodes\<close> is the loop over \<open>(0..m).rev()\<close>.\<close>

fun hash_nodes :: "(u8 list \<Rightarrow> hash) \<Rightarrow> nat \<Rightarrow> hash list \<Rightarrow> hash list option" where
  "hash_nodes sha3 0 nodes = Some nodes"
| "hash_nodes sha3 (Suc i) nodes =
     (case (arr_get nodes (2 * i + 1), arr_get nodes (2 * i + 2)) of
        (Some l, Some r) \<Rightarrow>
          if i < length nodes then hash_nodes sha3 i (nodes[i := hash_pair sha3 l r]) else None
      | _ \<Rightarrow> None)"

definition resize :: "hash list \<Rightarrow> nat \<Rightarrow> hash list" where
  "resize xs n = take n xs @ replicate (n - length xs) SENTINEL_HASH"

definition merkle_build :: "(u8 list \<Rightarrow> hash) \<Rightarrow> hash list \<Rightarrow> merkle_tree option" where
  "merkle_build sha3 transaction_hashes =
     (let transaction_count = length transaction_hashes in
      if transaction_count = 0
      then Some \<lparr>mt_nodes = [SENTINEL_HASH], mt_transaction_count = 0, mt_padded_leaf_count = 0,
                 mt_root = SENTINEL_HASH\<rparr>
      else
        (let padded = (if transaction_count = 1 then 2 else next_power_of_two transaction_count);
             leaves = resize transaction_hashes padded;
             leaf_start = padded - 1 in
         case place_leaves leaf_start leaves (replicate (2 * padded - 1) SENTINEL_HASH) of
           None \<Rightarrow> None
         | Some nodes0 \<Rightarrow>
             (case hash_nodes sha3 leaf_start nodes0 of
                None \<Rightarrow> None
              | Some nodes \<Rightarrow>
                  (case arr_get nodes 0 of
                     None \<Rightarrow> None
                   | Some root \<Rightarrow>
                       Some \<lparr>mt_nodes = nodes, mt_transaction_count = transaction_count,
                             mt_padded_leaf_count = padded, mt_root = root\<rparr>))))"

subsection \<open>Level by level\<close>

fun hash_level_pairs :: "(u8 list \<Rightarrow> hash) \<Rightarrow> hash list \<Rightarrow> nat \<Rightarrow> nat \<Rightarrow> nat list \<Rightarrow> hash list option" where
  "hash_level_pairs sha3 nodes level_start level_size [] = Some []"
| "hash_level_pairs sha3 nodes level_start level_size (i # is) =
     (let left_child = level_start + level_size + 2 * i in
      case (arr_get nodes left_child, arr_get nodes (left_child + 1)) of
        (Some l, Some r) \<Rightarrow>
          map_option (Cons (hash_pair sha3 l r)) (hash_level_pairs sha3 nodes level_start level_size is)
      | _ \<Rightarrow> None)"

function hash_levels :: "(u8 list \<Rightarrow> hash) \<Rightarrow> nat \<Rightarrow> nat \<Rightarrow> hash list \<Rightarrow> hash list option" where
  "hash_levels sha3 level_start level_size nodes =
     (if level_size = 0 then Some nodes
      else
        (case hash_level_pairs sha3 nodes level_start level_size [0..<level_size] of
           None \<Rightarrow> None
         | Some pairs \<Rightarrow>
             (case place_leaves level_start pairs nodes of
                None \<Rightarrow> None
              | Some nodes' \<Rightarrow>
                  if level_size = 1 then Some nodes'
                  else if level_start < level_size div 2 then None
                  else hash_levels sha3 (level_start - level_size div 2) (level_size div 2) nodes')))"
  by pat_completeness auto
termination
  by (relation "measure (\<lambda>(_, _, level_size, _). level_size)") auto

declare hash_levels.simps [simp del]

definition build_parallel :: "(u8 list \<Rightarrow> hash) \<Rightarrow> hash list \<Rightarrow> merkle_tree option" where
  "build_parallel sha3 transaction_hashes =
     (let transaction_count = length transaction_hashes in
      if transaction_count < PARALLEL_THRESHOLD then merkle_build sha3 transaction_hashes
      else if transaction_count = 0 then merkle_build sha3 transaction_hashes
      else
        (let padded = next_power_of_two transaction_count;
             leaves = resize transaction_hashes padded;
             leaf_start = padded - 1;
             level_size = padded div 2 in
         case place_leaves leaf_start leaves (replicate (2 * padded - 1) SENTINEL_HASH) of
           None \<Rightarrow> None
         | Some nodes0 \<Rightarrow>
             if leaf_start < level_size then None
             else
               (case hash_levels sha3 (leaf_start - level_size) level_size nodes0 of
                  None \<Rightarrow> None
                | Some nodes \<Rightarrow>
                    (case arr_get nodes 0 of
                       None \<Rightarrow> None
                     | Some root \<Rightarrow>
                         Some \<lparr>mt_nodes = nodes, mt_transaction_count = transaction_count,
                               mt_padded_leaf_count = padded, mt_root = root\<rparr>))))"

section \<open>Proofs\<close>

definition sibling_of :: "nat \<Rightarrow> nat" where
  "sibling_of idx = (if idx mod 2 = 0 then idx - 1 else idx + 1)"

function collect_path :: "hash list \<Rightarrow> nat \<Rightarrow> (proof_node list, indexing_error) outcome" where
  "collect_path nodes idx =
     (if idx = 0 then Ok []
      else
        (case arr_get nodes (sibling_of idx) of
           None \<Rightarrow> Err (InvalidIndex (sibling_of idx) (length nodes))
         | Some h \<Rightarrow>
             (case collect_path nodes ((idx - 1) div 2) of
                Ok path \<Rightarrow>
                  Ok (\<lparr>pn_hash = h, pn_position = (if idx mod 2 = 0 then SiblingLeft else SiblingRight)\<rparr> # path)
              | r \<Rightarrow> r)))"
  by pat_completeness auto
termination
  by (relation "measure snd") auto

declare collect_path.simps [simp del]

definition generate_proof ::
  "merkle_tree \<Rightarrow> usize \<Rightarrow> u64 \<Rightarrow> hash \<Rightarrow> (merkle_proof, indexing_error) outcome" where
  "generate_proof t tx_index block_height block_hash =
     (if mt_transaction_count t \<le> tx_index then Err (InvalidIndex tx_index (mt_transaction_count t))
      else if mt_padded_leaf_count t = 0 then Err (EmptyBlock block_hash)
      else
        (case arr_get (mt_nodes t) (mt_padded_leaf_count t - 1 + tx_index) of
           None \<Rightarrow> Err (InvalidIndex tx_index (mt_transaction_count t))
         | Some leaf_hash \<Rightarrow>
             (case collect_path (mt_nodes t) (mt_padded_leaf_count t - 1 + tx_index) of
                Ok path \<Rightarrow>
                  Ok \<lparr>mp_leaf_hash = leaf_hash, mp_tx_index = tx_index, mp_block_height = block_height,
                      mp_block_hash = block_hash, mp_root = mt_root t, mp_path = path\<rparr>
              | Err e \<Rightarrow> Err e
              | Panic \<Rightarrow> Panic)))"

definition fold_proof_node :: "(u8 list \<Rightarrow> hash) \<Rightarrow> proof_node \<Rightarrow> hash \<Rightarrow> hash" where
  "fold_proof_node sha3 node current =
     (case pn_position node of
        SiblingLeft \<Rightarrow> hash_pair sha3 (pn_hash node) current
      | SiblingRight \<Rightarrow> hash_pair sha3 current (pn_hash node))"

definition verify_proof_static :: "(u8 list \<Rightarrow> hash) \<Rightarrow> hash \<Rightarrow> proof_node list \<Rightarrow> hash \<Rightarrow> bool" where
  "verify_proof_static sha3 leaf_hash path expected_root \<longleftrightarrow>
     fold (fold_proof_node sha3) path leaf_hash = expected_root"

definition verify_proof :: "(u8 list \<Rightarrow> hash) \<Rightarrow> merkle_tree \<Rightarrow> merkle_proof \<Rightarrow> bool" where
  "verify_proof sha3 t p = verify_proof_static sha3 (mp_leaf_hash p) (mp_path p) (mt_root t)"

section \<open>Multi-proofs\<close>

record multi_proof =
  mu_leaf_indices :: "usize list"
  mu_leaf_hashes :: "hash list"
  mu_siblings :: "(usize \<times> usize \<times> hash) list"
  mu_root :: hash
  mu_block_height :: u64
  mu_block_hash :: hash

definition multi_verify :: "multi_proof \<Rightarrow> bool" where
  "multi_verify p =
     (if mu_leaf_indices p = [] \<or> mu_leaf_hashes p = [] then False
      else if length (mu_leaf_indices p) \<noteq> length (mu_leaf_hashes p) then False
      else mu_root p \<noteq> 0)"

definition generate_multi_proof ::
  "merkle_tree \<Rightarrow> usize list \<Rightarrow> u64 \<Rightarrow> hash \<Rightarrow> (multi_proof, indexing_error) outcome" where
  "generate_multi_proof t indices block_height block_hash =
     (if indices = [] then Err (EmptyBlock block_hash)
      else
        (case find (\<lambda>idx. mt_transaction_count t \<le> idx) indices of
           Some idx \<Rightarrow> Err (InvalidIndex idx (mt_transaction_count t - 1))
         | None \<Rightarrow>
             (let sorted_indices = remdups_adj (sort indices);
                  leaf_start = mt_padded_leaf_count t - 1 in
              case those (map (\<lambda>idx. arr_get (mt_nodes t) (leaf_start + idx)) sorted_indices) of
                None \<Rightarrow> Panic
              | Some leaf_hashes \<Rightarrow>
                  Ok \<lparr>mu_leaf_indices = sorted_indices, mu_leaf_hashes = leaf_hashes,
                      mu_siblings = map (\<lambda>(idx, h). (0, idx, h)) (zip sorted_indices leaf_hashes),
                      mu_root = mt_root t, mu_block_height = block_height, mu_block_hash = block_hash\<rparr>)))"

definition sort_canonically :: "hash list \<Rightarrow> hash list" where
  "sort_canonically hashes = sort hashes"

section \<open>The tree as a heap\<close>

text \<open>Every inner node is the hash of its children.\<close>

definition heap_ok :: "(u8 list \<Rightarrow> hash) \<Rightarrow> nat \<Rightarrow> hash list \<Rightarrow> bool" where
  "heap_ok sha3 n nodes \<longleftrightarrow> length nodes = 2 * n - 1 \<and>
     (\<forall>i < n - 1. nodes ! i = hash_pair sha3 (nodes ! (2 * i + 1)) (nodes ! (2 * i + 2)))"

lemma next_power_of_two_power: "\<exists>k. next_power_of_two n = 2 ^ k"
proof (induction n rule: next_power_of_two.induct)
  case (1 n)
  show ?case
  proof (cases "n \<le> 1")
    case True
    then show ?thesis by (simp add: next_power_of_two.simps exI [of _ 0])
  next
    case False
    with 1 obtain k where "next_power_of_two ((n + 1) div 2) = 2 ^ k" by auto
    with False have "next_power_of_two n = 2 ^ Suc k" by (simp add: next_power_of_two.simps)
    then show ?thesis by blast
  qed
qed

lemma next_power_of_two_ge: "n \<le> next_power_of_two n"
proof (induction n rule: next_power_of_two.induct)
  case (1 n)
  then show ?case by (cases "n \<le> 1") (simp_all add: next_power_of_two.simps)
qed

lemma next_power_of_two_ge2: "1 < n \<Longrightarrow> 2 \<le> next_power_of_two n"
  using next_power_of_two_ge [of n] by simp

lemma length_resize [simp]: "length xs \<le> n \<Longrightarrow> length (resize xs n) = n"
  by (simp add: resize_def)

lemma nth_resize: "length xs \<le> n \<Longrightarrow> i < n \<Longrightarrow> resize xs n ! i = (if i < length xs then xs ! i else SENTINEL_HASH)"
  by (simp add: resize_def nth_append)

lemma place_leaves_Some:
  "start + length hs \<le> length nodes \<Longrightarrow> place_leaves start hs nodes = Some (take start nodes @ hs @ drop (start + length hs) nodes)"
proof (induction hs arbitrary: start nodes)
  case (Cons h hs)
  then have "start < length nodes" by simp
  then show ?case
    using Cons by (simp add: take_Suc_conv_app_nth take_update_swap [symmetric] list_eq_iff_nth_eq nth_append nth_list_update nth_Cons split: nat.splits)
qed simp

lemma hash_nodes_Some:
  assumes "2 * m < length nodes"
  shows "\<exists>nodes'. hash_nodes sha3 m nodes = Some nodes' \<and> length nodes' = length nodes \<and>
    (\<forall>i < m. nodes' ! i = hash_pair sha3 (nodes' ! (2 * i + 1)) (nodes' ! (2 * i + 2))) \<and>
    (\<forall>i. m \<le> i \<longrightarrow> nodes' ! i = nodes ! i)"
  using assms
proof (induction m arbitrary: nodes)
  case (Suc m)
  let ?ns = "nodes[m := hash_pair sha3 (nodes ! (2 * m + 1)) (nodes ! (2 * m + 2))]"
  from Suc.prems have "2 * m < length ?ns" by simp
  from Suc.IH [OF this] obtain ns' where ns': "hash_nodes sha3 m ?ns = Some ns'" "length ns' = length nodes"
    "\<forall>i < m. ns' ! i = hash_pair sha3 (ns' ! (2 * i + 1)) (ns' ! (2 * i + 2))"
    "\<forall>i. m \<le> i \<longrightarrow> ns' ! i = ?ns ! i" by auto
  then have "ns' ! m = hash_pair sha3 (ns' ! (2 * m + 1)) (ns' ! (2 * m + 2))"
    using Suc.prems by simp
  then have "\<forall>i < Suc m. ns' ! i = hash_pair sha3 (ns' ! (2 * i + 1)) (ns' ! (2 * i + 2))"
    using ns'(3) by (auto simp: less_Suc_eq)
  moreover have "hash_nodes sha3 (Suc m) nodes = Some ns'"
    using ns'(1) Suc.prems by (simp add: arr_get_def)
  moreover have "\<forall>i. Suc m \<le> i \<longrightarrow> ns' ! i = nodes ! i" using ns'(4) by auto
  ultimately show ?case using ns'(2) by blast
qed simp

text \<open>A heap is determined by its leaves.\<close>

lemma heap_unique:
  assumes "heap_ok sha3 n xs" and "heap_ok sha3 n ys" and "\<And>i. n - 1 \<le> i \<Longrightarrow> i < 2 * n - 1 \<Longrightarrow> xs ! i = ys ! i"
  shows "xs = ys"
proof (rule nth_equalityI)
  show "length xs = length ys" using assms by (simp add: heap_ok_def)
  have "i < 2 * n - 1 \<Longrightarrow> xs ! i = ys ! i" for i
  proof (induction "2 * n - i" arbitrary: i rule: less_induct)
    case less
    show ?case
    proof (cases "i < n - 1")
      case True
      then have "xs ! (2 * i + 1) = ys ! (2 * i + 1)" "xs ! (2 * i + 2) = ys ! (2 * i + 2)"
        by (intro less.hyps; simp)+
      with True assms(1, 2) show ?thesis by (simp add: heap_ok_def)
    qed (use less assms(3) in auto)
  qed
  then show "\<And>i. i < length xs \<Longrightarrow> xs ! i = ys ! i" using assms(1) by (simp add: heap_ok_def)
qed

definition padded_count :: "nat \<Rightarrow> nat" where
  "padded_count n = (if n = 1 then 2 else next_power_of_two n)"

text \<open>What \<open>merkle_build\<close> returns.\<close>

definition tree_of :: "(u8 list \<Rightarrow> hash) \<Rightarrow> hash list \<Rightarrow> merkle_tree \<Rightarrow> bool" where
  "tree_of sha3 hs t \<longleftrightarrow>
     mt_transaction_count t = length hs \<and> mt_root t = mt_nodes t ! 0 \<and>
     (if hs = [] then mt_padded_leaf_count t = 0 \<and> mt_nodes t = [SENTINEL_HASH]
      else mt_padded_leaf_count t = padded_count (length hs) \<and>
        heap_ok sha3 (mt_padded_leaf_count t) (mt_nodes t) \<and>
        (\<forall>i < mt_padded_leaf_count t. mt_nodes t ! (mt_padded_leaf_count t - 1 + i) =
            (if i < length hs then hs ! i else SENTINEL_HASH)))"

lemma tree_ofD:
  assumes "tree_of sha3 hs t" and "hs \<noteq> []"
  shows "mt_padded_leaf_count t = padded_count (length hs)" and "heap_ok sha3 (mt_padded_leaf_count t) (mt_nodes t)"
    and "i < mt_padded_leaf_count t \<Longrightarrow> mt_nodes t ! (mt_padded_leaf_count t - 1 + i) = (if i < length hs then hs ! i else SENTINEL_HASH)"
    and "mt_root t = mt_nodes t ! 0"
  using assms unfolding tree_of_def by (auto simp only: if_False)

lemma padded_count_bounds: "0 < n \<Longrightarrow> n \<le> padded_count n \<and> 2 \<le> padded_count n"
  using next_power_of_two_ge [of n] next_power_of_two_ge2 [of n] by (auto simp: padded_count_def)

lemma padded_count_power: "0 < n \<Longrightarrow> \<exists>k. padded_count n = 2 ^ Suc k"
proof -
  assume "0 < n"
  obtain k where k: "next_power_of_two n = 2 ^ k" using next_power_of_two_power by blast
  with padded_count_bounds [OF \<open>0 < n\<close>] show ?thesis
    by (cases k; cases "n = 1") (auto simp: padded_count_def intro: exI [of _ 0])
qed

text \<open>The array after the leaves are placed.\<close>

lemma placed:
  assumes "2 \<le> n" and "length hs \<le> n"
  shows "\<exists>ns. place_leaves (n - 1) (resize hs n) (replicate (2 * n - 1) SENTINEL_HASH) = Some ns \<and> length ns = 2 * n - 1 \<and>
    (\<forall>i < n. ns ! (n - 1 + i) = (if i < length hs then hs ! i else SENTINEL_HASH))"
  using assms by (auto simp: place_leaves_Some nth_append nth_resize)

lemma tree_of_heap:
  assumes "hs \<noteq> []" and n: "n = padded_count (length hs)" and "heap_ok sha3 n ns"
    and "\<forall>i < n. ns ! (n - 1 + i) = (if i < length hs then hs ! i else SENTINEL_HASH)"
  shows "tree_of sha3 hs \<lparr>mt_nodes = ns, mt_transaction_count = length hs, mt_padded_leaf_count = n, mt_root = ns ! 0\<rparr>"
  using assms by (simp add: tree_of_def)

lemma build_tree: "\<exists>t. merkle_build sha3 hs = Some t \<and> tree_of sha3 hs t"
proof (cases "hs = []")
  case True
  then show ?thesis by (simp add: merkle_build_def tree_of_def)
next
  case False
  let ?n = "padded_count (length hs)"
  have b: "2 \<le> ?n" "length hs \<le> ?n" using padded_count_bounds False by auto
  from placed [OF this] obtain ns0 where
    ns0: "place_leaves (?n - 1) (resize hs ?n) (replicate (2 * ?n - 1) SENTINEL_HASH) = Some ns0"
      "length ns0 = 2 * ?n - 1" "\<forall>i < ?n. ns0 ! (?n - 1 + i) = (if i < length hs then hs ! i else SENTINEL_HASH)"
    by blast
  have "2 * (?n - 1) < length ns0" using b ns0(2) by simp
  from hash_nodes_Some [OF this, of sha3] obtain ns where ns: "hash_nodes sha3 (?n - 1) ns0 = Some ns" "length ns = length ns0"
    "\<forall>i < ?n - 1. ns ! i = hash_pair sha3 (ns ! (2 * i + 1)) (ns ! (2 * i + 2))" "\<forall>i. ?n - 1 \<le> i \<longrightarrow> ns ! i = ns0 ! i"
    by blast
  then have "heap_ok sha3 ?n ns" using ns0(2) by (simp add: heap_ok_def)
  then have "tree_of sha3 hs \<lparr>mt_nodes = ns, mt_transaction_count = length hs, mt_padded_leaf_count = ?n, mt_root = ns ! 0\<rparr>"
    using False ns(4) ns0(3) by (intro tree_of_heap) auto
  moreover have "merkle_build sha3 hs = Some \<lparr>mt_nodes = ns, mt_transaction_count = length hs, mt_padded_leaf_count = ?n, mt_root = ns ! 0\<rparr>"
  proof -
    have pc: "padded_count (length hs) = (if length hs = 1 then 2 else next_power_of_two (length hs))" by (simp add: padded_count_def)
    have "0 < length ns" using ns(2) ns0(2) b by simp
    with False ns(1) ns0(1) show ?thesis
      unfolding merkle_build_def Let_def pc [symmetric] by (simp add: arr_get_def)
  qed
  ultimately show ?thesis by blast
qed

lemma tree_of_unique: "tree_of sha3 hs t \<Longrightarrow> tree_of sha3 hs t' \<Longrightarrow> t = t'"
proof -
  assume t: "tree_of sha3 hs t" and t': "tree_of sha3 hs t'"
  have "mt_nodes t = mt_nodes t'"
  proof (cases "hs = []")
    case False
    let ?n = "mt_padded_leaf_count t"
    have n: "mt_padded_leaf_count t' = ?n" using t t' False by (simp add: tree_of_def)
    show ?thesis
    proof (rule heap_unique [of sha3 ?n])
      fix i assume "?n - 1 \<le> i" "i < 2 * ?n - 1"
      then have "i = ?n - 1 + (i - (?n - 1))" and "i - (?n - 1) < ?n" by auto
      then show "mt_nodes t ! i = mt_nodes t' ! i"
        using t t' False n unfolding tree_of_def by metis
    qed (use t t' False n in \<open>auto simp: tree_of_def\<close>)
  qed (use t t' in \<open>simp add: tree_of_def\<close>)
  with t t' show "t = t'" by (cases "hs = []") (simp_all add: tree_of_def)
qed

subsection \<open>The level-wise construction\<close>

lemma hash_level_pairs_Some:
  "\<forall>i \<in> set is. level_start + level_size + 2 * i + 1 < length nodes \<Longrightarrow>
   hash_level_pairs sha3 nodes level_start level_size is =
     Some (map (\<lambda>i. hash_pair sha3 (nodes ! (level_start + level_size + 2 * i))
                      (nodes ! (level_start + level_size + 2 * i + 1))) is)"
  by (induction "is") (simp_all add: arr_get_def Let_def)

lemma hash_levels_Some:
  assumes "4 * 2 ^ k - 1 \<le> length nodes"
  shows "\<exists>nodes'. hash_levels sha3 (2 ^ k - 1) (2 ^ k) nodes = Some nodes' \<and> length nodes' = length nodes \<and>
    (\<forall>i < 2 * 2 ^ k - 1. nodes' ! i = hash_pair sha3 (nodes' ! (2 * i + 1)) (nodes' ! (2 * i + 2))) \<and>
    (\<forall>i \<ge> 2 * 2 ^ k - 1. nodes' ! i = nodes ! i)"
  using assms
proof (induction k arbitrary: nodes)
  case 0
  then have "hash_levels sha3 0 1 nodes = Some (hash_pair sha3 (nodes ! 1) (nodes ! 2) # drop 1 nodes)"
    by (cases nodes; subst hash_levels.simps) (auto simp: arr_get_def numeral_2_eq_2)
  with 0 show ?case by (auto simp: nth_Cons numeral_2_eq_2 split: nat.splits)
next
  case (Suc k)
  define s :: nat where "s = 2 ^ Suc k"
  have s: "2 \<le> s" "s div 2 = 2 ^ k" "2 * (s div 2) = s" by (simp_all add: s_def)
  have len: "4 * s - 1 \<le> length nodes" using Suc.prems by (simp add: s_def)
  define pairs where "pairs = map (\<lambda>i. hash_pair sha3 (nodes ! (s - 1 + s + 2 * i)) (nodes ! (s - 1 + s + 2 * i + 1))) [0..<s]"
  define ns where "ns = take (s - 1) nodes @ pairs @ drop (s - 1 + s) nodes"
  have lp: "length pairs = s" by (simp add: pairs_def)
  have "hash_level_pairs sha3 nodes (s - 1) s [0..<s] = Some pairs"
    unfolding pairs_def using len s(1) by (intro hash_level_pairs_Some) auto
  moreover have "place_leaves (s - 1) pairs nodes = Some ns"
    using len s(1) by (simp add: place_leaves_Some ns_def lp)
  ultimately have "hash_levels sha3 (s - 1) s nodes = hash_levels sha3 (s - 1 - s div 2) (s div 2) ns"
    using s(1) by (subst hash_levels.simps) auto
  then have step: "hash_levels sha3 (s - 1) s nodes = hash_levels sha3 (2 ^ k - 1) (2 ^ k) ns"
    using s by (simp add: s_def)
  have ln: "length ns = length nodes" using len s by (simp add: ns_def lp)
  have nth: "ns ! i = (if i < s - 1 \<or> 2 * s - 1 \<le> i then nodes ! i else pairs ! (i - (s - 1)))" for i
  proof (cases "i < s - 1")
    case False
    then show ?thesis using len s by (cases "2 * s - 1 \<le> i") (auto simp: ns_def nth_append lp)
  qed (use len in \<open>simp add: ns_def nth_append\<close>)
  have "4 * 2 ^ k - 1 \<le> length ns" using len by (simp add: ln s_def)
  from Suc.IH [OF this] obtain ns' where ns': "hash_levels sha3 (2 ^ k - 1) (2 ^ k) ns = Some ns'" "length ns' = length ns"
    "\<forall>i < s - 1. ns' ! i = hash_pair sha3 (ns' ! (2 * i + 1)) (ns' ! (2 * i + 2))" "\<forall>i \<ge> s - 1. ns' ! i = ns ! i"
    by (auto simp: s_def)
  have level: "ns' ! i = hash_pair sha3 (ns' ! (2 * i + 1)) (ns' ! (2 * i + 2))" if "s - 1 \<le> i" "i < 2 * s - 1" for i
  proof -
    have "ns' ! i = pairs ! (i - (s - 1))" using ns'(4) nth that by simp
    also have "\<dots> = hash_pair sha3 (nodes ! (2 * i + 1)) (nodes ! (2 * i + 2))"
    proof -
      have e: "s - 1 + s + 2 * (i - (s - 1)) = 2 * i + 1"
        using that s by simp_all
      have "i - (s - 1) < s" using that s by simp
      then show ?thesis by (simp only: pairs_def length_upt nth_map nth_upt e minus_nat.diff_0 add_0) (simp only: add.assoc one_add_one)
    qed
    finally have "ns' ! i = hash_pair sha3 (nodes ! (2 * i + 1)) (nodes ! (2 * i + 2))" .
    moreover have "ns' ! j = nodes ! j" if "2 * s - 1 \<le> j" for j
      using ns'(4) nth that s(1) by simp
    then have "ns' ! (2 * i + 1) = nodes ! (2 * i + 1)" "ns' ! (2 * i + 2) = nodes ! (2 * i + 2)"
      using that s(1) by simp_all
    ultimately show ?thesis by simp
  qed
  have "\<forall>i < 2 * s - 1. ns' ! i = hash_pair sha3 (ns' ! (2 * i + 1)) (ns' ! (2 * i + 2))"
    using ns'(3) level by (meson not_less)
  moreover have "\<forall>i \<ge> 2 * s - 1. ns' ! i = nodes ! i" using ns'(4) nth by simp
  ultimately show ?case using ns'(1, 2) ln step unfolding s_def by auto
qed

section \<open>Properties of the construction\<close>

text \<open>
  C18. The parallel construction is the serial one: for every list of transaction hashes
  \<open>build_parallel\<close> returns exactly the tree of \<open>build\<close>, and neither panics.
\<close>

theorem build_parallel_eq_build:
  "build_parallel sha3 hs = merkle_build sha3 hs \<and> merkle_build sha3 hs \<noteq> None"
proof (cases "length hs < PARALLEL_THRESHOLD")
  case True
  with build_tree [of sha3 hs] show ?thesis by (auto simp: build_parallel_def)
next
  case False
  then have ne: "hs \<noteq> []" "length hs \<noteq> 1" by (auto simp: PARALLEL_THRESHOLD_def)
  let ?n = "padded_count (length hs)"
  obtain k where k: "?n = 2 ^ Suc k" using padded_count_power ne by auto
  have b: "2 \<le> ?n" "length hs \<le> ?n" using padded_count_bounds ne by auto
  from placed [OF this] obtain ns0 where
    ns0: "place_leaves (?n - 1) (resize hs ?n) (replicate (2 * ?n - 1) SENTINEL_HASH) = Some ns0"
      "length ns0 = 2 * ?n - 1" "\<forall>i < ?n. ns0 ! (?n - 1 + i) = (if i < length hs then hs ! i else SENTINEL_HASH)"
    by blast
  have "4 * 2 ^ k - 1 \<le> length ns0" using ns0(2) k by simp
  from hash_levels_Some [OF this, of sha3] obtain ns where
    ns: "hash_levels sha3 (2 ^ k - 1) (2 ^ k) ns0 = Some ns" "length ns = length ns0"
      "\<forall>i < ?n - 1. ns ! i = hash_pair sha3 (ns ! (2 * i + 1)) (ns ! (2 * i + 2))" "\<forall>i \<ge> ?n - 1. ns ! i = ns0 ! i"
    unfolding k by auto
  let ?t = "\<lparr>mt_nodes = ns, mt_transaction_count = length hs, mt_padded_leaf_count = ?n, mt_root = ns ! 0\<rparr>"
  have "tree_of sha3 hs ?t"
    using ns ns0 ne by (intro tree_of_heap) (auto simp: heap_ok_def)
  moreover have "build_parallel sha3 hs = Some ?t"
  proof -
    have pc: "next_power_of_two (length hs) = ?n" using ne by (simp add: padded_count_def)
    have "0 < length ns" using ns(2) ns0(2) b by simp
    moreover have "?n - 1 - ?n div 2 = 2 ^ k - 1" and "?n div 2 = 2 ^ k" and "\<not> ?n - 1 < ?n div 2"
      using k by auto
    ultimately show ?thesis
      using False ne(1) ns(1) ns0(1) unfolding build_parallel_def Let_def pc by (simp add: arr_get_def)
  qed
  ultimately show ?thesis using build_tree [of sha3 hs] tree_of_unique by auto
qed

lemma heap_child:
  fixes i :: nat
  shows "0 < i \<Longrightarrow> i = 2 * ((i - 1) div 2) + (if i mod 2 = 0 then 2 else 1)"
  by (cases i) (auto, presburger)

lemma collect_path_ok:
  assumes "heap_ok sha3 n nodes" and "2 \<le> n" and "idx < 2 * n - 1"
  shows "\<exists>path. collect_path nodes idx = Ok path \<and> fold (fold_proof_node sha3) path (nodes ! idx) = nodes ! 0"
  using assms(3)
proof (induction idx rule: less_induct)
  case (less idx)
  show ?case
  proof (cases "idx = 0")
    case True
    then show ?thesis by (simp add: collect_path.simps)
  next
    case False
    let ?p = "(idx - 1) div 2"
    have p: "?p < idx" "?p < n - 1" using False less.prems by auto
    then obtain path where path: "collect_path nodes ?p = Ok path" "fold (fold_proof_node sha3) path (nodes ! ?p) = nodes ! 0"
      using less.IH [of ?p] less.prems by auto
    have parent: "nodes ! ?p = hash_pair sha3 (nodes ! (2 * ?p + 1)) (nodes ! (2 * ?p + 2))" and len: "length nodes = 2 * n - 1"
      using assms(1) p(2) by (auto simp: heap_ok_def)
    show ?thesis
    proof (cases "idx mod 2 = 0")
      case True
      then have i: "idx = 2 * ?p + 2" "idx - 1 = 2 * ?p + 1" using heap_child [of idx] False by auto
      have "idx - 1 < 2 * n - 1" using less.prems by simp
      with True False path parent len i show ?thesis
        by (subst collect_path.simps) (simp add: sibling_of_def arr_get_def fold_proof_node_def)
    next
      case odd: False
      then have i: "idx = 2 * ?p + 1" "idx + 1 = 2 * ?p + 2" using heap_child [of idx] False by auto
      have "idx + 1 < 2 * n - 1" using i(2) p(2) by simp
      with odd False path parent len i show ?thesis
        by (subst collect_path.simps) (simp add: sibling_of_def arr_get_def fold_proof_node_def)
    qed
  qed
qed

lemma generate_proof_ok:
  assumes "tree_of sha3 hs t" and "i < length hs"
  shows "\<exists>p. generate_proof t i height bh = Ok p \<and> mp_leaf_hash p = hs ! i \<and> mp_tx_index p = i \<and> mp_root p = mt_root t \<and>
    mp_block_height p = height \<and> mp_block_hash p = bh \<and>
    verify_proof_static sha3 (mp_leaf_hash p) (mp_path p) (mt_root t)"
proof -
  let ?n = "mt_padded_leaf_count t"
  have ne: "hs \<noteq> []" using assms(2) by auto
  have n: "?n = padded_count (length hs)" using assms(1) ne by (simp add: tree_ofD)
  then have b: "2 \<le> ?n" "length hs \<le> ?n" using padded_count_bounds ne by auto
  have h: "heap_ok sha3 ?n (mt_nodes t)" and leaf: "mt_nodes t ! (?n - 1 + i) = hs ! i"
    using assms ne b(2) by (auto simp: tree_of_def)
  have idx: "?n - 1 + i < 2 * ?n - 1" using assms(2) b by simp
  from collect_path_ok [OF h b(1) idx] obtain path where
    path: "collect_path (mt_nodes t) (?n - 1 + i) = Ok path" "fold (fold_proof_node sha3) path (hs ! i) = mt_nodes t ! 0"
    unfolding leaf by blast
  have "length (mt_nodes t) = 2 * ?n - 1" using h by (simp add: heap_ok_def)
  with assms b(1) path leaf idx show ?thesis
    by (auto simp: generate_proof_def arr_get_def verify_proof_static_def tree_of_def)
qed

text \<open>
  C12. Every transaction of a block has a proof, and the proof verifies: for the tree built from
  the hashes and any index below their number, \<open>generate_proof\<close> succeeds, its leaf is the hash at that
  index, and both verifiers accept it against the root of the tree.
\<close>

theorem generated_proof_verifies:
  assumes "merkle_build sha3 hs = Some t" and "i < length hs"
  shows "\<exists>p. generate_proof t i height bh = Ok p \<and> mp_leaf_hash p = hs ! i \<and> mp_tx_index p = i \<and>
    mp_root p = mt_root t \<and> verify_proof sha3 t p \<and> verify_proof_static sha3 (mp_leaf_hash p) (mp_path p) (mp_root p)"
proof -
  have "tree_of sha3 hs t" using assms(1) build_tree [of sha3 hs] by simp
  from generate_proof_ok [OF this assms(2), of height bh] show ?thesis by (auto simp: verify_proof_def)
qed

section \<open>What an accepted proof shows\<close>

text \<open>
  The positions of a path, read from the root, name a node of the tree; \<open>path_collision\<close> looks
  along the path for two different pairs of hashes with the same parent hash.
\<close>

fun path_node :: "proof_node list \<Rightarrow> nat" where
  "path_node [] = 0"
| "path_node (p # ps) = 2 * path_node ps + (case pn_position p of SiblingRight \<Rightarrow> 1 | SiblingLeft \<Rightarrow> 2)"

fun path_collision :: "(u8 list \<Rightarrow> hash) \<Rightarrow> hash list \<Rightarrow> hash \<Rightarrow> proof_node list \<Rightarrow> ((hash \<times> hash) \<times> (hash \<times> hash)) option" where
  "path_collision sha3 nodes h [] = None"
| "path_collision sha3 nodes h (p # ps) =
     (let claimed = (case pn_position p of SiblingLeft \<Rightarrow> (pn_hash p, h) | SiblingRight \<Rightarrow> (h, pn_hash p));
          stored = (nodes ! (2 * path_node ps + 1), nodes ! (2 * path_node ps + 2)) in
      if claimed \<noteq> stored \<and> hash_pair sha3 (fst claimed) (snd claimed) = hash_pair sha3 (fst stored) (snd stored)
      then Some (claimed, stored)
      else path_collision sha3 nodes (fold_proof_node sha3 p h) ps)"

lemma path_collision_collides:
  "path_collision sha3 nodes h ps = Some (a, b) \<Longrightarrow>
   a \<noteq> b \<and> hash_pair sha3 (fst a) (snd a) = hash_pair sha3 (fst b) (snd b)"
  by (induction ps arbitrary: h) (auto simp: Let_def split: if_splits)

lemma path_node_bounds: "2 ^ length ps - 1 \<le> path_node ps \<and> path_node ps \<le> 2 * 2 ^ length ps - 2"
proof (induction ps)
  case (Cons p ps)
  define x :: nat where "x = 2 ^ length ps"
  have "1 \<le> x" by (simp add: x_def)
  with Cons show ?case unfolding list.size(4) power_Suc power_add power_one_right x_def [symmetric]
    by (cases "pn_position p") auto
qed simp

lemma accepted_node:
  assumes "heap_ok sha3 n nodes" and "path_node ps < 2 * n - 1"
    and "fold (fold_proof_node sha3) ps h = nodes ! 0"
  shows "h = nodes ! path_node ps \<or> path_collision sha3 nodes h ps \<noteq> None"
  using assms(2, 3)
proof (induction ps arbitrary: h)
  case (Cons p ps)
  let ?i = "path_node ps"
  have i: "?i < n - 1" using Cons.prems(1) by (auto split: sibling_position.splits)
  then have parent: "nodes ! ?i = hash_pair sha3 (nodes ! (2 * ?i + 1)) (nodes ! (2 * ?i + 2))"
    using assms(1) by (simp add: heap_ok_def)
  have "fold_proof_node sha3 p h = nodes ! ?i \<or> path_collision sha3 nodes (fold_proof_node sha3 p h) ps \<noteq> None"
    using Cons.IH [of "fold_proof_node sha3 p h"] Cons.prems(2) i by simp
  then show ?case
    using parent by (auto simp: Let_def fold_proof_node_def split: sibling_position.splits)
qed simp

text \<open>
  C15. An accepted proof of full length proves membership. If \<open>verify_proof_static\<close> accepts a
  leaf against the root of a built tree with a path as long as the tree is deep, then the leaf
  is the transaction hash at the index the positions of the path spell out (or the padding
  there), or the path exhibits two different inputs of \<open>hash_pair\<close> with the same hash.
\<close>

theorem accepted_proof_is_member:
  assumes "merkle_build sha3 hs = Some t" and "verify_proof_static sha3 h path (mt_root t)"
    and "2 ^ length path = mt_padded_leaf_count t"
  shows "(\<exists>i < mt_padded_leaf_count t. path_node path = mt_padded_leaf_count t - 1 + i \<and>
            h = (if i < length hs then hs ! i else SENTINEL_HASH)) \<or>
    (\<exists>a b. path_collision sha3 (mt_nodes t) h path = Some (a, b) \<and> a \<noteq> b \<and>
       hash_pair sha3 (fst a) (snd a) = hash_pair sha3 (fst b) (snd b))"
proof -
  let ?n = "mt_padded_leaf_count t"
  have t: "tree_of sha3 hs t" using assms(1) build_tree [of sha3 hs] by simp
  have "0 < ?n" using assms(3) by (metis zero_less_numeral zero_less_power)
  then have ne: "hs \<noteq> []" using t by (auto simp: tree_of_def)
  define i where "i = path_node path - (?n - 1)"
  have i: "path_node path = ?n - 1 + i" "i < ?n"
    using path_node_bounds [of path] assms(3) \<open>0 < ?n\<close> by (auto simp: i_def)
  have "h = mt_nodes t ! path_node path \<or> path_collision sha3 (mt_nodes t) h path \<noteq> None"
    using tree_ofD(4) [OF t ne] assms(2) i
    by (intro accepted_node [OF tree_ofD(2) [OF t ne]]) (auto simp: verify_proof_static_def)
  moreover have "mt_nodes t ! path_node path = (if i < length hs then hs ! i else SENTINEL_HASH)"
    using tree_ofD(3) [OF t ne i(2)] i(1) by simp
  ultimately show ?thesis using i path_collision_collides by fastforce
qed

lemma collect_path_depth:
  "collect_path nodes (2 ^ k - 1 + j) = Ok path \<Longrightarrow> j < 2 ^ k \<Longrightarrow> length path = k"
proof (induction k arbitrary: j path)
  case 0
  then show ?case by (simp add: collect_path.simps)
next
  case (Suc k)
  let ?idx = "2 ^ Suc k - 1 + j"
  have two: "2 \<le> (2::nat) ^ Suc k" by simp
  then have nz: "?idx \<noteq> 0" by linarith
  have "1 \<le> (2::nat) ^ k" by simp
  then have "?idx - 1 = 2 * (2 ^ k - 1) + j" unfolding power_Suc by linarith
  then have parent: "(?idx - 1) div 2 = 2 ^ k - 1 + j div 2" by simp
  obtain h path' where "collect_path nodes ((?idx - 1) div 2) = Ok path'" "length path = Suc (length path')"
    using Suc.prems(1) nz by (subst (asm) collect_path.simps) (auto split: option.splits outcome.splits)
  with Suc.IH [of "j div 2" path'] Suc.prems(2) parent show ?case by simp
qed

text \<open>
  The length of the path is never checked: for a block of at least three transactions there is a
  path one level short of the tree with which an inner node is accepted as if it were a transaction.
\<close>

theorem inner_node_accepted:
  assumes "merkle_build sha3 hs = Some t" and "3 \<le> length hs"
  shows "\<exists>path. verify_proof_static sha3 (hash_pair sha3 (hs ! 0) (hs ! 1)) path (mt_root t) \<and>
    2 * 2 ^ length path = mt_padded_leaf_count t"
proof -
  let ?n = "mt_padded_leaf_count t"
  have t: "tree_of sha3 hs t" using assms(1) build_tree [of sha3 hs] by simp
  have ne: "hs \<noteq> []" using assms(2) by auto
  with t have n: "?n = padded_count (length hs)" by (rule tree_ofD)
  then obtain k where k: "?n = 2 ^ Suc k" and b: "length hs \<le> ?n"
    using padded_count_power [of "length hs"] padded_count_bounds [of "length hs"] assms(2)
    by (metis less_le_trans zero_less_numeral)
  define idx :: nat where "idx = 2 ^ k - 1"
  have idx: "2 * idx + 1 = ?n - 1" "2 * idx + 2 = ?n - 1 + 1" "idx < ?n - 1" using k assms(2) b by (auto simp: idx_def)
  have h: "heap_ok sha3 ?n (mt_nodes t)"
    and leaf: "\<forall>i < ?n. mt_nodes t ! (?n - 1 + i) = (if i < length hs then hs ! i else SENTINEL_HASH)"
    and root: "mt_root t = mt_nodes t ! 0"
    using tree_ofD(2-) [OF t] ne by blast+
  have "mt_nodes t ! idx = hash_pair sha3 (mt_nodes t ! (2 * idx + 1)) (mt_nodes t ! (2 * idx + 2))"
    using h idx(3) by (simp add: heap_ok_def)
  also have "\<dots> = hash_pair sha3 (hs ! 0) (hs ! 1)"
    unfolding idx(1, 2) using leaf [rule_format, of 0] leaf [rule_format, of 1] assms(2) b ne by simp
  finally have node: "mt_nodes t ! idx = hash_pair sha3 (hs ! 0) (hs ! 1)" .
  have "2 \<le> ?n" "idx < 2 * ?n - 1" using b assms(2) idx(3) by simp_all
  from collect_path_ok [OF h this] obtain path where
    path: "collect_path (mt_nodes t) idx = Ok path" "fold (fold_proof_node sha3) path (mt_nodes t ! idx) = mt_nodes t ! 0" by blast
  moreover have "length path = k"
    using collect_path_depth [of "mt_nodes t" k 0 path] path(1) by (simp add: idx_def)
  ultimately show ?thesis using node root k by (auto simp: verify_proof_static_def)
qed

text \<open>
  Verifying a multi-proof verifies nothing: whatever leaves are claimed at whatever indices,
  a multi-proof with them and any non-zero root is accepted.
\<close>

theorem multi_proof_accepts_anything:
  assumes "length hs = length is" and "is \<noteq> []" and "root \<noteq> 0"
  shows "multi_verify \<lparr>mu_leaf_indices = is, mu_leaf_hashes = hs, mu_siblings = sib, mu_root = root,
    mu_block_height = height, mu_block_hash = bh\<rparr>"
  using assms by (auto simp: multi_verify_def)

section \<open>Examples\<close>

definition toy_sha3 :: "u8 list \<Rightarrow> hash" where
  "toy_sha3 bs = foldl (\<lambda>h b. 31 * h + ucast b) 7 bs"

lemma next_power_of_two_small:
  "next_power_of_two (Suc (Suc 0)) = 2" "next_power_of_two (Suc (Suc (Suc 0))) = 4"
  by (simp_all add: next_power_of_two.simps [of "Suc (Suc 0)"] next_power_of_two.simps [of "Suc (Suc (Suc 0))"]
    next_power_of_two.simps [of 2] next_power_of_two.simps [of "Suc 0"])

lemma build_two:
  "merkle_build sha3 [a, b] =
     Some \<lparr>mt_nodes = [hash_pair sha3 a b, a, b], mt_transaction_count = 2, mt_padded_leaf_count = 2,
           mt_root = hash_pair sha3 a b\<rparr>"
  by (simp add: merkle_build_def next_power_of_two_small resize_def arr_get_def numeral_2_eq_2 Let_def)

lemma build_three:
  "merkle_build sha3 [a, b, c] =
     Some \<lparr>mt_nodes = [hash_pair sha3 (hash_pair sha3 a b) (hash_pair sha3 c SENTINEL_HASH),
              hash_pair sha3 a b, hash_pair sha3 c SENTINEL_HASH, a, b, c, SENTINEL_HASH],
           mt_transaction_count = 3, mt_padded_leaf_count = 4,
           mt_root = hash_pair sha3 (hash_pair sha3 a b) (hash_pair sha3 c SENTINEL_HASH)\<rparr>"
  by (simp add: merkle_build_def next_power_of_two_small resize_def arr_get_def eval_nat_numeral Let_def)

theorem generated_proof_verifies_witness:
  "\<exists>t p. merkle_build toy_sha3 [1, 2, 3] = Some t \<and> generate_proof t 1 5 9 = Ok p \<and>
     mp_leaf_hash p = 2 \<and> verify_proof toy_sha3 t p"
  using generated_proof_verifies [OF build_three [of toy_sha3 1 2 3], of 1 5 9] build_three [of toy_sha3 1 2 3] by auto

theorem accepted_proof_is_member_witness:
  "(\<exists>i < 2. path_node [\<lparr>pn_hash = 6, pn_position = SiblingRight\<rparr>] = 1 + i \<and>
      (5 :: hash) = (if i < 2 then [5, 6] ! i else SENTINEL_HASH)) \<or>
   (\<exists>a b. path_collision toy_sha3 [hash_pair toy_sha3 5 6, 5, 6] 5 [\<lparr>pn_hash = 6, pn_position = SiblingRight\<rparr>]
       = Some (a, b) \<and> a \<noteq> b \<and> hash_pair toy_sha3 (fst a) (snd a) = hash_pair toy_sha3 (fst b) (snd b))"
  using accepted_proof_is_member [OF build_two [of toy_sha3 5 6], where h = 5
      and path = "[\<lparr>pn_hash = 6, pn_position = SiblingRight\<rparr>]"]
  by (simp add: verify_proof_static_def fold_proof_node_def)

theorem inner_node_accepted_witness:
  "\<exists>path. verify_proof_static toy_sha3 (hash_pair toy_sha3 1 2) path
     (hash_pair toy_sha3 (hash_pair toy_sha3 1 2) (hash_pair toy_sha3 3 SENTINEL_HASH)) \<and> length path = 1"
proof -
  have "2 * 2 ^ length path = (4::nat) \<longleftrightarrow> length path = 1" for path :: "proof_node list"
    by (cases path; cases "tl path") auto
  then show ?thesis using inner_node_accepted [OF build_three [of toy_sha3 1 2 3]] by simp
qed

theorem multi_proof_accepts_anything_witness:
  "multi_verify \<lparr>mu_leaf_indices = [0, 1000], mu_leaf_hashes = [77, 78], mu_siblings = [], mu_root = 1,
    mu_block_height = 0, mu_block_hash = 0\<rparr>"
  by (rule multi_proof_accepts_anything) simp_all

end
