(* ===== verification/TxIndex.thy ===== *)
theory TxIndex
  imports MerkleTree
begin

text \<open>
  The transaction index and its message handlers: \<open>TransactionIndex\<close> of
  \<^verbatim>\<open>qc-03-transaction-indexing/src/domain/entities.rs\<close> and \<^verbatim>\<open>ipc/handler.rs\<close>, \<^verbatim>\<open>ipc/payloads.rs\<close>,
  \<^verbatim>\<open>domain/errors.rs\<close>.

  The LRU cache of the \<^verbatim>\<open>lru\<close> crate is a parameter, the record \<open>lru_ops\<close> of its operations;
  \<open>lru_laws\<close> is what the crate documents of them. HMAC-SHA256 is the parameter \<open>hmac\<close>.
  The clock readings are arguments. The \<open>f64\<close> of the statistics, which is only stored, is
  carried as its bit pattern. \<open>None\<close> is a panic.
\<close>

section \<open>The cache interface\<close>

record 'c lru_ops =
  lru_new :: "nat \<Rightarrow> 'c"
  lru_put :: "hash \<Rightarrow> merkle_tree \<Rightarrow> 'c \<Rightarrow> 'c"
  lru_get :: "hash \<Rightarrow> 'c \<Rightarrow> 'c \<times> merkle_tree option"
  lru_len :: "'c \<Rightarrow> nat"

definition lru_laws :: "'c lru_ops \<Rightarrow> bool" where
  "lru_laws ops \<longleftrightarrow>
     (\<forall>n k. snd (lru_get ops k (lru_new ops n)) = None) \<and>
     (\<forall>k v c. snd (lru_get ops k (lru_put ops k v c)) = Some v) \<and>
     (\<forall>k k' v w c. k' \<noteq> k \<longrightarrow> snd (lru_get ops k' (lru_put ops k v c)) = Some w \<longrightarrow>
        snd (lru_get ops k' c) = Some w) \<and>
     (\<forall>k k' c. snd (lru_get ops k' (fst (lru_get ops k c))) = snd (lru_get ops k' c))"

section \<open>The index\<close>

record transaction_location =
  tl_block_height :: u64
  tl_block_hash :: hash
  tl_tx_index :: usize
  tl_merkle_root :: hash

record index_config =
  max_cached_trees :: usize
  persist_index :: bool

record indexing_stats =
  is_total_indexed_txs :: u64
  is_cached_trees :: usize
  is_max_cached_trees :: usize
  is_proofs_generated :: u64
  is_proofs_verified :: u64
  is_last_indexed_height :: u64
  is_avg_tree_depth :: u8
  is_blocks_per_second :: u64
  is_e2e_latency_ms :: u64
  is_last_merkle_root :: "hash option"

definition default_stats :: indexing_stats where
  "default_stats = \<lparr>is_total_indexed_txs = 0, is_cached_trees = 0, is_max_cached_trees = 0,
     is_proofs_generated = 0, is_proofs_verified = 0, is_last_indexed_height = 0, is_avg_tree_depth = 0,
     is_blocks_per_second = 0, is_e2e_latency_ms = 0, is_last_merkle_root = None\<rparr>"

record 'c transaction_index =
  ti_locations :: "(hash \<times> transaction_location) list"
  ti_trees :: 'c
  ti_config :: index_config
  ti_stats :: indexing_stats

definition new_index :: "'c lru_ops \<Rightarrow> index_config \<Rightarrow> 'c transaction_index" where
  "new_index ops cfg =
     \<lparr>ti_locations = [],
      ti_trees = lru_new ops (if max_cached_trees cfg = 0 then 1000 else max_cached_trees cfg),
      ti_config = cfg, ti_stats = default_stats\<rparr>"

definition put_location :: "hash \<Rightarrow> transaction_location \<Rightarrow> 'c transaction_index \<Rightarrow> 'c transaction_index option" where
  "put_location tx_hash loc ix =
     (case checked_add (is_total_indexed_txs (ti_stats ix)) 1 of
        None \<Rightarrow> None
      | Some n \<Rightarrow>
          Some (ix\<lparr>ti_locations := AList.update tx_hash loc (ti_locations ix),
                   ti_stats := (ti_stats ix)\<lparr>is_total_indexed_txs := n\<rparr>\<rparr>))"

definition get_location :: "hash \<Rightarrow> 'c transaction_index \<Rightarrow> transaction_location option" where
  "get_location tx_hash ix = map_of (ti_locations ix) tx_hash"

definition cache_tree :: "'c lru_ops \<Rightarrow> hash \<Rightarrow> merkle_tree \<Rightarrow> 'c transaction_index \<Rightarrow> 'c transaction_index" where
  "cache_tree ops block_hash tree ix =
     (let trees = lru_put ops block_hash tree (ti_trees ix) in
      ix\<lparr>ti_trees := trees, ti_stats := (ti_stats ix)\<lparr>is_cached_trees := lru_len ops trees\<rparr>\<rparr>)"

definition get_tree :: "'c lru_ops \<Rightarrow> hash \<Rightarrow> 'c transaction_index \<Rightarrow> 'c transaction_index \<times> merkle_tree option" where
  "get_tree ops block_hash ix =
     (case lru_get ops block_hash (ti_trees ix) of (trees, t) \<Rightarrow> (ix\<lparr>ti_trees := trees\<rparr>, t))"

definition get_tx_count_for_block :: "u64 \<Rightarrow> 'c transaction_index \<Rightarrow> u64 option" where
  "get_tx_count_for_block height ix =
     (let count = of_nat (length (filter (\<lambda>e. tl_block_height (snd e) = height) (ti_locations ix))) in
      if 0 < count then Some count else None)"

definition record_proof_generated :: "'c transaction_index \<Rightarrow> 'c transaction_index option" where
  "record_proof_generated ix =
     (case checked_add (is_proofs_generated (ti_stats ix)) 1 of
        None \<Rightarrow> None
      | Some n \<Rightarrow> Some (ix\<lparr>ti_stats := (ti_stats ix)\<lparr>is_proofs_generated := n\<rparr>\<rparr>))"

section \<open>Envelopes\<close>

record 'a index_message =
  im_version :: u8
  im_correlation_id :: "u8 list"
  im_reply_to :: "string option"
  im_sender_id :: u8
  im_recipient_id :: u8
  im_timestamp :: u64
  im_nonce :: u64
  im_signature :: "u8 list"
  im_payload :: 'a

definition TRANSACTION_INDEXING :: u8 where "TRANSACTION_INDEXING = 3"
definition CONSENSUS_ID :: u8 where "CONSENSUS_ID = 8"

definition im_response :: "u64 \<Rightarrow> 'a index_message \<Rightarrow> u8 \<Rightarrow> 'b \<Rightarrow> 'b index_message" where
  "im_response now request sender p =
     \<lparr>im_version = im_version request, im_correlation_id = im_correlation_id request, im_reply_to = None,
      im_sender_id = sender, im_recipient_id = im_sender_id request, im_timestamp = now, im_nonce = 0,
      im_signature = replicate 32 0, im_payload = p\<rparr>"

datatype envelope_error =
    EnvUnsupportedVersion u8
  | EnvTimestampOutOfRange u64 u64
  | EnvInvalidSignature
  | EnvNonceReused u64
  | EnvUnauthorizedSender u8 "u8 list"
  | EnvWrongRecipient u8 u8

record envelope_validator =
  ev_subsystem_id :: u8
  ev_shared_secret :: "u8 list"
  ev_nonce_cache :: "u64 list"
  ev_timestamp_window_secs :: u64

definition new_validator :: "u8 \<Rightarrow> u8 list \<Rightarrow> envelope_validator" where
  "new_validator sid secret =
     \<lparr>ev_subsystem_id = sid, ev_shared_secret = secret, ev_nonce_cache = [], ev_timestamp_window_secs = 60\<rparr>"

definition verify_signature :: "(u8 list \<Rightarrow> u8 list \<Rightarrow> u8 list) \<Rightarrow> 'a index_message \<Rightarrow> envelope_validator \<Rightarrow> bool" where
  "verify_signature hmac msg v \<longleftrightarrow>
     hmac (ev_shared_secret v)
       (le_bytes 1 (im_version msg) @ im_correlation_id msg @ [im_sender_id msg] @ [im_recipient_id msg] @
        le_bytes 8 (im_timestamp msg) @ le_bytes 8 (im_nonce msg)) = im_signature msg"

definition validate :: "(u8 list \<Rightarrow> u8 list \<Rightarrow> u8 list) \<Rightarrow> u64 \<Rightarrow> 'a index_message \<Rightarrow>
    envelope_validator \<Rightarrow> envelope_validator \<times> (unit, envelope_error) outcome" where
  "validate hmac current msg v =
     (if im_version msg < 1 \<or> 2 < im_version msg then (v, Err (EnvUnsupportedVersion (im_version msg)))
      else if im_recipient_id msg \<noteq> ev_subsystem_id v
      then (v, Err (EnvWrongRecipient (ev_subsystem_id v) (im_recipient_id msg)))
      else
        (case checked_add current (ev_timestamp_window_secs v) of
           None \<Rightarrow> (v, Panic)
         | Some latest \<Rightarrow>
             if latest < im_timestamp msg \<or>
                im_timestamp msg < saturating_sub current (ev_timestamp_window_secs v)
             then (v, Err (EnvTimestampOutOfRange (im_timestamp msg) current))
             else if im_nonce msg \<in> set (ev_nonce_cache v) then (v, Err (EnvNonceReused (im_nonce msg)))
             else
               (let v' = v\<lparr>ev_nonce_cache := im_nonce msg # ev_nonce_cache v\<rparr> in
                if \<not> verify_signature hmac msg v' then (v', Err EnvInvalidSignature) else (v', Ok ()))))"

definition validate_sender :: "u8 \<Rightarrow> u8 list \<Rightarrow> (unit, envelope_error) outcome" where
  "validate_sender sender allowed =
     (if sender \<notin> set allowed then Err (EnvUnauthorizedSender sender allowed) else Ok ())"

section \<open>Payloads\<close>

record block_validated_payload =
  bv_block :: validated_block
  bv_block_hash :: hash
  bv_block_height :: u64

record merkle_root_computed_payload =
  mr_block_hash :: hash
  mr_block_height :: u64
  mr_merkle_root :: hash
  mr_transaction_count :: usize

datatype indexing_error_type =
    TyTransactionNotFound | TyTreeNotCached | TyInvalidIndex | TyEmptyBlock | TySerializationError
  | TyStorageError | TyUnauthorizedSender | TyCommunicationError | TyTimeout | TyProofTooDeep

record indexing_error_payload =
  ie_error_type :: indexing_error_type
  ie_message :: string
  ie_transaction_hash :: "hash option"
  ie_block_hash :: "hash option"

fun error_payload :: "indexing_error \<Rightarrow> indexing_error_payload" where
  "error_payload (TransactionNotFound h) =
     \<lparr>ie_error_type = TyTransactionNotFound, ie_message = ''Transaction not found'', ie_transaction_hash = Some h, ie_block_hash = None\<rparr>"
| "error_payload (TreeNotCached b) =
     \<lparr>ie_error_type = TyTreeNotCached, ie_message = ''Merkle tree not cached'', ie_transaction_hash = None, ie_block_hash = Some b\<rparr>"
| "error_payload (InvalidIndex i m) =
     \<lparr>ie_error_type = TyInvalidIndex, ie_message = ''Invalid index '' @ nat_str i @ '' (max: '' @ nat_str m @ '')'',
      ie_transaction_hash = None, ie_block_hash = None\<rparr>"
| "error_payload (EmptyBlock b) =
     \<lparr>ie_error_type = TyEmptyBlock, ie_message = ''Empty block'', ie_transaction_hash = None, ie_block_hash = Some b\<rparr>"
| "error_payload (SerializationError m) =
     \<lparr>ie_error_type = TySerializationError, ie_message = m, ie_transaction_hash = None, ie_block_hash = None\<rparr>"
| "error_payload (StorageError m) =
     \<lparr>ie_error_type = TyStorageError, ie_message = m, ie_transaction_hash = None, ie_block_hash = None\<rparr>"
| "error_payload (UnauthorizedSender s e) =
     \<lparr>ie_error_type = TyUnauthorizedSender,
      ie_message = ''Unauthorized sender '' @ nat_str (unat s) @ '' (expected: '' @ nat_str (unat e) @ '')'',
      ie_transaction_hash = None, ie_block_hash = None\<rparr>"
| "error_payload (CommunicationError m) =
     \<lparr>ie_error_type = TyCommunicationError, ie_message = m, ie_transaction_hash = None, ie_block_hash = None\<rparr>"
| "error_payload (Timeout op) =
     \<lparr>ie_error_type = TyTimeout, ie_message = ''Operation timed out: '' @ op, ie_transaction_hash = None, ie_block_hash = None\<rparr>"
| "error_payload (ProofTooDeep d m) =
     \<lparr>ie_error_type = TyProofTooDeep, ie_message = ''Proof depth '' @ nat_str d @ '' exceeds max '' @ nat_str m,
      ie_transaction_hash = None, ie_block_hash = None\<rparr>"

record merkle_proof_response =
  pr_transaction_hash :: hash
  pr_proof :: "merkle_proof option"
  pr_error :: "indexing_error_payload option"

record transaction_location_response =
  lr_transaction_hash :: hash
  lr_location :: "transaction_location option"
  lr_error :: "indexing_error_payload option"

section \<open>Handlers\<close>

record 'c indexing_handler =
  hd_index :: "'c transaction_index"
  hd_validator :: envelope_validator

definition new_handler :: "'c lru_ops \<Rightarrow> index_config \<Rightarrow> u8 list \<Rightarrow> 'c indexing_handler" where
  "new_handler ops cfg secret =
     \<lparr>hd_index = new_index ops cfg, hd_validator = new_validator TRANSACTION_INDEXING secret\<rparr>"

fun index_all :: "u64 \<Rightarrow> hash \<Rightarrow> hash \<Rightarrow> nat \<Rightarrow> hash list \<Rightarrow> 'c transaction_index \<Rightarrow> 'c transaction_index option" where
  "index_all height bh root idx [] ix = Some ix"
| "index_all height bh root idx (h # hs) ix =
     (case put_location h \<lparr>tl_block_height = height, tl_block_hash = bh, tl_tx_index = idx, tl_merkle_root = root\<rparr> ix of
        None \<Rightarrow> None
      | Some ix' \<Rightarrow> index_all height bh root (Suc idx) hs ix')"

definition handle_block_validated :: "(u8 list \<Rightarrow> u8 list \<Rightarrow> u8 list) \<Rightarrow> (u8 list \<Rightarrow> hash) \<Rightarrow> 'c lru_ops \<Rightarrow> u64 \<Rightarrow>
    block_validated_payload index_message \<Rightarrow>
    'c indexing_handler \<Rightarrow> 'c indexing_handler \<times> (merkle_root_computed_payload, envelope_error) outcome" where
  "handle_block_validated hmac sha3 ops current msg h =
     (case validate hmac current msg (hd_validator h) of
        (v, Panic) \<Rightarrow> (h\<lparr>hd_validator := v\<rparr>, Panic)
      | (v, Err e) \<Rightarrow> (h\<lparr>hd_validator := v\<rparr>, Err e)
      | (v, Ok _) \<Rightarrow>
          (let h1 = h\<lparr>hd_validator := v\<rparr>;
               p = im_payload msg;
               tx_hashes = map vt_tx_hash (vb_transactions (bv_block p)) in
           case validate_sender (im_sender_id msg) [CONSENSUS_ID] of
             Panic \<Rightarrow> (h1, Panic)
           | Err e \<Rightarrow> (h1, Err e)
           | Ok _ \<Rightarrow>
               (case merkle_build sha3 tx_hashes of
                  None \<Rightarrow> (h1, Panic)
                | Some tree \<Rightarrow>
                    (case index_all (bv_block_height p) (bv_block_hash p) (mt_root tree) 0 tx_hashes (hd_index h1) of
                       None \<Rightarrow> (h1, Panic)
                     | Some ix \<Rightarrow>
                         (h1\<lparr>hd_index := cache_tree ops (bv_block_hash p) tree ix\<rparr>,
                          Ok \<lparr>mr_block_hash = bv_block_hash p, mr_block_height = bv_block_height p,
                              mr_merkle_root = mt_root tree, mr_transaction_count = length tx_hashes\<rparr>)))))"

definition proof_error :: "u64 \<Rightarrow> hash index_message \<Rightarrow> indexing_error \<Rightarrow> merkle_proof_response index_message" where
  "proof_error now msg e = im_response now msg TRANSACTION_INDEXING
     \<lparr>pr_transaction_hash = im_payload msg, pr_proof = None, pr_error = Some (error_payload e)\<rparr>"

definition handle_merkle_proof_request :: "(u8 list \<Rightarrow> u8 list \<Rightarrow> u8 list) \<Rightarrow> 'c lru_ops \<Rightarrow> u64 \<Rightarrow> u64 \<Rightarrow>
    hash index_message \<Rightarrow>
    'c indexing_handler \<Rightarrow> 'c indexing_handler \<times> (merkle_proof_response index_message, envelope_error) outcome" where
  "handle_merkle_proof_request hmac ops current now msg h =
     (case validate hmac current msg (hd_validator h) of
        (v, Panic) \<Rightarrow> (h\<lparr>hd_validator := v\<rparr>, Panic)
      | (v, Err e) \<Rightarrow> (h\<lparr>hd_validator := v\<rparr>, Err e)
      | (v, Ok _) \<Rightarrow>
          (let h1 = h\<lparr>hd_validator := v\<rparr> in
           case get_location (im_payload msg) (hd_index h1) of
             None \<Rightarrow> (h1, Ok (proof_error now msg (TransactionNotFound (im_payload msg))))
           | Some loc \<Rightarrow>
               (case get_tree ops (tl_block_hash loc) (hd_index h1) of
                  (ix, None) \<Rightarrow> (h1\<lparr>hd_index := ix\<rparr>, Ok (proof_error now msg (TreeNotCached (tl_block_hash loc))))
                | (ix, Some tree) \<Rightarrow>
                    (case generate_proof tree (tl_tx_index loc) (tl_block_height loc) (tl_block_hash loc) of
                       Panic \<Rightarrow> (h1\<lparr>hd_index := ix\<rparr>, Panic)
                     | Err e \<Rightarrow> (h1\<lparr>hd_index := ix\<rparr>, Ok (proof_error now msg e))
                     | Ok proof \<Rightarrow>
                         (case record_proof_generated ix of
                            None \<Rightarrow> (h1\<lparr>hd_index := ix\<rparr>, Panic)
                          | Some ix' \<Rightarrow>
                              (h1\<lparr>hd_index := ix'\<rparr>,
                               Ok (im_response now msg TRANSACTION_INDEXING
                                 \<lparr>pr_transaction_hash = im_payload msg, pr_proof = Some proof, pr_error = None\<rparr>)))))))"

definition handle_transaction_location_request :: "(u8 list \<Rightarrow> u8 list \<Rightarrow> u8 list) \<Rightarrow> u64 \<Rightarrow> u64 \<Rightarrow>
    hash index_message \<Rightarrow>
    'c indexing_handler \<Rightarrow> 'c indexing_handler \<times> (transaction_location_response index_message, envelope_error) outcome" where
  "handle_transaction_location_request hmac current now msg h =
     (case validate hmac current msg (hd_validator h) of
        (v, Panic) \<Rightarrow> (h\<lparr>hd_validator := v\<rparr>, Panic)
      | (v, Err e) \<Rightarrow> (h\<lparr>hd_validator := v\<rparr>, Err e)
      | (v, Ok _) \<Rightarrow>
          (let h1 = h\<lparr>hd_validator := v\<rparr> in
           (h1, Ok (im_response now msg TRANSACTION_INDEXING
             (case get_location (im_payload msg) (hd_index h1) of
                Some loc \<Rightarrow> \<lparr>lr_transaction_hash = im_payload msg, lr_location = Some loc, lr_error = None\<rparr>
              | None \<Rightarrow> \<lparr>lr_transaction_hash = im_payload msg, lr_location = None,
                  lr_error = Some (error_payload (TransactionNotFound (im_payload msg)))\<rparr>)))))"

section \<open>What the index holds\<close>

lemma lruD:
  assumes "lru_laws ops"
  shows "snd (lru_get ops k (lru_new ops n)) = None"
    and "snd (lru_get ops k (lru_put ops k v c)) = Some v"
    and "snd (lru_get ops k' (lru_put ops k v c)) = Some w \<Longrightarrow> k' = k \<and> w = v \<or> snd (lru_get ops k' c) = Some w"
    and "snd (lru_get ops k' (fst (lru_get ops k c))) = snd (lru_get ops k' c)"
  using assms by (auto simp: lru_laws_def split: if_splits) (metis option.inject)+

text \<open>
  \<open>txs_of\<close> gives the transaction hashes of a block hash: a block hash identifies its block.
  A location is right when the index names the transaction in that list and the root is that of its tree.
\<close>

definition location_ok :: "(u8 list \<Rightarrow> hash) \<Rightarrow> (hash \<Rightarrow> hash list) \<Rightarrow> hash \<Rightarrow> transaction_location \<Rightarrow> bool" where
  "location_ok sha3 txs_of h loc \<longleftrightarrow>
     tl_tx_index loc < length (txs_of (tl_block_hash loc)) \<and> txs_of (tl_block_hash loc) ! tl_tx_index loc = h \<and>
     (\<exists>t. tree_of sha3 (txs_of (tl_block_hash loc)) t \<and> mt_root t = tl_merkle_root loc)"

definition index_ok :: "(u8 list \<Rightarrow> hash) \<Rightarrow> 'c lru_ops \<Rightarrow> (hash \<Rightarrow> hash list) \<Rightarrow> 'c transaction_index \<Rightarrow> bool" where
  "index_ok sha3 ops txs_of ix \<longleftrightarrow>
     (\<forall>k t. snd (lru_get ops k (ti_trees ix)) = Some t \<longrightarrow> tree_of sha3 (txs_of k) t) \<and>
     (\<forall>h loc. map_of (ti_locations ix) h = Some loc \<longrightarrow> location_ok sha3 txs_of h loc)"

lemma index_all_Some:
  assumes "index_all height bh root idx hs ix = Some ix'"
  shows "ti_trees ix' = ti_trees ix \<and> is_proofs_generated (ti_stats ix') = is_proofs_generated (ti_stats ix) \<and>
    (\<forall>h. (\<exists>i < length hs. hs ! i = h \<and> map_of (ti_locations ix') h =
            Some \<lparr>tl_block_height = height, tl_block_hash = bh, tl_tx_index = idx + i, tl_merkle_root = root\<rparr>) \<or>
         h \<notin> set hs \<and> map_of (ti_locations ix') h = map_of (ti_locations ix) h)"
  using assms
proof (induction hs arbitrary: idx ix)
  case (Cons x hs)
  then obtain ix1 where ix1: "put_location x \<lparr>tl_block_height = height, tl_block_hash = bh, tl_tx_index = idx, tl_merkle_root = root\<rparr> ix = Some ix1"
    and rest: "index_all height bh root (Suc idx) hs ix1 = Some ix'"
    by (auto split: option.splits)
  have put: "ti_trees ix1 = ti_trees ix" "is_proofs_generated (ti_stats ix1) = is_proofs_generated (ti_stats ix)"
    "map_of (ti_locations ix1) = (map_of (ti_locations ix))(x \<mapsto> \<lparr>tl_block_height = height, tl_block_hash = bh, tl_tx_index = idx, tl_merkle_root = root\<rparr>)"
    using ix1 by (auto simp: put_location_def update_conv' split: option.splits)
  have IH: "(\<exists>i < length hs. hs ! i = h \<and> map_of (ti_locations ix') h =
            Some \<lparr>tl_block_height = height, tl_block_hash = bh, tl_tx_index = Suc idx + i, tl_merkle_root = root\<rparr>) \<or>
         h \<notin> set hs \<and> map_of (ti_locations ix') h = map_of (ti_locations ix1) h" for h
    using Cons.IH [OF rest] by blast
  have "(\<exists>i < length (x # hs). (x # hs) ! i = h \<and> map_of (ti_locations ix') h =
            Some \<lparr>tl_block_height = height, tl_block_hash = bh, tl_tx_index = idx + i, tl_merkle_root = root\<rparr>) \<or>
         h \<notin> set (x # hs) \<and> map_of (ti_locations ix') h = map_of (ti_locations ix) h" for h
    using IH [of h]
  proof
    assume "\<exists>i < length hs. hs ! i = h \<and> map_of (ti_locations ix') h =
            Some \<lparr>tl_block_height = height, tl_block_hash = bh, tl_tx_index = Suc idx + i, tl_merkle_root = root\<rparr>"
    then obtain i where "i < length hs" "hs ! i = h" "map_of (ti_locations ix') h =
            Some \<lparr>tl_block_height = height, tl_block_hash = bh, tl_tx_index = Suc idx + i, tl_merkle_root = root\<rparr>" by blast
    then show ?thesis by (intro disjI1 exI [of _ "Suc i"]) simp
  qed (cases "h = x", auto simp: put(3) intro: exI [of _ 0])
  with put(1, 2) Cons.IH [OF rest] show ?case by simp
qed simp

lemma cache_tree_frame [simp]:
  "ti_locations (cache_tree ops bh t ix) = ti_locations ix"
  "is_proofs_generated (ti_stats (cache_tree ops bh t ix)) = is_proofs_generated (ti_stats ix)"
  "ti_trees (cache_tree ops bh t ix) = lru_put ops bh t (ti_trees ix)"
  by (simp_all add: cache_tree_def Let_def)

lemma block_index_ok:
  assumes laws: "lru_laws ops" and ok: "index_ok sha3 ops txs_of ix" and t: "tree_of sha3 hs t" and hs: "txs_of bh = hs"
    and all: "index_all height bh (mt_root t) 0 hs ix = Some ix'"
  shows "index_ok sha3 ops txs_of (cache_tree ops bh t ix')"
  unfolding index_ok_def
proof (intro conjI allI impI)
  note res = index_all_Some [OF all]
  fix k t' assume "snd (lru_get ops k (ti_trees (cache_tree ops bh t ix'))) = Some t'"
  then show "tree_of sha3 (txs_of k) t'"
    using lruD(3) [OF laws] ok t hs res by (fastforce simp: index_ok_def)
next
  note res = index_all_Some [OF all]
  fix h loc assume "map_of (ti_locations (cache_tree ops bh t ix')) h = Some loc"
  then have loc: "map_of (ti_locations ix') h = Some loc" by simp
  consider i where "i < length hs" "hs ! i = h" "map_of (ti_locations ix') h =
      Some \<lparr>tl_block_height = height, tl_block_hash = bh, tl_tx_index = 0 + i, tl_merkle_root = mt_root t\<rparr>"
    | "map_of (ti_locations ix') h = map_of (ti_locations ix) h"
    using res by blast
  then show "location_ok sha3 txs_of h loc"
  proof cases
    case 1
    then show ?thesis using loc t hs by (auto simp: location_ok_def)
  next
    case 2
    then show ?thesis using loc ok by (simp add: index_ok_def)
  qed
qed

lemma handle_block_validated_cases:
  assumes "handle_block_validated hmac sha3 ops current msg h = (h', r)"
  obtains (same) "hd_index h' = hd_index h" "\<not> is_ok r"
  | (indexed) t ix where "tree_of sha3 (map vt_tx_hash (vb_transactions (bv_block (im_payload msg)))) t"
      "index_all (bv_block_height (im_payload msg)) (bv_block_hash (im_payload msg)) (mt_root t) 0
         (map vt_tx_hash (vb_transactions (bv_block (im_payload msg)))) (hd_index h) = Some ix"
      "hd_index h' = cache_tree ops (bv_block_hash (im_payload msg)) t ix"
      "r = Ok \<lparr>mr_block_hash = bv_block_hash (im_payload msg), mr_block_height = bv_block_height (im_payload msg),
         mr_merkle_root = mt_root t, mr_transaction_count = length (vb_transactions (bv_block (im_payload msg)))\<rparr>"
proof -
  obtain t where t: "merkle_build sha3 (map vt_tx_hash (vb_transactions (bv_block (im_payload msg)))) = Some t"
    "tree_of sha3 (map vt_tx_hash (vb_transactions (bv_block (im_payload msg)))) t"
    using build_tree by blast
  show thesis
    using assms t same indexed
    by (auto simp: handle_block_validated_def Let_def split: prod.splits outcome.splits option.splits)
qed

text \<open>How a request is served, when a proof comes back.\<close>

lemma proof_request_cases:
  assumes "handle_merkle_proof_request hmac ops current now msg h = (h', Ok r)" and "pr_proof (im_payload r) = Some p"
  obtains loc t where "get_location (im_payload msg) (hd_index h) = Some loc"
    "snd (lru_get ops (tl_block_hash loc) (ti_trees (hd_index h))) = Some t"
    "generate_proof t (tl_tx_index loc) (tl_block_height loc) (tl_block_hash loc) = Ok p"
  using assms
  by (auto simp: handle_merkle_proof_request_def Let_def get_tree_def proof_error_def im_response_def
      split: prod.splits outcome.splits option.splits)

lemma proof_request_index:
  assumes "index_ok sha3 ops txs_of (hd_index h)" and laws: "lru_laws ops"
  shows "index_ok sha3 ops txs_of (hd_index (fst (handle_merkle_proof_request hmac ops current now msg h)))"
proof -
  let ?ix = "hd_index (fst (handle_merkle_proof_request hmac ops current now msg h))"
  have "ti_locations ?ix = ti_locations (hd_index h) \<and>
      (ti_trees ?ix = ti_trees (hd_index h) \<or> (\<exists>k. ti_trees ?ix = fst (lru_get ops k (ti_trees (hd_index h)))))"
    by (auto simp: handle_merkle_proof_request_def Let_def get_tree_def record_proof_generated_def
        split: prod.splits outcome.splits option.splits) (metis fst_conv)+
  with assms(1) show ?thesis by (auto simp: index_ok_def lruD(4) [OF laws])
qed

inductive handler_reachable :: "(u8 list \<Rightarrow> u8 list \<Rightarrow> u8 list) \<Rightarrow> (u8 list \<Rightarrow> hash) \<Rightarrow> 'c lru_ops \<Rightarrow>
    (hash \<Rightarrow> hash list) \<Rightarrow> 'c indexing_handler \<Rightarrow> bool" for hmac sha3 ops txs_of where
  hr_start: "handler_reachable hmac sha3 ops txs_of (new_handler ops cfg secret)"
| hr_block: "handler_reachable hmac sha3 ops txs_of h \<Longrightarrow>
    txs_of (bv_block_hash (im_payload msg)) = map vt_tx_hash (vb_transactions (bv_block (im_payload msg))) \<Longrightarrow>
    handler_reachable hmac sha3 ops txs_of (fst (handle_block_validated hmac sha3 ops current msg h))"
| hr_proof: "handler_reachable hmac sha3 ops txs_of h \<Longrightarrow>
    handler_reachable hmac sha3 ops txs_of (fst (handle_merkle_proof_request hmac ops current now m h))"
| hr_location: "handler_reachable hmac sha3 ops txs_of h \<Longrightarrow>
    handler_reachable hmac sha3 ops txs_of (fst (handle_transaction_location_request hmac current now m h))"

lemma reachable_index_ok:
  assumes "handler_reachable hmac sha3 ops txs_of h" and laws: "lru_laws ops"
  shows "index_ok sha3 ops txs_of (hd_index h)"
  using assms(1)
proof (induction rule: handler_reachable.induct)
  case (hr_start cfg secret)
  then show ?case by (simp add: new_handler_def new_index_def index_ok_def lruD(1) [OF laws])
next
  case (hr_block h msg current)
  obtain h' r where res: "handle_block_validated hmac sha3 ops current msg h = (h', r)" by (cases "handle_block_validated hmac sha3 ops current msg h")
  then show ?case
    using hr_block block_index_ok [OF laws hr_block.IH]
    by (cases rule: handle_block_validated_cases [OF res]) auto
next
  case (hr_proof h current now m)
  then show ?case by (simp add: proof_request_index laws)
next
  case (hr_location h current now m)
  then show ?case
    by (auto simp: handle_transaction_location_request_def Let_def split: prod.splits outcome.splits)
qed

section \<open>Properties\<close>

text \<open>
  C21. Every proof the index serves is right: whatever blocks and requests the handler has processed,
  a proof it returns for a transaction hash has that hash as its leaf, carries the Merkle root
  recorded for the transaction's block, and verifies against it. (A block hash
  identifies the transactions of its block, and the cache never returns a tree it was not given.)
\<close>

theorem served_proof_is_valid:
  assumes "handler_reachable hmac sha3 ops txs_of h" and "lru_laws ops"
    and "handle_merkle_proof_request hmac ops current now msg h = (h', Ok r)" and "pr_proof (im_payload r) = Some p"
  shows "mp_leaf_hash p = im_payload msg \<and> verify_proof_static sha3 (im_payload msg) (mp_path p) (mp_root p) \<and>
    (\<exists>loc. get_location (im_payload msg) (hd_index h) = Some loc \<and> mp_root p = tl_merkle_root loc \<and>
       mp_block_hash p = tl_block_hash loc \<and> mp_tx_index p = tl_tx_index loc)"
proof -
  have ok: "index_ok sha3 ops txs_of (hd_index h)" using reachable_index_ok assms(1, 2) by blast
  from assms(3, 4) obtain loc t where loc: "get_location (im_payload msg) (hd_index h) = Some loc"
    and t: "snd (lru_get ops (tl_block_hash loc) (ti_trees (hd_index h))) = Some t"
    and p: "generate_proof t (tl_tx_index loc) (tl_block_height loc) (tl_block_hash loc) = Ok p"
    by (rule proof_request_cases)
  have tree: "tree_of sha3 (txs_of (tl_block_hash loc)) t" and lok: "location_ok sha3 txs_of (im_payload msg) loc"
    using ok loc t by (auto simp: index_ok_def get_location_def)
  then obtain t' where "tree_of sha3 (txs_of (tl_block_hash loc)) t'" "mt_root t' = tl_merkle_root loc"
    by (auto simp: location_ok_def)
  with tree have root: "mt_root t = tl_merkle_root loc" using tree_of_unique by blast
  have idx: "tl_tx_index loc < length (txs_of (tl_block_hash loc))" using lok by (simp add: location_ok_def)
  from generate_proof_ok [OF tree idx, of "tl_block_height loc" "tl_block_hash loc"] p lok loc root show ?thesis
    by (auto simp: location_ok_def)
qed

text \<open>
  A block that was indexed can be proved: right after \<open>handle_block_validated\<close> has answered
  with a Merkle root, an accepted proof request for any transaction of the block yields a proof of that
  transaction against exactly this root.
\<close>

theorem indexed_block_can_be_proved:
  assumes "lru_laws ops"
    and "handle_block_validated hmac sha3 ops current bmsg h = (h1, Ok root)"
    and "tx \<in> set (vb_transactions (bv_block (im_payload bmsg)))" and "im_payload msg = vt_tx_hash tx"
    and "validate hmac current' msg (hd_validator h1) = (v, Ok ())"
    and "is_proofs_generated (ti_stats (hd_index h1)) < - 1"
  shows "\<exists>h2 r p. handle_merkle_proof_request hmac ops current' now msg h1 = (h2, Ok r) \<and>
    pr_proof (im_payload r) = Some p \<and> mp_leaf_hash p = vt_tx_hash tx \<and> mp_root p = mr_merkle_root root \<and>
    verify_proof_static sha3 (vt_tx_hash tx) (mp_path p) (mr_merkle_root root)"
proof -
  let ?hs = "map vt_tx_hash (vb_transactions (bv_block (im_payload bmsg)))"
  let ?bh = "bv_block_hash (im_payload bmsg)" and ?height = "bv_block_height (im_payload bmsg)"
  obtain t ix where t: "tree_of sha3 ?hs t" and all: "index_all ?height ?bh (mt_root t) 0 ?hs (hd_index h) = Some ix"
    and h1: "hd_index h1 = cache_tree ops ?bh t ix" and root: "mr_merkle_root root = mt_root t"
    by (cases rule: handle_block_validated_cases [OF assms(2)]) auto
  have "vt_tx_hash tx \<in> set ?hs" using assms(3) by simp
  then obtain i where i: "i < length ?hs" "?hs ! i = vt_tx_hash tx" "map_of (ti_locations ix) (vt_tx_hash tx) =
      Some \<lparr>tl_block_height = ?height, tl_block_hash = ?bh, tl_tx_index = i, tl_merkle_root = mt_root t\<rparr>"
    using index_all_Some [OF all] by (metis add_0)
  obtain p where p: "generate_proof t i ?height ?bh = Ok p" "mp_leaf_hash p = vt_tx_hash tx" "mp_root p = mt_root t"
    "verify_proof_static sha3 (vt_tx_hash tx) (mp_path p) (mt_root t)"
    using generate_proof_ok [OF t i(1), of ?height ?bh] i(2) by auto
  have "unat (is_proofs_generated (ti_stats ix)) + 1 < 2 ^ 64"
    using assms(6) unfolding h1 by (simp add: word_less_nat_alt unat_max_word)
  then have "checked_add (is_proofs_generated (ti_stats ix)) 1 = Some (is_proofs_generated (ti_stats ix) + 1)"
    by (simp add: checked_add_def)
  then show ?thesis
    using assms(4, 5) i(3) p root lruD(2) [OF assms(1), of ?bh t "ti_trees ix"]
    by (auto simp: handle_merkle_proof_request_def Let_def h1 get_location_def get_tree_def
        record_proof_generated_def im_response_def split: prod.splits)
qed

section \<open>Examples\<close>

text \<open>A least-recently-used cache as a list with the most recent entry first.\<close>

definition list_lru :: "(nat \<times> (hash \<times> merkle_tree) list) lru_ops" where
  "list_lru =
     \<lparr>lru_new = (\<lambda>n. (n, [])),
      lru_put = (\<lambda>k v (n, xs). (n, (k, v) # take (n - 1) (AList.delete k xs))),
      lru_get = (\<lambda>k (n, xs). case map_of xs k of
         None \<Rightarrow> ((n, xs), None)
       | Some v \<Rightarrow> ((n, (k, v) # AList.delete k xs), Some v)),
      lru_len = (\<lambda>(n, xs). length xs)\<rparr>"

lemma map_of_take: "map_of (take n xs) k = Some v \<Longrightarrow> map_of xs k = Some v"
  by (induction xs arbitrary: n) (auto simp: take_Cons split: nat.splits if_splits)

lemma list_lru_laws: "lru_laws list_lru"
  by (auto simp: lru_laws_def list_lru_def delete_conv' split: option.splits prod.splits if_splits dest!: map_of_take)

definition sample_block :: validated_block where
  "sample_block =
     (let tx = \<lparr>tr_from = 1, tr_to = None, tr_value = 0, tr_nonce = 0, tr_data = [], tr_signature = []\<rparr> in
      \<lparr>vb_header = \<lparr>bh_version = 1, bh_height = 4, bh_parent_hash = 0, bh_merkle_root = 0, bh_state_root = 0,
         bh_timestamp = 0, bh_proposer = 0, bh_difficulty = 0, bh_nonce = 0\<rparr>,
       vb_transactions = [\<lparr>vt_inner = tx, vt_tx_hash = 5\<rparr>, \<lparr>vt_inner = tx, vt_tx_hash = 6\<rparr>],
       vb_consensus_proof = \<lparr>cpf_block_hash = 9, cpf_attestations = [], cpf_total_stake = 0\<rparr>\<rparr>)"

definition sample_msg :: "u8 \<Rightarrow> u64 \<Rightarrow> 'a \<Rightarrow> 'a index_message" where
  "sample_msg sender nonce p =
     \<lparr>im_version = 1, im_correlation_id = [], im_reply_to = None, im_sender_id = sender, im_recipient_id = 3,
      im_timestamp = 1000, im_nonce = nonce, im_signature = [], im_payload = p\<rparr>"

lemma sample_msg_payload [simp]: "im_payload (sample_msg s n p) = p"
  by (simp add: sample_msg_def)

definition sample_start :: "(nat \<times> (hash \<times> merkle_tree) list) indexing_handler" where
  "sample_start = new_handler list_lru \<lparr>max_cached_trees = 10, persist_index = False\<rparr> []"

definition sample_indexed :: "(nat \<times> (hash \<times> merkle_tree) list) indexing_handler" where
  "sample_indexed = fst (handle_block_validated (\<lambda>_ _. []) toy_sha3 list_lru 1000
     (sample_msg 8 1 \<lparr>bv_block = sample_block, bv_block_hash = 9, bv_block_height = 4\<rparr>) sample_start)"

lemma sample_validate:
  "ev_subsystem_id v = 3 \<Longrightarrow> ev_timestamp_window_secs v = 60 \<Longrightarrow> n \<notin> set (ev_nonce_cache v) \<Longrightarrow>
   validate (\<lambda>_ _. []) 1000 (sample_msg s n p) v = (v\<lparr>ev_nonce_cache := n # ev_nonce_cache v\<rparr>, Ok ())"
  by (simp add: validate_def sample_msg_def checked_add_def saturating_sub_def verify_signature_def Let_def)

lemma sample_indexing:
  "handle_block_validated (\<lambda>_ _. []) toy_sha3 list_lru 1000
     (sample_msg 8 1 \<lparr>bv_block = sample_block, bv_block_hash = 9, bv_block_height = 4\<rparr>) sample_start =
   (sample_indexed, Ok \<lparr>mr_block_hash = 9, mr_block_height = 4, mr_merkle_root = hash_pair toy_sha3 5 6,
      mr_transaction_count = 2\<rparr>)" (is ?eval)
  and sample_indexed_validator: "ev_subsystem_id (hd_validator sample_indexed) = 3"
    "ev_timestamp_window_secs (hd_validator sample_indexed) = 60" "ev_nonce_cache (hd_validator sample_indexed) = [1]"
  and sample_indexed_index:
    "ti_locations (hd_index sample_indexed) =
      [(5, \<lparr>tl_block_height = 4, tl_block_hash = 9, tl_tx_index = 0, tl_merkle_root = hash_pair toy_sha3 5 6\<rparr>),
       (6, \<lparr>tl_block_height = 4, tl_block_hash = 9, tl_tx_index = 1, tl_merkle_root = hash_pair toy_sha3 5 6\<rparr>)]"
    "snd (lru_get list_lru 9 (ti_trees (hd_index sample_indexed))) =
      Some \<lparr>mt_nodes = [hash_pair toy_sha3 5 6, 5, 6], mt_transaction_count = 2, mt_padded_leaf_count = 2,
        mt_root = hash_pair toy_sha3 5 6\<rparr>"
  and sample_indexed_stats: "is_proofs_generated (ti_stats (hd_index sample_indexed)) = 0"
  unfolding sample_indexed_def handle_block_validated_def
  by (simp_all add: sample_validate sample_start_def new_handler_def new_validator_def TRANSACTION_INDEXING_def)
     (simp_all add: sample_msg_def validate_sender_def CONSENSUS_ID_def sample_block_def Let_def build_two
       put_location_def new_index_def default_stats_def checked_add_def cache_tree_def list_lru_def)

lemma sample_served:
  "\<exists>h2 r p. handle_merkle_proof_request (\<lambda>_ _. []) list_lru 1000 1000 (sample_msg 2 7 6) sample_indexed = (h2, Ok r) \<and>
     pr_proof (im_payload r) = Some p"
proof -
  have "map_of (ti_locations (hd_index sample_indexed)) 6 =
      Some \<lparr>tl_block_height = 4, tl_block_hash = 9, tl_tx_index = 1, tl_merkle_root = hash_pair toy_sha3 5 6\<rparr>"
    and "snd (lru_get list_lru 9 (ti_trees (hd_index sample_indexed))) =
      Some \<lparr>mt_nodes = [hash_pair toy_sha3 5 6, 5, 6], mt_transaction_count = 2, mt_padded_leaf_count = 2,
        mt_root = hash_pair toy_sha3 5 6\<rparr>"
    using sample_indexing
    by (simp_all add: sample_indexed_index)
  then show ?thesis
    by (auto simp: handle_merkle_proof_request_def Let_def sample_validate sample_indexed_validator get_location_def
      get_tree_def record_proof_generated_def sample_indexed_stats checked_add_def im_response_def generate_proof_def
      arr_get_def collect_path.simps sibling_of_def split: prod.splits)
qed

theorem indexed_block_can_be_proved_witness:
  "\<exists>h2 r p. handle_merkle_proof_request (\<lambda>_ _. []) list_lru 1000 1000 (sample_msg 2 7 6) sample_indexed = (h2, Ok r) \<and>
     pr_proof (im_payload r) = Some p \<and> mp_leaf_hash p = 6 \<and>
     verify_proof_static toy_sha3 6 (mp_path p) (hash_pair toy_sha3 5 6)"
proof -
  have tx: "(vb_transactions sample_block) ! 1 \<in> set (vb_transactions sample_block)" "vt_tx_hash ((vb_transactions sample_block) ! 1) = 6"
    by (simp_all add: sample_block_def Let_def)
  have "\<exists>h2 r p. handle_merkle_proof_request (\<lambda>_ _. []) list_lru 1000 1000 (sample_msg 2 7 6) sample_indexed = (h2, Ok r) \<and>
    pr_proof (im_payload r) = Some p \<and> mp_leaf_hash p = vt_tx_hash (vb_transactions sample_block ! 1) \<and> mp_root p = hash_pair toy_sha3 5 6 \<and>
    verify_proof_static toy_sha3 (vt_tx_hash (vb_transactions sample_block ! 1)) (mp_path p) (hash_pair toy_sha3 5 6)"
    using indexed_block_can_be_proved [OF list_lru_laws sample_indexing, where tx = "vb_transactions sample_block ! 1"
        and msg = "sample_msg 2 7 6" and current' = 1000 and now = 1000] tx
    by (simp add: sample_validate sample_indexed_validator sample_indexed_stats word_less_nat_alt unat_max_word)
  then show ?thesis unfolding tx(2) by blast
qed

theorem served_proof_is_valid_witness:
  "\<exists>h2 r p. handle_merkle_proof_request (\<lambda>_ _. []) list_lru 1000 1000 (sample_msg 2 7 6) sample_indexed = (h2, Ok r) \<and>
     pr_proof (im_payload r) = Some p \<and> mp_leaf_hash p = 6 \<and> verify_proof_static toy_sha3 6 (mp_path p) (mp_root p)"
proof -
  have r: "handler_reachable (\<lambda>_ _. []) toy_sha3 list_lru (\<lambda>_. [5, 6]) sample_indexed"
    unfolding sample_indexed_def sample_start_def
    by (intro hr_block hr_start) (simp add: sample_msg_def sample_block_def Let_def)
  have "\<exists>h2 r p. handle_merkle_proof_request (\<lambda>_ _. []) list_lru 1000 1000 (sample_msg 2 7 6) sample_indexed = (h2, Ok r) \<and>
     pr_proof (im_payload r) = Some p"
    using sample_served by blast
  with served_proof_is_valid [OF r list_lru_laws] show ?thesis by (fastforce simp: sample_msg_def)
qed

end
