(* ===== verification/FinalityGadget.thy ===== *)
theory FinalityGadget
  imports Containers SharedTypes
begin

unbundle bit_operations_syntax

text \<open>
  The Casper-style finality gadget: checkpoints, attestations, validator sets and the circuit
  breaker of \<^verbatim>\<open>qc-09-finality/src/domain\<close>, the state of \<^verbatim>\<open>src/state.rs\<close> and the service
  of \<^verbatim>\<open>src/service.rs\<close>.

  The signature verifier, the validator set provider and the answer of block storage are
  ports of the service and are parameters of the model. The lock around the state is taken once
  per step and is not modelled; log output is dropped. A panic is \<open>None\<close>.
\<close>

section \<open>Checkpoints\<close>

type_synonym validator_id = "256 word"

record checkpoint_id =
  ci_epoch :: u64
  ci_block_hash :: hash

datatype checkpoint_state = CpPending | CpJustified | CpFinalized

record checkpoint =
  cp_epoch :: u64
  cp_block_hash :: hash
  cp_block_height :: u64
  cp_state :: checkpoint_state
  cp_attested_stake :: u128
  cp_total_stake :: u128

definition new_checkpoint :: "u64 \<Rightarrow> hash \<Rightarrow> u64 \<Rightarrow> checkpoint" where
  "new_checkpoint epoch block_hash block_height =
     \<lparr>cp_epoch = epoch, cp_block_hash = block_hash, cp_block_height = block_height, cp_state = CpPending,
      cp_attested_stake = 0, cp_total_stake = 0\<rparr>"

definition with_total_stake :: "u128 \<Rightarrow> checkpoint \<Rightarrow> checkpoint" where
  "with_total_stake stake cp = cp\<lparr>cp_total_stake := stake\<rparr>"

definition checkpoint_ident :: "checkpoint \<Rightarrow> checkpoint_id" where
  "checkpoint_ident cp = \<lparr>ci_epoch = cp_epoch cp, ci_block_hash = cp_block_hash cp\<rparr>"

definition is_justified :: "checkpoint \<Rightarrow> bool" where
  "is_justified cp \<longleftrightarrow> cp_state cp \<noteq> CpPending"

definition is_finalized :: "checkpoint \<Rightarrow> bool" where
  "is_finalized cp \<longleftrightarrow> cp_state cp = CpFinalized"

definition required_of :: "u128 \<Rightarrow> u128" where
  "required_of stake =
     (case checked_mul stake 2 of
        Some v \<Rightarrow> v div 3 + 1
      | None \<Rightarrow> saturating_add (saturating_mul (stake div 3) 2) 1)"

definition check_justification_threshold :: "checkpoint \<Rightarrow> bool" where
  "check_justification_threshold cp \<longleftrightarrow>
     (if cp_total_stake cp = 0 then False else required_of (cp_total_stake cp) \<le> cp_attested_stake cp)"

text \<open>The threshold test that \<open>add_attestation_stake\<close> returns is dropped by its only caller.\<close>

definition add_attestation_stake :: "u128 \<Rightarrow> checkpoint \<Rightarrow> checkpoint" where
  "add_attestation_stake stake cp = cp\<lparr>cp_attested_stake := saturating_add (cp_attested_stake cp) stake\<rparr>"

definition try_justify :: "checkpoint \<Rightarrow> checkpoint \<times> bool" where
  "try_justify cp =
     (if cp_state cp = CpPending \<and> check_justification_threshold cp
      then (cp\<lparr>cp_state := CpJustified\<rparr>, True) else (cp, False))"

definition finalize :: "checkpoint \<Rightarrow> checkpoint \<times> bool" where
  "finalize cp =
     (if cp_state cp = CpJustified then (cp\<lparr>cp_state := CpFinalized\<rparr>, True) else (cp, False))"

section \<open>Attestations\<close>

record attestation =
  at_validator_id :: validator_id
  at_source :: checkpoint_id
  at_target :: checkpoint_id
  at_signature :: "u8 list"
  at_slot :: u64

definition conflicts_with :: "attestation \<Rightarrow> attestation \<Rightarrow> bool" where
  "conflicts_with a b =
     (if at_validator_id a \<noteq> at_validator_id b then False
      else if ci_epoch (at_target a) = ci_epoch (at_target b) \<and>
              ci_block_hash (at_target a) \<noteq> ci_block_hash (at_target b) then True
      else if ci_epoch (at_source a) < ci_epoch (at_source b) \<and>
              ci_epoch (at_target b) < ci_epoch (at_target a) then True
      else if ci_epoch (at_source b) < ci_epoch (at_source a) \<and>
              ci_epoch (at_target a) < ci_epoch (at_target b) then True
      else False)"

record aggregated_attestations =
  ag_source :: checkpoint_id
  ag_target :: checkpoint_id
  ag_attestations :: "attestation list"
  ag_bitmap :: "bool list"
  ag_aggregate_signature :: "u8 list option"
  ag_total_stake :: u128

definition new_aggregated :: "checkpoint_id \<Rightarrow> checkpoint_id \<Rightarrow> usize \<Rightarrow> aggregated_attestations" where
  "new_aggregated source target validator_count =
     \<lparr>ag_source = source, ag_target = target, ag_attestations = [],
      ag_bitmap = replicate validator_count False, ag_aggregate_signature = None, ag_total_stake = 0\<rparr>"

definition add_attestation :: "attestation \<Rightarrow> usize \<Rightarrow> u128 \<Rightarrow> aggregated_attestations \<Rightarrow> aggregated_attestations" where
  "add_attestation a validator_index stake agg =
     agg\<lparr>ag_bitmap := (if validator_index < length (ag_bitmap agg)
                       then (ag_bitmap agg)[validator_index := True] else ag_bitmap agg),
         ag_attestations := ag_attestations agg @ [a],
         ag_total_stake := saturating_add (ag_total_stake agg) stake\<rparr>"

definition has_attested :: "usize \<Rightarrow> aggregated_attestations \<Rightarrow> bool" where
  "has_attested i agg = (if i < length (ag_bitmap agg) then ag_bitmap agg ! i else False)"

section \<open>Validators\<close>

record validator =
  va_id :: validator_id
  va_stake :: u128
  va_index :: usize
  va_active :: bool
  va_pubkey :: "u8 list"

definition validator_new :: "validator_id \<Rightarrow> u128 \<Rightarrow> usize \<Rightarrow> validator" where
  "validator_new i stake index =
     \<lparr>va_id = i, va_stake = stake, va_index = index, va_active = True,
      va_pubkey = be_bytes 32 i @ replicate 16 0\<rparr>"

record validator_set =
  vs_validators :: "(validator_id \<times> validator) list"
  vs_index_to_id :: "validator_id list"
  vs_total_stake :: u128
  vs_epoch :: u64

definition new_validator_set :: "u64 \<Rightarrow> validator_set" where
  "new_validator_set epoch = \<lparr>vs_validators = [], vs_index_to_id = [], vs_total_stake = 0, vs_epoch = epoch\<rparr>"

definition add_validator :: "validator_id \<Rightarrow> u128 \<Rightarrow> validator_set \<Rightarrow> validator_set" where
  "add_validator i stake vs =
     vs\<lparr>vs_validators := AList.update i
          (validator_new i stake (length (vs_index_to_id vs))) (vs_validators vs),
        vs_index_to_id := vs_index_to_id vs @ [i],
        vs_total_stake := saturating_add (vs_total_stake vs) stake\<rparr>"

definition vs_get_index :: "validator_id \<Rightarrow> validator_set \<Rightarrow> usize option" where
  "vs_get_index i vs = map_option va_index (map_of (vs_validators vs) i)"

definition vs_get_stake :: "validator_id \<Rightarrow> validator_set \<Rightarrow> u128 option" where
  "vs_get_stake i vs = map_option va_stake (map_of (vs_validators vs) i)"

definition vs_contains :: "validator_id \<Rightarrow> validator_set \<Rightarrow> bool" where
  "vs_contains i vs \<longleftrightarrow> map_of (vs_validators vs) i \<noteq> None"

definition vs_len :: "validator_set \<Rightarrow> usize" where
  "vs_len vs = length (vs_validators vs)"

definition required_stake :: "validator_set \<Rightarrow> u128" where
  "required_stake vs = required_of (vs_total_stake vs)"

section \<open>Circuit breaker\<close>

datatype finality_state = Running | Sync u8 | HaltedAwaitingIntervention

datatype finality_event = FinalityAchieved | FinalityFailed | SyncSuccess | SyncFailed | ManualIntervention

record circuit_breaker =
  cb_state :: finality_state
  cb_max_sync_attempts :: u8
  cb_consecutive_failures :: u64
  cb_intervention_count :: u64

definition new_breaker :: circuit_breaker where
  "new_breaker = \<lparr>cb_state = Running, cb_max_sync_attempts = 3, cb_consecutive_failures = 0, cb_intervention_count = 0\<rparr>"

definition cb_is_halted :: "circuit_breaker \<Rightarrow> bool" where
  "cb_is_halted cb \<longleftrightarrow> cb_state cb = HaltedAwaitingIntervention"

text \<open>\<open>attempt + 1\<close> cannot overflow: it is only computed below the maximum.\<close>

fun next_state :: "u8 \<Rightarrow> finality_state \<Rightarrow> finality_event \<Rightarrow> finality_state" where
  "next_state m Running FinalityAchieved = Running"
| "next_state m Running FinalityFailed = Sync 1"
| "next_state m (Sync a) SyncSuccess = Running"
| "next_state m (Sync a) SyncFailed = (if m \<le> a then HaltedAwaitingIntervention else Sync (a + 1))"
| "next_state m HaltedAwaitingIntervention ManualIntervention = Running"
| "next_state m s e = s"

definition process_event :: "finality_event \<Rightarrow> circuit_breaker \<Rightarrow> circuit_breaker option" where
  "process_event e cb =
     (let s = next_state (cb_max_sync_attempts cb) (cb_state cb) e in
      map_option (\<lambda>c. c\<lparr>cb_state := s\<rparr>)
        (case e of
           FinalityFailed \<Rightarrow> map_option (\<lambda>n. cb\<lparr>cb_consecutive_failures := n\<rparr>) (checked_add (cb_consecutive_failures cb) 1)
         | SyncFailed \<Rightarrow> map_option (\<lambda>n. cb\<lparr>cb_consecutive_failures := n\<rparr>) (checked_add (cb_consecutive_failures cb) 1)
         | FinalityAchieved \<Rightarrow> Some (cb\<lparr>cb_consecutive_failures := 0\<rparr>)
         | SyncSuccess \<Rightarrow> Some (cb\<lparr>cb_consecutive_failures := 0\<rparr>)
         | ManualIntervention \<Rightarrow>
             map_option (\<lambda>n. cb\<lparr>cb_intervention_count := n, cb_consecutive_failures := 0\<rparr>)
               (checked_add (cb_intervention_count cb) 1)))"

section \<open>Service state\<close>

datatype offense_type = DoubleVote | SurroundVote

record slashable_offense =
  so_validator_id :: validator_id
  so_offense_type :: offense_type
  so_attestation1 :: attestation
  so_attestation2 :: attestation
  so_detected_epoch :: u64

record slashing_event =
  se_validator_id :: validator_id
  se_offense_type :: offense_type
  se_att1_source :: checkpoint_id
  se_att1_target :: checkpoint_id
  se_att2_source :: checkpoint_id
  se_att2_target :: checkpoint_id
  se_detected_epoch :: u64
  se_recommended_slash_percent :: u8

record inactivity_event =
  ie_epoch :: u64
  ie_epochs_without_finality :: u64
  ie_leak_rate_bps :: u32

record finality_config =
  fc_epoch_length :: u64
  fc_justification_threshold_percent :: u8
  fc_max_sync_attempts :: u8
  fc_sync_timeout_secs :: u64
  fc_inactivity_leak_epochs :: u64
  fc_inactivity_leak_rate_bps :: u32
  fc_always_reverify_signatures :: bool

definition default_finality_config :: finality_config where
  "default_finality_config =
     \<lparr>fc_epoch_length = 32, fc_justification_threshold_percent = 66, fc_max_sync_attempts = 10,
      fc_sync_timeout_secs = 5, fc_inactivity_leak_epochs = 4, fc_inactivity_leak_rate_bps = 100,
      fc_always_reverify_signatures = False\<rparr>"

record service_state =
  ss_circuit_breaker :: circuit_breaker
  ss_checkpoints :: "(u64 \<times> checkpoint) list"
  ss_attestations :: "(checkpoint_id \<times> aggregated_attestations) list"
  ss_finalized_blocks :: "(hash \<times> u64) list"
  ss_last_finalized :: "checkpoint option"
  ss_last_justified :: "checkpoint option"
  ss_current_epoch :: u64
  ss_current_height :: u64
  ss_epochs_without_finality :: u64
  ss_attestation_history :: "(validator_id \<times> attestation list) list"
  ss_slashable_offenses :: "slashable_offense list"
  ss_pending_slashing_events :: "slashing_event list"
  ss_pending_inactivity_events :: "inactivity_event list"
  ss_max_checkpoints :: usize

definition new_service_state :: service_state where
  "new_service_state =
     \<lparr>ss_circuit_breaker = new_breaker, ss_checkpoints = [], ss_attestations = [], ss_finalized_blocks = [],
      ss_last_finalized = None, ss_last_justified = None, ss_current_epoch = 0, ss_current_height = 0,
      ss_epochs_without_finality = 0, ss_attestation_history = [], ss_slashable_offenses = [],
      ss_pending_slashing_events = [], ss_pending_inactivity_events = [], ss_max_checkpoints = 128\<rparr>"

definition is_inactivity_leak_active :: "finality_config \<Rightarrow> service_state \<Rightarrow> bool" where
  "is_inactivity_leak_active cfg s \<longleftrightarrow> fc_inactivity_leak_epochs cfg \<le> ss_epochs_without_finality s"

definition prune_old_checkpoints :: "service_state \<Rightarrow> service_state" where
  "prune_old_checkpoints s =
     (if length (ss_checkpoints s) \<le> ss_max_checkpoints s then s
      else
        (let last_finalized_epoch = (case ss_last_finalized s of Some c \<Rightarrow> cp_epoch c | None \<Rightarrow> 0);
             min_keep_epoch = saturating_sub last_finalized_epoch 2 in
         s\<lparr>ss_checkpoints := filter (\<lambda>(epoch, _). min_keep_epoch \<le> epoch) (ss_checkpoints s),
           ss_attestations := filter (\<lambda>(i, _). min_keep_epoch \<le> ci_epoch i) (ss_attestations s)\<rparr>))"

definition take_slashing_events :: "service_state \<Rightarrow> service_state \<times> slashing_event list" where
  "take_slashing_events s = (s\<lparr>ss_pending_slashing_events := []\<rparr>, ss_pending_slashing_events s)"

definition take_inactivity_events :: "service_state \<Rightarrow> service_state \<times> inactivity_event list" where
  "take_inactivity_events s = (s\<lparr>ss_pending_inactivity_events := []\<rparr>, ss_pending_inactivity_events s)"

definition MAX_HISTORY :: nat where "MAX_HISTORY = 64"

definition history_of :: "service_state \<Rightarrow> validator_id \<Rightarrow> attestation list" where
  "history_of s v = (case map_of (ss_attestation_history s) v of None \<Rightarrow> [] | Some h \<Rightarrow> h)"

definition record_attestation :: "attestation \<Rightarrow> service_state \<Rightarrow> service_state" where
  "record_attestation a s =
     (let history = history_of s (at_validator_id a) in
      s\<lparr>ss_attestation_history := AList.update (at_validator_id a)
          (drop (length history - (MAX_HISTORY - 1)) history @ [a]) (ss_attestation_history s)\<rparr>)"

definition get_or_create_checkpoint :: "checkpoint \<Rightarrow> u128 \<Rightarrow> service_state \<Rightarrow> service_state \<times> checkpoint" where
  "get_or_create_checkpoint target stake s =
     (case map_of (ss_checkpoints s) (cp_epoch target) of
        Some cp \<Rightarrow> (s, cp)
      | None \<Rightarrow>
          (let cp = with_total_stake stake (new_checkpoint (cp_epoch target) (cp_block_hash target) 0) in
           (s\<lparr>ss_checkpoints := AList.update (cp_epoch target) cp (ss_checkpoints s)\<rparr>, cp)))"

definition get_or_create_aggregate :: "attestation \<Rightarrow> usize \<Rightarrow> service_state \<Rightarrow> service_state \<times> aggregated_attestations" where
  "get_or_create_aggregate a validator_count s =
     (case map_of (ss_attestations s) (at_target a) of
        Some agg \<Rightarrow> (s, agg)
      | None \<Rightarrow>
          (let agg = new_aggregated (at_source a) (at_target a) validator_count in
           (s\<lparr>ss_attestations := AList.update (at_target a) agg (ss_attestations s)\<rparr>, agg)))"

definition count_stake :: "u64 \<Rightarrow> u128 \<Rightarrow> service_state \<Rightarrow> service_state \<times> bool \<times> checkpoint option" where
  "count_stake target_epoch stake s =
     (case map_of (ss_checkpoints s) target_epoch of
        None \<Rightarrow> (s, True, None)
      | Some cp \<Rightarrow>
          (case try_justify (add_attestation_stake stake cp) of
             (cp', justified) \<Rightarrow>
               (let s' = s\<lparr>ss_checkpoints := AList.update target_epoch cp' (ss_checkpoints s)\<rparr> in
                if justified then (s'\<lparr>ss_last_justified := Some cp'\<rparr>, True, Some cp') else (s', True, None))))"

definition apply_attestation :: "attestation \<Rightarrow> validator_set \<Rightarrow> u128 \<Rightarrow> service_state \<Rightarrow>
    service_state \<times> bool \<times> checkpoint option" where
  "apply_attestation a vs stake s =
     (let s1 = record_attestation a s;
          target = at_target a;
          s2 = fst (get_or_create_checkpoint (new_checkpoint (ci_epoch target) (ci_block_hash target) 0)
                  (vs_total_stake vs) s1) in
      case get_or_create_aggregate a (vs_len vs) s2 of
        (s3, agg) \<Rightarrow>
          (case vs_get_index (at_validator_id a) vs of
             None \<Rightarrow> (s3, False, None)
           | Some idx \<Rightarrow>
               if has_attested idx agg then (s3, False, None)
               else
                 count_stake (ci_epoch target) stake
                   (s3\<lparr>ss_attestations := AList.update target (add_attestation a idx stake agg) (ss_attestations s3)\<rparr>)))"

section \<open>Finality proofs\<close>

text \<open>\<open>aggregate_bls_signatures\<close> is the source's byte-wise exclusive or; \<open>pack_bits\<close> is the
  byte vector of a bit vector with the most significant bit first.\<close>

definition xor_into :: "u8 list \<Rightarrow> u8 list \<Rightarrow> u8 list" where
  "xor_into sig acc = map (\<lambda>i. if i < length sig then (acc ! i) XOR (sig ! i) else acc ! i) [0..<length acc]"

definition aggregate_bls_signatures :: "attestation list \<Rightarrow> u8 list" where
  "aggregate_bls_signatures as =
     (if as = [] then [] else fold (\<lambda>a. xor_into (at_signature a)) as (replicate 96 0))"

fun pack_bits :: "bool list \<Rightarrow> u8 list" where
  "pack_bits [] = []"
| "pack_bits (b # bs) =
     (let byte = take 8 (b # bs) in
      foldl (\<lambda>w x. 2 * w + (if x then 1 else 0)) 0 (byte @ replicate (8 - length byte) False)
      # pack_bits (drop 7 bs))"

record finality_proof =
  fp_source :: "u64 \<times> hash \<times> u64"
  fp_target :: "u64 \<times> hash \<times> u64"
  fp_aggregate_signature :: "u8 list"
  fp_participation_bitmap :: "u8 list"
  fp_participating_stake :: u128
  fp_total_stake :: u128

definition proof_checkpoint :: "checkpoint \<Rightarrow> u64 \<times> hash \<times> u64" where
  "proof_checkpoint cp = (cp_epoch cp, cp_block_hash cp, cp_block_height cp)"

record mark_finalized_request =
  mf_correlation_id :: uuid
  mf_block_hash :: hash
  mf_block_height :: u64
  mf_finalized_epoch :: u64
  mf_finality_proof :: finality_proof

definition notify_finalization :: "uuid \<Rightarrow> checkpoint \<Rightarrow> service_state \<Rightarrow> mark_finalized_request" where
  "notify_finalization corr cp s =
     (let source = (case map_of (ss_checkpoints s) (saturating_sub (cp_epoch cp) 1) of Some c \<Rightarrow> c | None \<Rightarrow> cp);
          (sig, bitmap) = (case map_of (ss_attestations s) (checkpoint_ident cp) of
             Some agg \<Rightarrow> (aggregate_bls_signatures (ag_attestations agg), ag_bitmap agg)
           | None \<Rightarrow> ([], [])) in
      \<lparr>mf_correlation_id = corr, mf_block_hash = cp_block_hash cp, mf_block_height = cp_block_height cp,
       mf_finalized_epoch = cp_epoch cp,
       mf_finality_proof =
         \<lparr>fp_source = proof_checkpoint source, fp_target = proof_checkpoint cp, fp_aggregate_signature = sig,
          fp_participation_bitmap = pack_bits bitmap, fp_participating_stake = cp_attested_stake cp,
          fp_total_stake = cp_total_stake cp\<rparr>\<rparr>)"

section \<open>Service\<close>

datatype finality_error =
    SystemHalted
  | FeInvalidSignature validator_id
  | UnknownValidator validator_id
  | UnknownCheckpoint u64
  | ConflictingAttestation
  | CheckpointNotFound u64
  | FeUnauthorizedSender u8
  | IpcSecurityViolation string
  | InsufficientAttestations u128 u128
  | InvalidTransition string string
  | StakeQueryFailed string
  | FeStorageError string
  | AlreadyFinalized hash
  | EpochMismatch u64 u64

definition record_slashable_offense :: "attestation \<Rightarrow> attestation \<Rightarrow> u64 \<Rightarrow> service_state \<Rightarrow> service_state" where
  "record_slashable_offense a conflicting current_epoch s =
     (let ty = (if ci_epoch (at_target a) = ci_epoch (at_target conflicting) then DoubleVote else SurroundVote) in
      s\<lparr>ss_slashable_offenses := ss_slashable_offenses s @
          [\<lparr>so_validator_id = at_validator_id a, so_offense_type = ty, so_attestation1 = a,
            so_attestation2 = conflicting, so_detected_epoch = current_epoch\<rparr>],
        ss_pending_slashing_events := ss_pending_slashing_events s @
          [\<lparr>se_validator_id = at_validator_id a, se_offense_type = ty, se_att1_source = at_source a,
            se_att1_target = at_target a, se_att2_source = at_source conflicting,
            se_att2_target = at_target conflicting, se_detected_epoch = current_epoch,
            se_recommended_slash_percent = 100\<rparr>]\<rparr>)"

definition check_slashable_conditions :: "attestation \<Rightarrow> service_state \<Rightarrow> service_state \<times> (unit, finality_error) outcome" where
  "check_slashable_conditions a s =
     (case map_of (ss_attestation_history s) (at_validator_id a) of
        None \<Rightarrow> (s, Ok ())
      | Some history \<Rightarrow>
          (case find (conflicts_with a) history of
             None \<Rightarrow> (s, Ok ())
           | Some conflicting \<Rightarrow>
               (record_slashable_offense a conflicting (ci_epoch (at_target a)) s, Err ConflictingAttestation)))"

definition process_single_attestation :: "finality_config \<Rightarrow> (attestation \<Rightarrow> bool) \<Rightarrow> attestation \<Rightarrow> validator_set \<Rightarrow>
    service_state \<Rightarrow> service_state \<times> (u128, finality_error) outcome" where
  "process_single_attestation cfg verifies a vs s =
     (if \<not> vs_contains (at_validator_id a) vs then (s, Err (UnknownValidator (at_validator_id a)))
      else if fc_always_reverify_signatures cfg \<and> \<not> verifies a
      then (s, Err (FeInvalidSignature (at_validator_id a)))
      else
        (case check_slashable_conditions a s of
           (s', Err e) \<Rightarrow> (s', Err e)
         | (s', Panic) \<Rightarrow> (s', Panic)
         | (s', Ok _) \<Rightarrow>
             (case vs_get_stake (at_validator_id a) vs of
                None \<Rightarrow> (s', Err (UnknownValidator (at_validator_id a)))
              | Some stake \<Rightarrow> (s', Ok stake))))"

definition process_attestation_update :: "finality_config \<Rightarrow> (attestation \<Rightarrow> bool) \<Rightarrow> attestation \<Rightarrow> validator_set \<Rightarrow>
    service_state \<Rightarrow> service_state \<times> (checkpoint option) option" where
  "process_attestation_update cfg verifies a vs s =
     (case process_single_attestation cfg verifies a vs s of
        (s', Ok stake) \<Rightarrow>
          (case apply_attestation a vs stake s' of
             (s'', accepted, justified) \<Rightarrow> (s'', if accepted then Some justified else None))
      | (s', _) \<Rightarrow> (s', None))"

fun process_attestation_batch :: "finality_config \<Rightarrow> (attestation \<Rightarrow> bool) \<Rightarrow> attestation list \<Rightarrow> validator_set \<Rightarrow>
    service_state \<Rightarrow> service_state \<times> usize \<times> usize \<times> checkpoint option" where
  "process_attestation_batch cfg verifies [] vs s = (s, 0, 0, None)"
| "process_attestation_batch cfg verifies (a # as) vs s =
     (case process_attestation_update cfg verifies a vs s of
        (s', r) \<Rightarrow>
          (case process_attestation_batch cfg verifies as vs s' of
             (s'', accepted, rejected, justified) \<Rightarrow>
               (case r of
                  None \<Rightarrow> (s'', accepted, Suc rejected, justified)
                | Some None \<Rightarrow> (s'', Suc accepted, rejected, justified)
                | Some (Some cp) \<Rightarrow> (s'', Suc accepted, rejected, if justified = None then Some cp else justified))))"

definition check_finalization :: "service_state \<Rightarrow> service_state \<times> checkpoint option" where
  "check_finalization s =
     (case ss_last_justified s of
        None \<Rightarrow> (s, None)
      | Some last_justified \<Rightarrow>
          (case checked_sub (cp_epoch last_justified) 1 of
             None \<Rightarrow> (s, None)
           | Some prev_epoch \<Rightarrow>
               (case map_of (ss_checkpoints s) prev_epoch of
                  None \<Rightarrow> (s, None)
                | Some prev \<Rightarrow>
                    if is_justified prev
                    then
                      (let finalized = fst (finalize prev) in
                       (s\<lparr>ss_checkpoints := AList.update prev_epoch finalized (ss_checkpoints s),
                          ss_finalized_blocks := AList.update (cp_block_hash finalized) (cp_block_height finalized)
                            (ss_finalized_blocks s),
                          ss_last_finalized := Some finalized\<rparr>, Some finalized))
                    else (s, None))))"

definition check_and_process_finalization :: "finality_config \<Rightarrow> u64 \<Rightarrow> service_state \<Rightarrow>
    (service_state \<times> checkpoint option) option" where
  "check_and_process_finalization cfg current_epoch s =
     (case check_finalization s of
        (s', Some finalized) \<Rightarrow>
          map_option
            (\<lambda>cb. (prune_old_checkpoints (s'\<lparr>ss_epochs_without_finality := 0, ss_circuit_breaker := cb\<rparr>), Some finalized))
            (process_event FinalityAchieved (ss_circuit_breaker s'))
      | (s', None) \<Rightarrow>
          if ss_current_epoch s' \<noteq> current_epoch
          then
            (case checked_add (ss_epochs_without_finality s') 1 of
               None \<Rightarrow> None
             | Some n \<Rightarrow>
                 (let s1 = s'\<lparr>ss_current_epoch := current_epoch, ss_epochs_without_finality := n\<rparr> in
                  Some
                    (if is_inactivity_leak_active cfg s1
                     then s1\<lparr>ss_pending_inactivity_events := ss_pending_inactivity_events s1 @
                       [\<lparr>ie_epoch = current_epoch, ie_epochs_without_finality = n,
                         ie_leak_rate_bps = fc_inactivity_leak_rate_bps cfg\<rparr>]\<rparr>
                     else s1, None)))
          else Some (s', None))"

record attestation_result =
  ar_accepted :: usize
  ar_rejected :: usize
  ar_new_justified :: "checkpoint option"
  ar_new_finalized :: "checkpoint option"
  ar_slashing_events :: "slashing_event list"
  ar_inactivity_events :: "inactivity_event list"

definition handle_finalization_notification :: "(mark_finalized_request \<Rightarrow> bool) \<Rightarrow> uuid \<Rightarrow> checkpoint \<Rightarrow>
    service_state \<Rightarrow> service_state option" where
  "handle_finalization_notification mark_finalized corr finalized s =
     (if mark_finalized (notify_finalization corr finalized s) then Some s
      else map_option (\<lambda>cb. s\<lparr>ss_circuit_breaker := cb\<rparr>) (process_event FinalityFailed (ss_circuit_breaker s)))"

definition process_attestations :: "finality_config \<Rightarrow> (attestation \<Rightarrow> bool) \<Rightarrow>
    (u64 \<Rightarrow> (validator_set, finality_error) outcome) \<Rightarrow> (mark_finalized_request \<Rightarrow> bool) \<Rightarrow> uuid \<Rightarrow> attestation list \<Rightarrow>
    service_state \<Rightarrow> service_state \<times> (attestation_result, finality_error) outcome" where
  "process_attestations cfg verifies provider mark_finalized corr as s =
     (if cb_is_halted (ss_circuit_breaker s) then (s, Err SystemHalted)
      else
        (case as of
           [] \<Rightarrow> (s, Ok \<lparr>ar_accepted = 0, ar_rejected = 0, ar_new_justified = None, ar_new_finalized = None,
                       ar_slashing_events = [], ar_inactivity_events = []\<rparr>)
         | a # _ \<Rightarrow>
             (case provider (ci_epoch (at_target a)) of
                Err e \<Rightarrow> (s, Err e)
              | Panic \<Rightarrow> (s, Panic)
              | Ok vs \<Rightarrow>
                  (case process_attestation_batch cfg verifies as vs s of
                     (s1, accepted, rejected, justified) \<Rightarrow>
                       (case check_and_process_finalization cfg (ci_epoch (at_target a)) s1 of
                          None \<Rightarrow> (s1, Panic)
                        | Some (s2, finalized) \<Rightarrow>
                            (case (case finalized of None \<Rightarrow> Some s2
                                   | Some cp \<Rightarrow> handle_finalization_notification mark_finalized corr cp s2) of
                               None \<Rightarrow> (s2, Panic)
                             | Some s3 \<Rightarrow>
                                 (fst (take_inactivity_events (fst (take_slashing_events s3))),
                                  Ok \<lparr>ar_accepted = accepted, ar_rejected = rejected, ar_new_justified = justified,
                                      ar_new_finalized = finalized,
                                      ar_slashing_events = snd (take_slashing_events s3),
                                      ar_inactivity_events = snd (take_inactivity_events s3)\<rparr>))))))) "

definition service_is_finalized :: "hash \<Rightarrow> service_state \<Rightarrow> bool" where
  "service_is_finalized block_hash s \<longleftrightarrow> map_of (ss_finalized_blocks s) block_hash \<noteq> None"

definition get_finality_lag :: "service_state \<Rightarrow> u64" where
  "get_finality_lag s =
     (let finalized_height = (case ss_last_finalized s of Some c \<Rightarrow> cp_block_height c | None \<Rightarrow> 0) in
      saturating_sub (ss_current_height s) finalized_height)"

definition get_checkpoint :: "u64 \<Rightarrow> service_state \<Rightarrow> checkpoint option" where
  "get_checkpoint epoch s = map_of (ss_checkpoints s) epoch"

definition reset_from_halted :: "service_state \<Rightarrow> service_state option" where
  "reset_from_halted s =
     (if \<not> cb_is_halted (ss_circuit_breaker s) then Some s
      else map_option (\<lambda>cb. s\<lparr>ss_circuit_breaker := cb\<rparr>) (process_event ManualIntervention (ss_circuit_breaker s)))"

section \<open>The justification threshold\<close>

declare take_slashing_events_def [simp] take_inactivity_events_def [simp]


lemma threshold_mono:
  "check_justification_threshold cp \<Longrightarrow> cp_attested_stake cp \<le> a \<Longrightarrow>
   check_justification_threshold (cp\<lparr>cp_attested_stake := a\<rparr>)"
  by (auto simp: check_justification_threshold_def split: if_splits)

lemma saturating_add_ge: "a \<le> saturating_add a (b :: u128)"
  using unsigned_less [where w = a and ?'a = nat] by (simp add: word_le_nat_alt unat_saturating_add)

section \<open>Checkpoints of a service state\<close>

text \<open>
  The checkpoint table: keys are epochs, a justified checkpoint has met the threshold, the last
  justified checkpoint is in the table, and the successor of a finalized one is justified.
\<close>

definition table_ok :: "(u64 \<times> checkpoint) list \<Rightarrow> bool" where
  "table_ok m \<longleftrightarrow> hm_inv m \<and>
     (\<forall>e cp. map_of m e = Some cp \<longrightarrow> cp_epoch cp = e \<and> (is_justified cp \<longrightarrow> check_justification_threshold cp)) \<and>
     (\<forall>e cp. map_of m e = Some cp \<longrightarrow> is_finalized cp \<longrightarrow> e < e + 1 \<and> (\<exists>cp'. map_of m (e + 1) = Some cp' \<and> is_justified cp'))"

definition points_ok :: "service_state \<Rightarrow> bool" where
  "points_ok s \<longleftrightarrow> table_ok (ss_checkpoints s) \<and>
     (\<forall>lj. ss_last_justified s = Some lj \<longrightarrow> (\<exists>cp. map_of (ss_checkpoints s) (cp_epoch lj) = Some cp \<and> is_justified cp))"

lemma table_okD:
  assumes "table_ok m" and "map_of m e = Some cp"
  shows "cp_epoch cp = e" and "is_justified cp \<Longrightarrow> check_justification_threshold cp"
    and "is_finalized cp \<Longrightarrow> e < e + 1 \<and> (\<exists>cp'. map_of m (e + 1) = Some cp' \<and> is_justified cp')"
  using assms by (auto simp: table_ok_def)

lemma table_ok_inv: "table_ok m \<Longrightarrow> hm_inv m"
  by (simp add: table_ok_def)

text \<open>Replacing one entry: enough that its epoch is right, that it is no less justified, and that it stays sound.\<close>

lemma table_ok_update:
  assumes m: "table_ok m" and "cp_epoch cp = e" and "is_justified cp \<Longrightarrow> check_justification_threshold cp"
    and up: "\<And>old. map_of m e = Some old \<Longrightarrow> is_justified old \<Longrightarrow> is_justified cp"
    and fin: "is_finalized cp \<Longrightarrow> e < e + 1 \<and> (\<exists>cp'. map_of m (e + 1) = Some cp' \<and> is_justified cp')"
  shows "table_ok (AList.update e cp m)"
proof -
  have next_ok: "\<exists>cp'. map_of (AList.update e cp m) (e' + 1) = Some cp' \<and> is_justified cp'"
    if "\<exists>cp'. map_of m (e' + 1) = Some cp' \<and> is_justified cp'" for e'
    using that up by (auto simp: update_conv')
  have "is_finalized c \<Longrightarrow> map_of (AList.update e cp m) e' = Some c \<Longrightarrow>
      e' < e' + 1 \<and> (\<exists>cp'. map_of (AList.update e cp m) (e' + 1) = Some cp' \<and> is_justified cp')" for e' c
    using next_ok [of e'] fin table_okD(3) [OF m, of e' c] by (auto simp: update_conv' split: if_splits)
  moreover have "map_of (AList.update e cp m) e' = Some c \<Longrightarrow>
      cp_epoch c = e' \<and> (is_justified c \<longrightarrow> check_justification_threshold c)" for e' c
    using assms(2, 3) table_okD [OF m, of e' c] by (auto simp: update_conv' split: if_splits)
  ultimately show ?thesis
    using table_ok_inv [OF m] unfolding table_ok_def by (auto simp: hm.inv_ins)
qed

lemma points_ok_frame:
  "points_ok s \<Longrightarrow> ss_checkpoints s' = ss_checkpoints s \<Longrightarrow> ss_last_justified s' = ss_last_justified s \<Longrightarrow> points_ok s'"
  by (simp add: points_ok_def)

lemma points_ok_create:
  assumes "points_ok s"
  shows "points_ok (fst (get_or_create_checkpoint target stake s))"
proof (cases "map_of (ss_checkpoints s) (cp_epoch target)")
  case None
  let ?cp = "with_total_stake stake (new_checkpoint (cp_epoch target) (cp_block_hash target) 0)"
  have "table_ok (AList.update (cp_epoch target) ?cp (ss_checkpoints s))"
    using assms None
    by (intro table_ok_update)
       (auto simp: points_ok_def with_total_stake_def new_checkpoint_def is_justified_def is_finalized_def)
  with assms None show ?thesis
    by (force simp: points_ok_def get_or_create_checkpoint_def Let_def update_conv')
qed (use assms in \<open>simp add: get_or_create_checkpoint_def\<close>)

lemma points_ok_count:
  assumes "points_ok s"
  shows "points_ok (fst (count_stake e stake s))"
proof (cases "map_of (ss_checkpoints s) e")
  case (Some cp)
  let ?cp = "add_attestation_stake stake cp"
  let ?cp' = "fst (try_justify ?cp)"
  have t: "table_ok (ss_checkpoints s)" using assms by (simp add: points_ok_def)
  note cp = table_okD [OF t Some]
  have thr: "is_justified cp \<Longrightarrow> check_justification_threshold ?cp"
    using threshold_mono [OF cp(2) saturating_add_ge] by (simp add: add_attestation_stake_def)
  have state: "cp_state ?cp = cp_state cp" "cp_epoch ?cp = e" using cp(1) by (simp_all add: add_attestation_stake_def)
  have sound: "is_justified ?cp' \<Longrightarrow> check_justification_threshold ?cp'"
    using thr by (auto simp: try_justify_def is_justified_def state check_justification_threshold_def split: if_splits)
  have up: "is_justified cp \<Longrightarrow> is_justified ?cp'" and fin: "is_finalized ?cp' \<Longrightarrow> is_finalized cp" and e: "cp_epoch ?cp' = e"
    by (auto simp: try_justify_def is_justified_def is_finalized_def state split: if_splits)
  have tab: "table_ok (AList.update e ?cp' (ss_checkpoints s))"
    using Some up fin cp(3) e sound by (intro table_ok_update [OF t]) auto
  have just: "snd (try_justify ?cp) \<Longrightarrow> is_justified ?cp'" by (auto simp: try_justify_def is_justified_def split: if_splits)
  show ?thesis
    using assms tab Some up e just
    by (cases "try_justify ?cp") (auto simp: points_ok_def count_stake_def Let_def update_conv' split: if_splits)
qed (use assms in \<open>simp add: count_stake_def\<close>)

lemma points_ok_aggregate: "points_ok s \<Longrightarrow> points_ok (fst (get_or_create_aggregate a n s))"
  by (auto simp: get_or_create_aggregate_def Let_def points_ok_def split: option.splits)

lemma points_ok_record: "points_ok s \<Longrightarrow> points_ok (record_attestation a s)"
  by (simp add: record_attestation_def Let_def points_ok_def)

lemma points_ok_apply:
  assumes "points_ok s"
  shows "points_ok (fst (apply_attestation a vs stake s))"
proof -
  let ?s2 = "fst (get_or_create_checkpoint (new_checkpoint (ci_epoch (at_target a)) (ci_block_hash (at_target a)) 0)
    (vs_total_stake vs) (record_attestation a s))"
  obtain s3 agg where agg: "get_or_create_aggregate a (vs_len vs) ?s2 = (s3, agg)" by (cases "get_or_create_aggregate a (vs_len vs) ?s2")
  have "points_ok s3"
    using points_ok_aggregate [of ?s2 a "vs_len vs"] agg points_ok_create points_ok_record assms by simp
  then have "points_ok (s3\<lparr>ss_attestations := x\<rparr>)" for x by (simp add: points_ok_def)
  with \<open>points_ok s3\<close> show ?thesis
    by (auto simp: apply_attestation_def Let_def agg points_ok_count split: option.splits)
qed

text \<open>What an attestation leaves alone until it is applied.\<close>

definition same_votes :: "service_state \<Rightarrow> service_state \<Rightarrow> bool" where
  "same_votes s s' \<longleftrightarrow> ss_checkpoints s' = ss_checkpoints s \<and> ss_last_justified s' = ss_last_justified s \<and>
     ss_attestations s' = ss_attestations s \<and> ss_attestation_history s' = ss_attestation_history s \<and>
     ss_circuit_breaker s' = ss_circuit_breaker s"

lemma check_slashable_frame: "same_votes s (fst (check_slashable_conditions a s))"
  by (simp add: check_slashable_conditions_def record_slashable_offense_def Let_def same_votes_def split: option.splits)

lemma single_cases:
  "fst (process_single_attestation cfg verifies a vs s) \<in> {s, fst (check_slashable_conditions a s)}"
  by (auto simp: process_single_attestation_def split: prod.splits outcome.splits option.splits)

lemma single_frame: "same_votes s (fst (process_single_attestation cfg verifies a vs s))"
  using single_cases [of cfg verifies a vs s] check_slashable_frame [of s a] by (auto simp: same_votes_def)

text \<open>A property kept by the two state changes of an update is kept by a whole batch.\<close>

lemma batch_invariant:
  assumes "P s" and "\<And>a s. P s \<Longrightarrow> P (fst (process_single_attestation cfg verifies a vs s))"
    and "\<And>a stake s s'. P s' \<Longrightarrow> process_single_attestation cfg verifies a vs s' = (s, Ok stake) \<Longrightarrow> P s \<Longrightarrow> P (fst (apply_attestation a vs stake s))"
  shows "P (fst (process_attestation_batch cfg verifies as vs s))"
  using assms(1)
proof (induction as arbitrary: s)
  case (Cons a as)
  have "P (fst (process_attestation_update cfg verifies a vs s))"
    using assms(2) [OF Cons.prems, of a] assms(3) [OF Cons.prems, of a]
    by (auto simp: process_attestation_update_def split: prod.splits outcome.splits)
  from Cons.IH [OF this] show ?case
    by (auto split: prod.splits option.splits)
qed simp

lemma points_ok_batch:
  assumes "points_ok s"
  shows "points_ok (fst (process_attestation_batch cfg verifies as vs s))"
proof (rule batch_invariant [where P = points_ok, OF assms])
  fix a s assume "points_ok s"
  then show "points_ok (fst (process_single_attestation cfg verifies a vs s))"
    using single_frame [of s cfg verifies a vs] by (auto simp: same_votes_def intro: points_ok_frame)
qed (rule points_ok_apply)

subsection \<open>Finalization and pruning\<close>

lemma check_finalization_cases:
  obtains (nothing) "check_finalization s = (s, None)"
  | (finalized) lj prev where "ss_last_justified s = Some lj" "0 < cp_epoch lj"
      "map_of (ss_checkpoints s) (cp_epoch lj - 1) = Some prev" "is_justified prev"
      "check_finalization s =
         (s\<lparr>ss_checkpoints := AList.update (cp_epoch lj - 1) (fst (finalize prev)) (ss_checkpoints s),
            ss_finalized_blocks := AList.update (cp_block_hash prev) (cp_block_height prev) (ss_finalized_blocks s),
            ss_last_finalized := Some (fst (finalize prev))\<rparr>, Some (fst (finalize prev)))"
proof (cases "ss_last_justified s")
  case None
  then have "check_finalization s = (s, None)" by (simp add: check_finalization_def)
  then show ?thesis by (rule nothing)
next
  case (Some lj)
  show ?thesis
  proof (cases "0 < cp_epoch lj")
    case True
    then have sub: "checked_sub (cp_epoch lj) 1 = Some (cp_epoch lj - 1)"
      by (simp add: checked_sub_def word_le_nat_alt word_less_nat_alt)
    show ?thesis
    proof (cases "map_of (ss_checkpoints s) (cp_epoch lj - 1)")
      case None
      with Some sub have "check_finalization s = (s, None)" by (simp add: check_finalization_def)
      then show ?thesis by (rule nothing)
    next
      case prev: (Some prev)
      show ?thesis
      proof (cases "is_justified prev")
        case False
        with Some sub prev have "check_finalization s = (s, None)" by (simp add: check_finalization_def)
        then show ?thesis by (rule nothing)
      next
        case True
        have "cp_block_hash (fst (finalize prev)) = cp_block_hash prev" "cp_block_height (fst (finalize prev)) = cp_block_height prev"
          by (simp_all add: finalize_def)
        then show ?thesis
          by (intro finalized [OF Some \<open>0 < cp_epoch lj\<close> prev True])
             (simp add: check_finalization_def Let_def Some sub prev True)
      qed
    qed
  next
    case False
    then have "cp_epoch lj = 0" by (simp add: word_less_nat_alt unat_eq_0)
    with Some have "check_finalization s = (s, None)" by (simp add: check_finalization_def checked_sub_def)
    then show ?thesis by (rule nothing)
  qed
qed

lemma finalize_simps:
  "is_justified cp \<Longrightarrow> is_finalized (fst (finalize cp))" "is_justified (fst (finalize cp)) = is_justified cp"
  "cp_epoch (fst (finalize cp)) = cp_epoch cp"
  "check_justification_threshold (fst (finalize cp)) = check_justification_threshold cp"
  "cp_attested_stake (fst (finalize cp)) = cp_attested_stake cp" "cp_total_stake (fst (finalize cp)) = cp_total_stake cp"
  by (cases "cp_state cp"; simp add: finalize_def is_justified_def is_finalized_def check_justification_threshold_def)+

lemma points_ok_finalization:
  assumes ok: "points_ok s"
  shows "points_ok (fst (check_finalization s))"
proof (cases rule: check_finalization_cases [of s])
  case (finalized lj prev)
  have t: "table_ok (ss_checkpoints s)" using ok by (simp add: points_ok_def)
  obtain cp where cp: "map_of (ss_checkpoints s) (cp_epoch lj) = Some cp" "is_justified cp"
    using ok finalized(1) by (auto simp: points_ok_def)
  have "cp_epoch lj - 1 < cp_epoch lj" using finalized(2) by (simp add: word_less_nat_alt unat_sub_if')
  then have "table_ok (AList.update (cp_epoch lj - 1) (fst (finalize prev)) (ss_checkpoints s))"
    using cp table_okD [OF t finalized(3)] finalized(3, 4)
    by (intro table_ok_update [OF t]) (auto simp: finalize_simps)
  with ok finalized show ?thesis
    by (auto simp: points_ok_def update_conv' finalize_simps)
qed (use ok in simp)

definition keeps_from :: "u64 \<Rightarrow> service_state \<Rightarrow> service_state" where
  "keeps_from e s = s\<lparr>ss_checkpoints := filter (\<lambda>(epoch, _). e \<le> epoch) (ss_checkpoints s),
     ss_attestations := filter (\<lambda>(i, _). e \<le> ci_epoch i) (ss_attestations s)\<rparr>"

lemma prune_cases:
  "prune_old_checkpoints s = s \<or>
   prune_old_checkpoints s = keeps_from (saturating_sub (case ss_last_finalized s of Some c \<Rightarrow> cp_epoch c | None \<Rightarrow> 0) 2) s"
  by (simp add: prune_old_checkpoints_def keeps_from_def Let_def)

lemma filter_epoch_lookup:
  "hm_inv m \<Longrightarrow> map_of (filter (\<lambda>(k, _). P k) m) e = (if P e then map_of m e else None)"
  by (simp add: hm_filter_lookup split: option.splits)

lemma table_ok_keeps:
  assumes "table_ok m"
  shows "table_ok (filter (\<lambda>(e, _). low \<le> e) m)"
proof -
  have inv: "hm_inv m" using assms by (rule table_ok_inv)
  have "e < e + 1 \<and> (\<exists>cp'. map_of (filter (\<lambda>(e, _). low \<le> e) m) (e + 1) = Some cp' \<and> is_justified cp')"
    if e: "map_of m e = Some cp" "is_finalized cp" "low \<le> e" for e cp
  proof -
    obtain cp' where cp': "e < e + 1" "map_of m (e + 1) = Some cp'" "is_justified cp'"
      using table_okD(3) [OF assms e(1, 2)] by blast
    have "low \<le> e + 1" using cp'(1) e(3) by simp
    with cp' show ?thesis by (simp add: filter_epoch_lookup inv)
  qed
  with assms inv show ?thesis
    by (auto simp: table_ok_def filter_epoch_lookup hm_filter_inv split: if_splits)
qed

lemma points_ok_prune:
  assumes ok: "points_ok s"
    and low: "\<And>lj. ss_last_justified s = Some lj \<Longrightarrow>
      (case ss_last_finalized s of Some c \<Rightarrow> cp_epoch c | None \<Rightarrow> 0) \<le> cp_epoch lj"
  shows "points_ok (prune_old_checkpoints s)"
proof -
  let ?low = "saturating_sub (case ss_last_finalized s of Some c \<Rightarrow> cp_epoch c | None \<Rightarrow> 0) 2"
  have "?low \<le> cp_epoch lj" if "ss_last_justified s = Some lj" for lj
    using low [OF that] by (simp add: word_le_nat_alt unat_saturating_sub)
  then have "points_ok (keeps_from ?low s)"
    using ok table_ok_keeps [of "ss_checkpoints s" ?low]
    by (auto simp: points_ok_def keeps_from_def filter_epoch_lookup table_ok_inv)
  with ok prune_cases [of s] show ?thesis by auto
qed

lemma finalization_epoch_order:
  assumes "points_ok s" and "check_finalization s = (s', Some f)" and "ss_last_justified s' = Some lj"
  shows "ss_last_finalized s' = Some f \<and> cp_epoch f \<le> cp_epoch lj"
proof (cases rule: check_finalization_cases [of s])
  case (finalized lj' prev)
  have "cp_epoch prev = cp_epoch lj' - 1"
    using assms(1) finalized(3) table_okD(1) by (auto simp: points_ok_def)
  moreover have "cp_epoch lj' - 1 \<le> cp_epoch lj'"
    using finalized(2) by (simp add: word_le_nat_alt word_less_nat_alt unat_sub_if')
  ultimately show ?thesis using finalized assms(2, 3) by (auto simp: finalize_simps)
qed (use assms in simp)

lemma points_ok_process:
  assumes ok: "points_ok s" and res: "check_and_process_finalization cfg epoch s = Some (s', f)"
  shows "points_ok s'"
proof -
  obtain s1 g where c: "check_finalization s = (s1, g)" by (cases "check_finalization s")
  have ok1: "points_ok s1" using points_ok_finalization [OF ok] c by simp
  show ?thesis
  proof (cases g)
    case None
    with res c ok1 show ?thesis
      by (auto simp: check_and_process_finalization_def Let_def points_ok_def split: if_splits option.splits)
  next
    case (Some fin)
    obtain cb where s': "s' = prune_old_checkpoints (s1\<lparr>ss_epochs_without_finality := 0, ss_circuit_breaker := cb\<rparr>)"
      using res c Some by (auto simp: check_and_process_finalization_def)
    show ?thesis unfolding s'
      using ok1 finalization_epoch_order [OF ok c [unfolded Some]]
      by (intro points_ok_prune) (auto simp: points_ok_def)
  qed
qed

lemma notification_frame:
  "handle_finalization_notification mark corr cp s = Some s' \<Longrightarrow>
   \<exists>cb. s' = s\<lparr>ss_circuit_breaker := cb\<rparr> \<and> (cb = ss_circuit_breaker s \<or> process_event FinalityFailed (ss_circuit_breaker s) = Some cb)"
  by (auto simp: handle_finalization_notification_def split: if_splits intro: exI [of _ "ss_circuit_breaker s"])

text \<open>The state after a call: nothing, the batch alone, or the batch, finalization and notification.\<close>

lemma process_attestations_cases:
  assumes "process_attestations cfg verifies provider mark corr as s = (s', r)"
  obtains (unchanged) "s' = s" "\<And>x. r = Ok x \<Longrightarrow> as = []"
  | (batch) vs where "s' = fst (process_attestation_batch cfg verifies as vs s)" "r = Panic"
  | (finalization) vs f where "check_and_process_finalization cfg (ci_epoch (at_target (hd as)))
        (fst (process_attestation_batch cfg verifies as vs s)) = Some (s', f)" "r = Panic"
  | (full) vs f s2 cb where "check_and_process_finalization cfg (ci_epoch (at_target (hd as)))
        (fst (process_attestation_batch cfg verifies as vs s)) = Some (s2, f)"
      "s' = s2\<lparr>ss_circuit_breaker := cb, ss_pending_slashing_events := [], ss_pending_inactivity_events := []\<rparr>"
      "cb = ss_circuit_breaker s2 \<or> process_event FinalityFailed (ss_circuit_breaker s2) = Some cb"
      "\<exists>x. r = Ok x \<and> ar_new_finalized x = f" "\<not> cb_is_halted (ss_circuit_breaker s)" "as \<noteq> []"
proof (cases "cb_is_halted (ss_circuit_breaker s) \<or> as = []")
  case True
  with assms show ?thesis using unchanged by (auto simp: process_attestations_def split: list.splits if_splits)
next
  case False
  then obtain a rest where as: "as = a # rest" by (cases as) auto
  show ?thesis
  proof (cases "provider (ci_epoch (at_target a))")
    case (Ok vs)
    obtain s1 acc rej j where b: "process_attestation_batch cfg verifies as vs s = (s1, acc, rej, j)" by (metis prod_cases4)
    show ?thesis
    proof (cases "check_and_process_finalization cfg (ci_epoch (at_target a)) s1")
      case None
      with assms False as Ok b show ?thesis using batch [of vs] by (auto simp: process_attestations_def)
    next
      case (Some p)
      obtain s2 f where p: "p = (s2, f)" by (cases p)
      let ?n = "case f of None \<Rightarrow> Some s2 | Some cp \<Rightarrow> handle_finalization_notification mark corr cp s2"
      show ?thesis
      proof (cases ?n)
        case None
        with assms False as Ok b Some p show ?thesis using finalization [of vs f] by (auto simp: process_attestations_def)
      next
        case s3: (Some s3)
        obtain cb where "s3 = s2\<lparr>ss_circuit_breaker := cb\<rparr>"
          "cb = ss_circuit_breaker s2 \<or> process_event FinalityFailed (ss_circuit_breaker s2) = Some cb"
          using s3 notification_frame [of mark corr _ s2 s3] that [of "ss_circuit_breaker s2"] by (cases f) auto
        with assms False as Ok b Some p s3 show ?thesis using full [of vs s2 f cb] by (auto simp: process_attestations_def)
      qed
    qed
  qed (use assms False as unchanged in \<open>auto simp: process_attestations_def\<close>)
qed

inductive service_reachable :: "service_state \<Rightarrow> bool" where
  sr_start: "service_reachable new_service_state"
| sr_process: "service_reachable s \<Longrightarrow> process_attestations cfg verifies provider mark corr as s = (s', r) \<Longrightarrow> service_reachable s'"
| sr_reset: "service_reachable s \<Longrightarrow> reset_from_halted s = Some s' \<Longrightarrow> service_reachable s'"
| sr_take_slashing: "service_reachable s \<Longrightarrow> service_reachable (fst (take_slashing_events s))"
| sr_take_inactivity: "service_reachable s \<Longrightarrow> service_reachable (fst (take_inactivity_events s))"

lemma points_ok_reachable: "service_reachable s \<Longrightarrow> points_ok s"
proof (induction rule: service_reachable.induct)
  case sr_start
  show ?case by (simp add: new_service_state_def points_ok_def table_ok_def)
next
  case (sr_process s cfg verifies provider mark corr as s' r)
  note b = points_ok_batch [OF sr_process.IH]
  show ?case
    using sr_process(2)
  proof (cases rule: process_attestations_cases)
    case (full vs f s2 cb)
    then show ?thesis using points_ok_process [OF b] by (auto simp: points_ok_def)
  qed (use sr_process.IH b points_ok_process [OF b] in auto)
next
  case (sr_reset s s')
  then show ?case by (auto simp: reset_from_halted_def points_ok_def split: if_splits)
qed (simp_all add: points_ok_def)

section \<open>Where the stake of a checkpoint comes from\<close>


















section \<open>Attestation histories and offences\<close>





lemma apply_frame:
  "ss_attestation_history (fst (apply_attestation a vs stake s)) = ss_attestation_history (record_attestation a s) \<and>
   ss_slashable_offenses (fst (apply_attestation a vs stake s)) = ss_slashable_offenses s \<and>
   ss_circuit_breaker (fst (apply_attestation a vs stake s)) = ss_circuit_breaker s"
proof -
  have c: "ss_attestation_history (fst (count_stake e x s)) = ss_attestation_history s \<and>
      ss_slashable_offenses (fst (count_stake e x s)) = ss_slashable_offenses s \<and>
      ss_circuit_breaker (fst (count_stake e x s)) = ss_circuit_breaker s" for e x s
    by (auto simp: count_stake_def Let_def split: option.splits prod.splits)
  have g: "ss_attestation_history (fst (get_or_create_aggregate a n s)) = ss_attestation_history s \<and>
      ss_slashable_offenses (fst (get_or_create_aggregate a n s)) = ss_slashable_offenses s \<and>
      ss_circuit_breaker (fst (get_or_create_aggregate a n s)) = ss_circuit_breaker s" for n s
    by (auto simp: get_or_create_aggregate_def Let_def split: option.splits)
  have k: "ss_attestation_history (fst (get_or_create_checkpoint t n s)) = ss_attestation_history s \<and>
      ss_slashable_offenses (fst (get_or_create_checkpoint t n s)) = ss_slashable_offenses s \<and>
      ss_circuit_breaker (fst (get_or_create_checkpoint t n s)) = ss_circuit_breaker s" for t n s
    by (auto simp: get_or_create_checkpoint_def Let_def split: option.splits)
  have r: "ss_slashable_offenses (record_attestation a s) = ss_slashable_offenses s \<and>
      ss_circuit_breaker (record_attestation a s) = ss_circuit_breaker s"
    by (simp add: record_attestation_def Let_def)
  show ?thesis
    by (auto simp: apply_attestation_def Let_def split_beta c g k r split: option.splits)
qed




lemma finalization_frame:
  "check_and_process_finalization cfg epoch s = Some (s', f) \<Longrightarrow>
   ss_attestation_history s' = ss_attestation_history s \<and> ss_slashable_offenses s' = ss_slashable_offenses s \<and>
   (ss_circuit_breaker s' = ss_circuit_breaker s \<or> process_event FinalityAchieved (ss_circuit_breaker s) = Some (ss_circuit_breaker s'))"
  by (cases rule: check_finalization_cases [of s])
     (auto simp: check_and_process_finalization_def Let_def prune_old_checkpoints_def split: if_splits option.splits)


section \<open>The circuit breaker in a running service\<close>

definition breaker_ok :: "service_state \<Rightarrow> bool" where
  "breaker_ok s \<longleftrightarrow> cb_state (ss_circuit_breaker s) \<in> {Running, Sync 1}"

lemma breaker_event:
  "process_event e cb = Some cb' \<Longrightarrow> e \<in> {FinalityAchieved, FinalityFailed} \<Longrightarrow>
   cb_state cb \<in> {Running, Sync 1} \<Longrightarrow> cb_state cb' \<in> {Running, Sync 1}"
  by (auto simp: process_event_def Let_def)

lemma breaker_batch: "ss_circuit_breaker (fst (process_attestation_batch cfg verifies as vs s)) = ss_circuit_breaker s"
  by (rule batch_invariant [where P = "\<lambda>s'. ss_circuit_breaker s' = ss_circuit_breaker s"])
     (use single_frame in \<open>auto simp: same_votes_def apply_frame\<close>)

lemma breaker_ok_reachable: "service_reachable s \<Longrightarrow> breaker_ok s"
proof (induction rule: service_reachable.induct)
  case sr_start
  show ?case by (simp add: new_service_state_def breaker_ok_def new_breaker_def)
next
  case (sr_process s cfg verifies provider mark corr as s' r)
  have fin: "breaker_ok s2" if "check_and_process_finalization cfg e (fst (process_attestation_batch cfg verifies as vs s)) = Some (s2, f)"
    for e vs s2 f
    using finalization_frame [OF that] sr_process.IH breaker_event by (auto simp: breaker_ok_def breaker_batch)
  show ?case
    using sr_process(2)
  proof (cases rule: process_attestations_cases)
    case (full vs f s2 cb)
    then show ?thesis using fin [OF full(1)] breaker_event by (auto simp: breaker_ok_def)
  qed (use sr_process.IH fin in \<open>auto simp: breaker_ok_def breaker_batch\<close>)
next
  case (sr_reset s s')
  then show ?case by (auto simp: reset_from_halted_def breaker_ok_def cb_is_halted_def split: if_splits)
qed (simp_all add: breaker_ok_def)

section \<open>Batches that change nothing\<close>

lemma batch_unknown:
  "(\<And>a. a \<in> set as \<Longrightarrow> \<not> vs_contains (at_validator_id a) vs) \<Longrightarrow>
   process_attestation_batch cfg verifies as vs s = (s, 0, length as, None)"
  by (induction as) (simp_all add: process_attestation_update_def process_single_attestation_def)

lemma finalization_repeats:
  assumes "ss_last_justified s = Some lj" and "0 < cp_epoch lj"
    and "map_of (ss_checkpoints s) (cp_epoch lj - 1) = Some prev" and "is_justified prev"
  shows "\<exists>s'. check_and_process_finalization cfg e s = Some (s', Some (fst (finalize prev))) \<and>
    ss_epochs_without_finality s' = 0"
proof (cases rule: check_finalization_cases [of s])
  case nothing
  with assms show ?thesis
    by (auto simp: check_finalization_def checked_sub_def word_le_nat_alt word_less_nat_alt Let_def split: if_splits)
next
  case (finalized lj' prev')
  with assms show ?thesis
    by (auto simp: check_and_process_finalization_def process_event_def Let_def prune_old_checkpoints_def)
qed

section \<open>Properties\<close>



text \<open>
  The service cannot halt. The only events it gives its circuit breaker are reached and failed
  finality, so in every reachable state the breaker is running or in its first synchronisation
  attempt: attestations are never refused as halted, and resetting from a halt changes nothing.
\<close>

theorem service_never_halts:
  assumes "service_reachable s"
  shows "cb_state (ss_circuit_breaker s) \<in> {Running, Sync 1} \<and> reset_from_halted s = Some s \<and>
    snd (process_attestations cfg verifies provider mark corr [] s) \<noteq> Err SystemHalted"
  using breaker_ok_reachable [OF assms]
  by (auto simp: breaker_ok_def reset_from_halted_def cb_is_halted_def process_attestations_def)

text \<open>
  Finality is reported again without votes. Once the last justified checkpoint follows a
  justified one, a batch in which every attestation is rejected still reports the earlier
  checkpoint as newly finalized and sets the count of epochs without finality back to zero.
\<close>

theorem refinalization_resets_leak:
  assumes "service_reachable s" and "ss_last_justified s = Some lj" and "0 < cp_epoch lj"
    and "map_of (ss_checkpoints s) (cp_epoch lj - 1) = Some prev" and "is_justified prev"
    and "provider (ci_epoch (at_target a)) = Ok vs"
    and "\<forall>x \<in> set (a # as). \<not> vs_contains (at_validator_id x) vs"
  shows "\<exists>s' r. process_attestations cfg verifies provider (\<lambda>_. True) corr (a # as) s = (s', Ok r) \<and>
    ar_accepted r = 0 \<and> ar_new_finalized r = Some (fst (finalize prev)) \<and> ss_epochs_without_finality s' = 0"
proof -
  have b: "process_attestation_batch cfg verifies (a # as) vs s = (s, 0, length (a # as), None)"
    using assms(7) by (intro batch_unknown) auto
  obtain s' where "check_and_process_finalization cfg (ci_epoch (at_target a)) s = Some (s', Some (fst (finalize prev)))"
      and "ss_epochs_without_finality s' = 0"
    using finalization_repeats [OF assms(2-5)] by blast
  with assms(6) b breaker_ok_reachable [OF assms(1)] show ?thesis
    by (auto simp: process_attestations_def handle_finalization_notification_def breaker_ok_def cb_is_halted_def
        simp del: process_attestation_batch.simps)
qed

section \<open>A run with three validators\<close>

definition sample_set :: validator_set where
  "sample_set = add_validator 3 100 (add_validator 2 100 (add_validator 1 100 (new_validator_set 0)))"

definition sample_vote :: "validator_id \<Rightarrow> u64 \<Rightarrow> hash \<Rightarrow> attestation" where
  "sample_vote v e h =
     \<lparr>at_validator_id = v, at_source = \<lparr>ci_epoch = e - 1, ci_block_hash = 0\<rparr>,
      at_target = \<lparr>ci_epoch = e, ci_block_hash = h\<rparr>, at_signature = [], at_slot = 0\<rparr>"

definition sample_call :: "attestation list \<Rightarrow> service_state \<Rightarrow> service_state \<times> (attestation_result, finality_error) outcome" where
  "sample_call as s = process_attestations default_finality_config (\<lambda>_. True) (\<lambda>_. Ok sample_set) (\<lambda>_. True) 0 as s"

definition sample_final :: service_state where
  "sample_final =
     fst (sample_call (map (\<lambda>v. sample_vote v 2 20) [1, 2, 3])
       (fst (sample_call (sample_vote 1 1 99 # map (\<lambda>v. sample_vote v 1 10) [1, 2, 3]) new_service_state)))"

lemma sample_call_reachable: "service_reachable s \<Longrightarrow> service_reachable (fst (sample_call as s))"
  unfolding sample_call_def by (metis prod.collapse sr_process)

lemma sample_reachable: "service_reachable sample_final"
  unfolding sample_final_def by (intro sample_call_reachable sr_start)

lemma sample_final_values:
  "(let s = sample_final in
     (map_option (\<lambda>cp. (is_finalized cp, cp_total_stake cp, cp_attested_stake cp, cp_block_hash cp)) (map_of (ss_checkpoints s) 1),
      map_option cp_epoch (ss_last_justified s), map_option length (map_of (ss_attestation_history s) 1),
      length (ss_slashable_offenses s), map_option ag_total_stake (map_of (ss_attestations s) \<lparr>ci_epoch = 1, ci_block_hash = 99\<rparr>)))
   = (Some (True, 300, 300, 99), Some 2, Some 2, 1, Some 100)"
  by code_simp

lemma sample_first:
  obtains cp where "map_of (ss_checkpoints sample_final) 1 = Some cp" "is_finalized cp" "is_justified cp"
    "cp_total_stake cp = 300" "cp_attested_stake cp = 300" "cp_block_hash cp = 99"
  using sample_final_values by (auto simp: Let_def is_justified_def is_finalized_def)



theorem service_never_halts_witness:
  "cb_state (ss_circuit_breaker sample_final) \<in> {Running, Sync 1} \<and> reset_from_halted sample_final = Some sample_final"
  using service_never_halts [OF sample_reachable] by blast

theorem refinalization_resets_leak_witness:
  "\<exists>s' r. process_attestations default_finality_config (\<lambda>_. True) (\<lambda>_. Ok sample_set) (\<lambda>_. True) 0
      [sample_vote 9 7 70] sample_final = (s', Ok r) \<and>
    ar_accepted r = 0 \<and> ar_new_finalized r \<noteq> None \<and> ss_epochs_without_finality s' = 0"
proof -
  obtain lj where lj: "ss_last_justified sample_final = Some lj" "cp_epoch lj = 2"
    using sample_final_values by (auto simp: Let_def)
  obtain cp where cp: "map_of (ss_checkpoints sample_final) 1 = Some cp" "is_finalized cp" "is_justified cp"
    "cp_total_stake cp = 300" "cp_attested_stake cp = 300" "cp_block_hash cp = 99" by (rule sample_first)
  have none: "\<forall>x \<in> set [sample_vote 9 7 70]. \<not> vs_contains (at_validator_id x) sample_set" by code_simp
  have "0 < cp_epoch lj" "map_of (ss_checkpoints sample_final) (cp_epoch lj - 1) = Some cp"
    using lj cp by simp_all
  from refinalization_resets_leak [where provider = "\<lambda>_. Ok sample_set" and cfg = default_finality_config and
      verifies = "\<lambda>_. True" and corr = 0, OF sample_reachable lj(1) this cp(3) refl none]
  show ?thesis by auto
qed

text \<open>
  Votes for one block finalize another. Checkpoints are kept by epoch alone: with three
  validators of equal stake, one voting for block 99 and the other two for block 10 of the same
  epoch, block 99 is justified with the stake of all three, and then finalized, although the
  votes recorded for it are a third of the stake.
\<close>

theorem split_votes_justify:
  "\<exists>cp agg. map_of (ss_checkpoints sample_final) 1 = Some cp \<and> is_finalized cp \<and> cp_block_hash cp = 99 \<and>
     map_of (ss_attestations sample_final) (checkpoint_ident cp) = Some agg \<and>
     3 * ag_total_stake agg = cp_total_stake cp \<and> cp_attested_stake cp = cp_total_stake cp"
proof -
  obtain cp where cp: "map_of (ss_checkpoints sample_final) 1 = Some cp" "is_finalized cp" "is_justified cp"
    "cp_total_stake cp = 300" "cp_attested_stake cp = 300" "cp_block_hash cp = 99" by (rule sample_first)
  have "cp_epoch cp = 1"
    using points_ok_reachable [OF sample_reachable] table_okD(1) [OF _ cp(1)] by (simp add: points_ok_def)
  then show ?thesis
    using cp sample_final_values by (auto simp: Let_def checkpoint_ident_def)
qed

end
