(* ===== verification/TxOrdering.thy ===== *)
theory TxOrdering
  imports Containers
begin

text \<open>
  Transaction ordering (\<^verbatim>\<open>qc-12-transaction-ordering/src\<close>): the dependency graph of a batch
  and its builder, conflict detection, Kahn's algorithm, the schedule checks of
  \<^verbatim>\<open>domain/invariants.rs\<close>, the ordering service and its message handler.

  A \<open>HashSet\<close> of storage locations is the list of its elements in iteration order. The order in
  which the builder visits the senders is the iteration order of a hash map: it is the parameter
  \<open>iter\<close>. The main loop of Kahn's algorithm is a partial function, \<open>None\<close> standing for a run that
  does not end. Log output is dropped; the elapsed time of a request is an argument.
\<close>

section \<open>Transactions and dependencies\<close>

datatype dependency_kind = ReadAfterWrite | WriteAfterWrite | NonceOrder

record storage_location =
  sl_address :: address
  sl_key :: hash

record access_pattern =
  ap_reads :: "storage_location list"
  ap_writes :: "storage_location list"
  ap_balance_reads :: "address list"
  ap_balance_writes :: "address list"

record annotated_transaction =
  an_hash :: hash
  an_sender :: address
  an_nonce :: u64
  an_access_pattern :: access_pattern
  an_estimated_gas :: u64
  an_timestamp :: u64

definition new_annotated :: "hash \<Rightarrow> address \<Rightarrow> u64 \<Rightarrow> access_pattern \<Rightarrow> annotated_transaction" where
  "new_annotated h sender nonce p =
     \<lparr>an_hash = h, an_sender = sender, an_nonce = nonce, an_access_pattern = p,
      an_estimated_gas = 21000, an_timestamp = 0\<rparr>"

record dependency =
  dp_from :: hash
  dp_to :: hash
  dp_kind :: dependency_kind
  dp_location :: "storage_location option"

definition new_dependency :: "hash \<Rightarrow> hash \<Rightarrow> dependency_kind \<Rightarrow> dependency" where
  "new_dependency from to kind = \<lparr>dp_from = from, dp_to = to, dp_kind = kind, dp_location = None\<rparr>"

definition with_location :: "storage_location \<Rightarrow> dependency \<Rightarrow> dependency" where
  "with_location loc dep = dep\<lparr>dp_location := Some loc\<rparr>"

section \<open>Dependency graph\<close>

record dependency_graph =
  dg_transactions :: "(hash \<times> annotated_transaction) list"
  dg_edges :: "dependency list"
  dg_adjacency :: "(hash \<times> hash list) list"
  dg_in_degree :: "(hash \<times> nat) list"

definition empty_graph :: dependency_graph where
  "empty_graph = \<lparr>dg_transactions = [], dg_edges = [], dg_adjacency = [], dg_in_degree = []\<rparr>"

definition or_insert :: "'k \<Rightarrow> 'v \<Rightarrow> ('k \<times> 'v) list \<Rightarrow> ('k \<times> 'v) list" where
  "or_insert k v m = (case map_of m k of None \<Rightarrow> AList.update k v m | Some _ \<Rightarrow> m)"

definition add_node :: "annotated_transaction \<Rightarrow> dependency_graph \<Rightarrow> dependency_graph" where
  "add_node tx g =
     g\<lparr>dg_transactions := AList.update (an_hash tx) tx (dg_transactions g),
       dg_adjacency := or_insert (an_hash tx) [] (dg_adjacency g),
       dg_in_degree := or_insert (an_hash tx) 0 (dg_in_degree g)\<rparr>"

definition neighbours :: "dependency_graph \<Rightarrow> hash \<Rightarrow> hash list" where
  "neighbours g n = (case map_of (dg_adjacency g) n of None \<Rightarrow> [] | Some ns \<Rightarrow> ns)"

definition add_edge :: "dependency \<Rightarrow> dependency_graph \<Rightarrow> dependency_graph" where
  "add_edge dep g =
     g\<lparr>dg_adjacency := AList.update (dp_from dep) (neighbours g (dp_from dep) @ [dp_to dep]) (dg_adjacency g),
       dg_in_degree := AList.update (dp_to dep)
         ((case map_of (dg_in_degree g) (dp_to dep) of None \<Rightarrow> 0 | Some d \<Rightarrow> d) + 1) (dg_in_degree g),
       dg_edges := dg_edges g @ [dep]\<rparr>"

definition has_edge :: "dependency_graph \<Rightarrow> hash \<Rightarrow> hash \<Rightarrow> bool" where
  "has_edge g from to = (case map_of (dg_adjacency g) from of None \<Rightarrow> False | Some ns \<Rightarrow> to \<in> set ns)"

section \<open>Conflicts\<close>

record tx_conflict =
  cf_tx1 :: hash
  cf_tx2 :: hash
  cf_kind :: dependency_kind
  cf_location :: "storage_location option"

definition detect_data_dependency :: "annotated_transaction \<Rightarrow> annotated_transaction \<Rightarrow> dependency option" where
  "detect_data_dependency tx1 tx2 =
     (let p1 = an_access_pattern tx1; p2 = an_access_pattern tx2 in
      case find (\<lambda>loc. loc \<in> set (ap_writes p2)) (ap_writes p1) of
        Some loc \<Rightarrow> Some (with_location loc (new_dependency (an_hash tx1) (an_hash tx2) WriteAfterWrite))
      | None \<Rightarrow>
          (case find (\<lambda>loc. loc \<in> set (ap_reads p2)) (ap_writes p1) of
             Some loc \<Rightarrow> Some (with_location loc (new_dependency (an_hash tx1) (an_hash tx2) ReadAfterWrite))
           | None \<Rightarrow>
               (case find (\<lambda>loc. loc \<in> set (ap_writes p2)) (ap_reads p1) of
                  Some loc \<Rightarrow> Some (with_location loc (new_dependency (an_hash tx1) (an_hash tx2) ReadAfterWrite))
                | None \<Rightarrow> None)))"

definition detect_data_conflict :: "annotated_transaction \<Rightarrow> annotated_transaction \<Rightarrow> tx_conflict option" where
  "detect_data_conflict tx1 tx2 =
     (let p1 = an_access_pattern tx1; p2 = an_access_pattern tx2;
          conflict = (\<lambda>kind loc. \<lparr>cf_tx1 = an_hash tx1, cf_tx2 = an_hash tx2, cf_kind = kind, cf_location = Some loc\<rparr>) in
      case find (\<lambda>loc. loc \<in> set (ap_writes p2)) (ap_writes p1) of
        Some loc \<Rightarrow> Some (conflict WriteAfterWrite loc)
      | None \<Rightarrow>
          (case find (\<lambda>loc. loc \<in> set (ap_reads p2)) (ap_writes p1) of
             Some loc \<Rightarrow> Some (conflict ReadAfterWrite loc)
           | None \<Rightarrow>
               (case find (\<lambda>loc. loc \<in> set (ap_writes p2)) (ap_reads p1) of
                  Some loc \<Rightarrow> Some (conflict ReadAfterWrite loc)
                | None \<Rightarrow> None)))"

text \<open>The two nested index loops over \<open>i < j\<close>.\<close>

fun pairs_in_order :: "'a list \<Rightarrow> ('a \<times> 'a) list" where
  "pairs_in_order [] = []"
| "pairs_in_order (x # xs) = map (\<lambda>y. (x, y)) xs @ pairs_in_order xs"

definition detect_conflicts :: "annotated_transaction list \<Rightarrow> tx_conflict list" where
  "detect_conflicts transactions =
     concat (map (\<lambda>(tx1, tx2).
         if an_sender tx1 = an_sender tx2
         then [\<lparr>cf_tx1 = an_hash tx1, cf_tx2 = an_hash tx2, cf_kind = NonceOrder, cf_location = None\<rparr>]
         else case detect_data_conflict tx1 tx2 of None \<Rightarrow> [] | Some c \<Rightarrow> [c])
       (pairs_in_order transactions))"

definition conflict_percentage :: "tx_conflict list \<Rightarrow> usize \<Rightarrow> u8" where
  "conflict_percentage conflicts tx_count =
     (if tx_count \<le> 1 then 0
      else
        (let max_pairs = tx_count * (tx_count - 1) div 2 in
         if max_pairs = 0 then 0 else of_nat (min (length conflicts * 100 div max_pairs) 100)))"

section \<open>Building the graph\<close>

definition by_sender :: "annotated_transaction list \<Rightarrow> (address \<times> annotated_transaction list) list" where
  "by_sender transactions =
     fold (\<lambda>tx m. AList.update (an_sender tx)
         ((case map_of m (an_sender tx) of None \<Rightarrow> [] | Some txs \<Rightarrow> txs) @ [tx]) m) transactions []"

definition add_nonce_edges :: "annotated_transaction list \<Rightarrow> dependency_graph \<Rightarrow> dependency_graph" where
  "add_nonce_edges txs g =
     (let sorted_txs = sort_key an_nonce txs in
      fold (\<lambda>(tx1, tx2). add_edge (new_dependency (an_hash tx1) (an_hash tx2) NonceOrder))
        (zip sorted_txs (tl sorted_txs)) g)"

definition add_data_edge :: "annotated_transaction \<Rightarrow> annotated_transaction \<Rightarrow> dependency_graph \<Rightarrow> dependency_graph" where
  "add_data_edge tx1 tx2 g =
     (if an_sender tx1 = an_sender tx2 then g
      else case detect_data_dependency tx1 tx2 of None \<Rightarrow> g | Some dep \<Rightarrow> add_edge dep g)"

definition build_dependency_graph ::
    "((address \<times> annotated_transaction list) list \<Rightarrow> (address \<times> annotated_transaction list) list) \<Rightarrow>
     annotated_transaction list \<Rightarrow> dependency_graph" where
  "build_dependency_graph iter transactions =
     (let g1 = fold add_node transactions empty_graph;
          g2 = fold (\<lambda>(_, txs). add_nonce_edges txs) (iter (by_sender transactions)) g1 in
      fold (\<lambda>(tx1, tx2). add_data_edge tx1 tx2) (pairs_in_order transactions) g2)"

section \<open>Schedules\<close>

record parallel_group =
  pg_group_id :: usize
  pg_transactions :: "hash list"

record execution_schedule =
  es_parallel_groups :: "parallel_group list"
  es_total_transactions :: usize
  es_max_parallelism :: usize

definition new_group :: "usize \<Rightarrow> hash list \<Rightarrow> parallel_group" where
  "new_group i txs = \<lparr>pg_group_id = i, pg_transactions = txs\<rparr>"

definition new_schedule :: "parallel_group list \<Rightarrow> execution_schedule" where
  "new_schedule groups =
     \<lparr>es_parallel_groups = groups,
      es_total_transactions = sum_list (map (\<lambda>g. length (pg_transactions g)) groups),
      es_max_parallelism = foldl max 0 (map (\<lambda>g. length (pg_transactions g)) groups)\<rparr>"

definition sequential :: "hash list \<Rightarrow> execution_schedule" where
  "sequential txs = new_schedule (map (\<lambda>(i, h). new_group i [h]) (enumerate 0 txs))"

definition flatten :: "execution_schedule \<Rightarrow> hash list" where
  "flatten s = concat (map pg_transactions (es_parallel_groups s))"

section \<open>Kahn's algorithm\<close>

datatype ordering_error =
    CycleDetected
  | BatchTooLarge usize usize
  | TooManyEdges usize usize
  | AnalysisFailed string
  | ConflictDetectionFailed string
  | TooManyConflicts u8
  | OeUnauthorizedSender u8
  | StaleMessage
  | OeReplayDetected
  | EmptyBatch
  | OeInternal string

definition process_neighbor :: "hash \<Rightarrow> (hash \<times> nat) list \<times> hash list \<Rightarrow> (hash \<times> nat) list \<times> hash list" where
  "process_neighbor neighbor =
     (\<lambda>(in_degree, next_queue).
        case map_of in_degree neighbor of
          None \<Rightarrow> (in_degree, next_queue)
        | Some degree \<Rightarrow>
            (AList.update neighbor (degree - 1) in_degree,
             if degree - 1 = 0 then next_queue @ [neighbor] else next_queue))"

definition process_neighbors :: "hash \<Rightarrow> dependency_graph \<Rightarrow> (hash \<times> nat) list \<times> hash list \<Rightarrow>
    (hash \<times> nat) list \<times> hash list" where
  "process_neighbors node g s =
     (case map_of (dg_adjacency g) node of None \<Rightarrow> s | Some neighbors \<Rightarrow> fold process_neighbor neighbors s)"

partial_function (option) kahn_loop ::
    "dependency_graph \<Rightarrow> hash list \<Rightarrow> (hash \<times> nat) list \<Rightarrow> parallel_group list \<Rightarrow> usize \<Rightarrow>
     (parallel_group list \<times> usize) option" where
  [code]: "kahn_loop g queue in_degree groups scheduled_count =
     (if queue = [] then Some (groups, scheduled_count)
      else
        (let groups' = groups @ [new_group (length groups) queue];
             (in_degree', next_queue) = fold (\<lambda>node. process_neighbors node g) queue (in_degree, []) in
         kahn_loop g (sort next_queue) in_degree' groups' (scheduled_count + length queue)))"

definition kahns_topological_sort :: "dependency_graph \<Rightarrow> (execution_schedule, ordering_error) outcome option" where
  "kahns_topological_sort g =
     (if dg_transactions g = [] then Some (Ok (new_schedule []))
      else
        (let queue = sort (map fst (filter (\<lambda>(_, degree). degree = 0) (dg_in_degree g))) in
         map_option
           (\<lambda>(groups, scheduled_count).
              if scheduled_count < length (dg_transactions g) then Err CycleDetected else Ok (new_schedule groups))
           (kahn_loop g queue (dg_in_degree g) [] 0)))"

section \<open>Checks on schedules\<close>

fun topological_from :: "hash list \<Rightarrow> parallel_group list \<Rightarrow> dependency_graph \<Rightarrow> bool" where
  "topological_from executed [] g \<longleftrightarrow> True"
| "topological_from executed (grp # groups) g \<longleftrightarrow>
     (\<forall>tx \<in> set (pg_transactions grp). \<forall>edge \<in> set (filter (\<lambda>e. dp_to e = tx) (dg_edges g)).
        dp_from edge \<in> set executed) \<and>
     topological_from (executed @ pg_transactions grp) groups g"

definition invariant_topological_order :: "execution_schedule \<Rightarrow> dependency_graph \<Rightarrow> bool" where
  "invariant_topological_order s g = topological_from [] (es_parallel_groups s) g"

definition invariant_parallel_safety :: "parallel_group \<Rightarrow> dependency_graph \<Rightarrow> bool" where
  "invariant_parallel_safety grp g \<longleftrightarrow>
     (\<forall>(tx_i, tx_j) \<in> set (pairs_in_order (pg_transactions grp)). \<not> has_edge g tx_i tx_j \<and> \<not> has_edge g tx_j tx_i)"

definition invariant_completeness :: "execution_schedule \<Rightarrow> dependency_graph \<Rightarrow> bool" where
  "invariant_completeness s g \<longleftrightarrow> set (flatten s) = set (map fst (dg_transactions g))"

section \<open>Ordering service\<close>

record ordering_config =
  oc_max_batch_size :: usize
  oc_max_edge_count :: usize
  oc_conflict_threshold_percent :: u8
  oc_enable_speculation :: bool
  oc_timestamp_window_secs :: u64

definition default_ordering_config :: ordering_config where
  "default_ordering_config =
     \<lparr>oc_max_batch_size = 1000, oc_max_edge_count = 10000, oc_conflict_threshold_percent = 50,
      oc_enable_speculation = True, oc_timestamp_window_secs = 120\<rparr>"

definition validate_batch :: "ordering_config \<Rightarrow> annotated_transaction list \<Rightarrow> (unit, ordering_error) outcome" where
  "validate_batch cfg transactions =
     (if transactions = [] then Err EmptyBatch
      else if oc_max_batch_size cfg < length transactions
      then Err (BatchTooLarge (length transactions) (oc_max_batch_size cfg))
      else Ok ())"

definition should_fallback :: "ordering_config \<Rightarrow> tx_conflict list \<Rightarrow> usize \<Rightarrow> bool" where
  "should_fallback cfg conflicts tx_count \<longleftrightarrow> oc_conflict_threshold_percent cfg < conflict_percentage conflicts tx_count"

definition order_transactions ::
    "((address \<times> annotated_transaction list) list \<Rightarrow> (address \<times> annotated_transaction list) list) \<Rightarrow>
     ordering_config \<Rightarrow> annotated_transaction list \<Rightarrow> (execution_schedule, ordering_error) outcome option" where
  "order_transactions iter cfg transactions =
     (case validate_batch cfg transactions of
        Err e \<Rightarrow> Some (Err e)
      | Panic \<Rightarrow> Some Panic
      | Ok _ \<Rightarrow>
          (let conflicts = detect_conflicts transactions in
           if should_fallback cfg conflicts (length transactions)
           then Some (Ok (sequential (map an_hash transactions)))
           else
             (let graph = build_dependency_graph iter transactions in
              if oc_max_edge_count cfg < length (dg_edges graph)
              then Some (Err (TooManyEdges (length (dg_edges graph)) (oc_max_edge_count cfg)))
              else kahns_topological_sort graph)))"

section \<open>Message handler\<close>

record order_transactions_request =
  orq_correlation_id :: uuid
  orq_reply_to :: string
  orq_transaction_hashes :: "hash list"
  orq_senders :: "address list"
  orq_nonces :: "u64 list"
  orq_read_sets :: "(address \<times> hash) list list"
  orq_write_sets :: "(address \<times> hash) list list"

record ordering_metrics =
  om_total_transactions :: u32
  om_parallel_groups :: u32
  om_max_parallelism :: u32
  om_conflicts_detected :: u32
  om_ordering_time_ms :: u64

record order_transactions_response =
  orp_correlation_id :: uuid
  orp_success :: bool
  orp_parallel_groups :: "hash list list"
  orp_metrics :: ordering_metrics
  orp_error :: "string option"

definition AUTHORIZED_SENDER :: u8 where "AUTHORIZED_SENDER = 8"

definition default_ordering_metrics :: ordering_metrics where
  "default_ordering_metrics =
     \<lparr>om_total_transactions = 0, om_parallel_groups = 0, om_max_parallelism = 0, om_conflicts_detected = 0,
      om_ordering_time_ms = 0\<rparr>"

fun ordering_error_text :: "ordering_error \<Rightarrow> string" where
  "ordering_error_text CycleDetected = ''Cycle detected in dependency graph''"
| "ordering_error_text (BatchTooLarge n m) = ''Batch size exceeded: '' @ nat_str n @ '' > '' @ nat_str m"
| "ordering_error_text (TooManyEdges n m) = ''Edge count exceeded: '' @ nat_str n @ '' > '' @ nat_str m"
| "ordering_error_text (AnalysisFailed t) = ''Access pattern analysis failed: '' @ t"
| "ordering_error_text (ConflictDetectionFailed t) = ''Conflict detection failed: '' @ t"
| "ordering_error_text (TooManyConflicts p) = ''Too many conflicts: '' @ nat_str (unat p) @ ''% exceeds threshold''"
| "ordering_error_text (OeUnauthorizedSender i) =
     ''Unauthorized sender: expected Consensus (8), got '' @ nat_str (unat i)"
| "ordering_error_text StaleMessage = ''Message timestamp out of bounds''"
| "ordering_error_text OeReplayDetected = ''Replay attack detected: duplicate nonce''"
| "ordering_error_text EmptyBatch = ''Empty transaction batch''"
| "ordering_error_text (OeInternal t) = ''Internal error: '' @ t"

definition get_or :: "'a \<Rightarrow> 'a list \<Rightarrow> nat \<Rightarrow> 'a" where
  "get_or d xs i = (if i < length xs then xs ! i else d)"

definition to_storage_location :: "address \<times> hash \<Rightarrow> storage_location" where
  "to_storage_location = (\<lambda>(addr, key). \<lparr>sl_address = addr, sl_key = key\<rparr>)"

definition convert_to_annotated_transactions :: "order_transactions_request \<Rightarrow> annotated_transaction list" where
  "convert_to_annotated_transactions request =
     map (\<lambda>i. new_annotated (orq_transaction_hashes request ! i)
         (get_or 0 (orq_senders request) i) (get_or 0 (orq_nonces request) i)
         \<lparr>ap_reads = remdups (map to_storage_location (get_or [] (orq_read_sets request) i)),
          ap_writes = remdups (map to_storage_location (get_or [] (orq_write_sets request) i)),
          ap_balance_reads = [], ap_balance_writes = []\<rparr>)
       [0..<length (orq_transaction_hashes request)]"

definition ordering_failure :: "order_transactions_request \<Rightarrow> string \<Rightarrow> order_transactions_response" where
  "ordering_failure request text =
     \<lparr>orp_correlation_id = orq_correlation_id request, orp_success = False, orp_parallel_groups = [],
      orp_metrics = default_ordering_metrics, orp_error = Some text\<rparr>"

definition ordering_success :: "u64 \<Rightarrow> order_transactions_request \<Rightarrow> execution_schedule \<Rightarrow> order_transactions_response" where
  "ordering_success elapsed request schedule =
     (let conflicts_detected = es_total_transactions schedule -
            (case es_parallel_groups schedule of [] \<Rightarrow> 0 | g # _ \<Rightarrow> length (pg_transactions g)) in
      \<lparr>orp_correlation_id = orq_correlation_id request, orp_success = True,
       orp_parallel_groups = map pg_transactions (es_parallel_groups schedule),
       orp_metrics =
         \<lparr>om_total_transactions = of_nat (es_total_transactions schedule),
          om_parallel_groups = of_nat (length (es_parallel_groups schedule)),
          om_max_parallelism = of_nat (es_max_parallelism schedule),
          om_conflicts_detected = of_nat conflicts_detected, om_ordering_time_ms = elapsed\<rparr>,
       orp_error = None\<rparr>)"

definition handle_order_transactions ::
    "((address \<times> annotated_transaction list) list \<Rightarrow> (address \<times> annotated_transaction list) list) \<Rightarrow>
     ordering_config \<Rightarrow> u64 \<Rightarrow> u8 \<Rightarrow> order_transactions_request \<Rightarrow> order_transactions_response option" where
  "handle_order_transactions iter cfg elapsed sender_id request =
     (if sender_id \<noteq> AUTHORIZED_SENDER
      then Some (ordering_failure request
        (''Unauthorized sender: expected '' @ nat_str (unat AUTHORIZED_SENDER) @ '', got '' @ nat_str (unat sender_id)))
      else if oc_max_batch_size cfg < length (orq_transaction_hashes request)
      then Some (ordering_failure request
        (''Batch size '' @ nat_str (length (orq_transaction_hashes request)) @ '' exceeds max '' @
         nat_str (oc_max_batch_size cfg)))
      else
        (case order_transactions iter cfg (convert_to_annotated_transactions request) of
           None \<Rightarrow> None
         | Some (Ok schedule) \<Rightarrow> Some (ordering_success elapsed request schedule)
         | Some (Err e) \<Rightarrow> Some (ordering_failure request (ordering_error_text e))
         | Some Panic \<Rightarrow> None))"

section \<open>Well-formed graphs\<close>

text \<open>What \<open>add_node\<close> and \<open>add_edge\<close> maintain: the in-degree of a node counts its occurrences in the
  adjacency lists, and the adjacency lists hold exactly the stored edges.\<close>

definition nodes :: "dependency_graph \<Rightarrow> hash set" where
  "nodes g = dom (map_of (dg_transactions g))"

definition edge_rel :: "dependency_graph \<Rightarrow> (hash \<times> hash) set" where
  "edge_rel g = {(f, t). t \<in> set (neighbours g f)}"

definition graph_ok :: "dependency_graph \<Rightarrow> bool" where
  "graph_ok g \<longleftrightarrow> hm_inv (dg_transactions g) \<and> hm_inv (dg_adjacency g) \<and> hm_inv (dg_in_degree g) \<and>
     dom (map_of (dg_adjacency g)) = nodes g \<and> dom (map_of (dg_in_degree g)) = nodes g \<and>
     (\<forall>n \<in> nodes g. map_of (dg_in_degree g) n = Some (\<Sum>k \<in> nodes g. count_list (neighbours g k) n)) \<and>
     edge_rel g \<subseteq> nodes g \<times> nodes g \<and>
     (\<lambda>e. (dp_from e, dp_to e)) ` set (dg_edges g) = edge_rel g"

lemma finite_nodes [simp]: "finite (nodes g)"
  by (simp add: nodes_def finite_dom_map_of)

lemma or_insert_lookup: "map_of (or_insert k v m) = (if k \<in> dom (map_of m) then map_of m else (map_of m)(k \<mapsto> v))"
  by (auto simp: or_insert_def update_conv' split: option.splits)

lemma or_insert_inv: "hm_inv m \<Longrightarrow> hm_inv (or_insert k v m)"
  by (simp add: or_insert_def hm.inv_ins split: option.splits)

lemma neighbours_outside: "graph_ok g \<Longrightarrow> n \<notin> nodes g \<Longrightarrow> neighbours g n = []"
  by (auto simp: graph_ok_def neighbours_def split: option.splits)

lemma add_node_simps [simp]:
  "nodes (add_node tx g) = insert (an_hash tx) (nodes g)"
  "neighbours (add_node tx g) = neighbours g"
  "dg_edges (add_node tx g) = dg_edges g"
  by (auto simp: add_node_def nodes_def neighbours_def or_insert_lookup update_conv' fun_eq_iff split: option.splits)

lemma graph_ok_empty: "graph_ok empty_graph"
  by (auto simp: graph_ok_def empty_graph_def nodes_def edge_rel_def neighbours_def)

lemma graph_ok_node:
  assumes ok: "graph_ok g"
  shows "graph_ok (add_node tx g)"
proof (cases "an_hash tx \<in> nodes g")
  case True
  with ok have "dg_adjacency (add_node tx g) = dg_adjacency g" "dg_in_degree (add_node tx g) = dg_in_degree g"
    by (auto simp: add_node_def or_insert_def graph_ok_def split: option.splits)
  moreover have "hm_inv (dg_transactions (add_node tx g))" using ok by (simp add: graph_ok_def add_node_def hm.inv_ins)
  moreover have "edge_rel (add_node tx g) = edge_rel g" by (simp add: edge_rel_def)
  ultimately show ?thesis
    using ok True by (simp add: graph_ok_def insert_absorb)
next
  case False
  have fresh: "an_hash tx \<notin> set (neighbours g k)" for k
    using ok False by (auto simp: graph_ok_def edge_rel_def)
  have none: "neighbours g (an_hash tx) = []" using neighbours_outside [OF ok False] .
  have deg: "map_of (dg_in_degree (add_node tx g)) = (map_of (dg_in_degree g))(an_hash tx \<mapsto> 0)"
    using ok False by (auto simp: add_node_def or_insert_lookup graph_ok_def)
  have adj: "map_of (dg_adjacency (add_node tx g)) = (map_of (dg_adjacency g))(an_hash tx \<mapsto> [])"
    using ok False by (auto simp: add_node_def or_insert_lookup graph_ok_def)
  have inv: "hm_inv (dg_transactions (add_node tx g))" "hm_inv (dg_adjacency (add_node tx g))" "hm_inv (dg_in_degree (add_node tx g))"
    using ok by (simp_all add: graph_ok_def add_node_def hm.inv_ins or_insert_inv)
  have "edge_rel (add_node tx g) = edge_rel g" by (simp add: edge_rel_def)
  then show ?thesis
    using ok False inv by (simp add: graph_ok_def deg adj fresh none) blast
qed

lemma add_edge_simps [simp]:
  "nodes (add_edge dep g) = nodes g"
  "dg_transactions (add_edge dep g) = dg_transactions g"
  "neighbours (add_edge dep g) = (neighbours g)(dp_from dep := neighbours g (dp_from dep) @ [dp_to dep])"
  "dg_edges (add_edge dep g) = dg_edges g @ [dep]"
  by (auto simp: add_edge_def nodes_def neighbours_def update_conv' fun_eq_iff)

lemma graph_ok_edge:
  assumes ok: "graph_ok g" and f: "dp_from dep \<in> nodes g" and t: "dp_to dep \<in> nodes g"
  shows "graph_ok (add_edge dep g)"
proof -
  let ?f = "dp_from dep" and ?t = "dp_to dep" and ?nb = "neighbours g"
  let ?nb' = "?nb(?f := ?nb ?f @ [?t])"
  have sum: "(\<Sum>k \<in> nodes g. count_list (?nb' k) n) = (\<Sum>k \<in> nodes g. count_list (?nb k) n) + (if n = ?t then 1 else 0)" for n
    using f by (simp add: sum.remove [of "nodes g" ?f])
  have deg: "map_of (dg_in_degree (add_edge dep g)) =
      (map_of (dg_in_degree g))(?t \<mapsto> (\<Sum>k \<in> nodes g. count_list (?nb k) ?t) + 1)"
    using ok t by (auto simp: add_edge_def update_conv' graph_ok_def)
  have adj: "dom (map_of (dg_adjacency (add_edge dep g))) = nodes g"
    using ok f by (auto simp: add_edge_def update_conv' graph_ok_def)
  have inv: "hm_inv (dg_transactions (add_edge dep g))" "hm_inv (dg_adjacency (add_edge dep g))" "hm_inv (dg_in_degree (add_edge dep g))"
    using ok by (simp_all add: graph_ok_def add_edge_def hm.inv_ins)
  have rel: "edge_rel (add_edge dep g) = insert (?f, ?t) (edge_rel g)"
    by (auto simp: edge_rel_def split: if_splits)
  have "dom (map_of (dg_in_degree (add_edge dep g))) = nodes g"
    unfolding deg using ok t by (auto simp: graph_ok_def)
  moreover have "map_of (dg_in_degree (add_edge dep g)) n = Some (\<Sum>k \<in> nodes g. count_list (neighbours (add_edge dep g) k) n)"
    if "n \<in> nodes g" for n
    unfolding deg add_edge_simps sum using ok that by (simp add: graph_ok_def)
  ultimately show ?thesis
    using ok f t inv adj rel by (simp add: graph_ok_def)
qed

section \<open>Kahn's algorithm\<close>

text \<open>The edges into \<open>n\<close> from nodes outside \<open>D\<close>.\<close>

definition remaining :: "dependency_graph \<Rightarrow> hash set \<Rightarrow> hash \<Rightarrow> nat" where
  "remaining g D n = (\<Sum>k \<in> nodes g - D. count_list (neighbours g k) n)"

lemma remaining_0_iff: "remaining g D n = 0 \<longleftrightarrow> (\<forall>k \<in> nodes g - D. (k, n) \<notin> edge_rel g)"
  by (auto simp: remaining_def edge_rel_def count_list_0_iff)

lemma remaining_step:
  assumes "distinct Q" and "set Q \<subseteq> nodes g - D"
  shows "remaining g D n = remaining g (D \<union> set Q) n + count_list (concat (map (neighbours g) Q)) n"
proof -
  have c: "count_list (concat (map f Q)) n = (\<Sum>k \<in> set Q. count_list (f k) n)" for f :: "hash \<Rightarrow> hash list"
    using assms(1) by (induction Q) simp_all
  have "nodes g - D = (nodes g - (D \<union> set Q)) \<union> set Q" using assms(2) by auto
  then have "remaining g D n = (\<Sum>k \<in> (nodes g - (D \<union> set Q)) \<union> set Q. count_list (neighbours g k) n)"
    by (simp add: remaining_def)
  also have "\<dots> = remaining g (D \<union> set Q) n + (\<Sum>k \<in> set Q. count_list (neighbours g k) n)"
    unfolding remaining_def by (rule sum.union_disjoint) auto
  finally show ?thesis by (simp add: c)
qed

lemma process_neighbor_apply:
  "process_neighbor x (deg, q) = (case map_of deg x of None \<Rightarrow> (deg, q)
     | Some d \<Rightarrow> (AList.update x (d - 1) deg, if d - 1 = 0 then q @ [x] else q))"
  by (simp add: process_neighbor_def)

lemma process_all:
  assumes "hm_inv deg" and "\<And>n d. map_of deg n = Some d \<Longrightarrow> count_list l n \<le> d"
    and "distinct q" and "\<And>n. n \<in> set q \<Longrightarrow> map_of deg n = Some 0"
    and "fold process_neighbor l (deg, q) = (deg', q')"
  shows "hm_inv deg'" and "\<And>n. map_of deg' n = map_option (\<lambda>d. d - count_list l n) (map_of deg n)"
    and "distinct q'" and "set q' = set q \<union> {n. \<exists>d. map_of deg n = Some d \<and> 0 < d \<and> d = count_list l n}"
proof -
  have "hm_inv deg' \<and> (\<forall>n. map_of deg' n = map_option (\<lambda>d. d - count_list l n) (map_of deg n)) \<and> distinct q' \<and>
    set q' = set q \<union> {n. \<exists>d. map_of deg n = Some d \<and> 0 < d \<and> d = count_list l n}"
    using assms
  proof (induction l arbitrary: deg q)
    case Nil
    then show ?case by (auto simp: option.map_ident)
  next
    case (Cons x l)
    show ?case
    proof (cases "map_of deg x")
      case None
      have "fold process_neighbor l (deg, q) = (deg', q')" using Cons.prems(5) None by (simp add: process_neighbor_apply)
      moreover have "count_list l n \<le> d" if "map_of deg n = Some d" for n d using Cons.prems(2) [OF that] None that by (auto split: if_splits)
      ultimately have "hm_inv deg' \<and> (\<forall>n. map_of deg' n = map_option (\<lambda>d. d - count_list l n) (map_of deg n)) \<and> distinct q' \<and>
        set q' = set q \<union> {n. \<exists>d. map_of deg n = Some d \<and> 0 < d \<and> d = count_list l n}"
        using Cons.IH Cons.prems(1, 3, 4) by blast
      with None show ?thesis by auto
    next
      case (Some d)
      then have d: "Suc (count_list l x) \<le> d" using Cons.prems(2) [OF Some] by simp
      let ?deg = "AList.update x (d - 1) deg" and ?q = "if d - 1 = 0 then q @ [x] else q"
      have x: "x \<notin> set q" using Cons.prems(4) Some d by force
      have f: "fold process_neighbor l (?deg, ?q) = (deg', q')" using Cons.prems(5) Some by (simp add: process_neighbor_apply)
      have le: "count_list l n \<le> e" if "map_of ?deg n = Some e" for n e
        using that d Cons.prems(2) [of n] by (auto simp: update_conv' split: if_splits)
      have zero: "map_of ?deg n = Some 0" if "n \<in> set ?q" for n
        using that Cons.prems(4) [of n] x by (auto simp: update_conv' split: if_splits)
      have "hm_inv ?deg" "distinct ?q" using Cons.prems(1, 3) x by (simp_all add: hm.inv_ins)
      from Cons.IH [OF this(1) le this(2) zero f] show ?thesis
        using Some d Cons.prems(4) by (auto simp: update_conv' split: if_splits)
    qed
  qed
  then show "hm_inv deg'" and "\<And>n. map_of deg' n = map_option (\<lambda>d. d - count_list l n) (map_of deg n)"
    and "distinct q'" and "set q' = set q \<union> {n. \<exists>d. map_of deg n = Some d \<and> 0 < d \<and> d = count_list l n}" by blast+
qed

lemma process_group:
  "fold (\<lambda>node. process_neighbors node g) Q s = fold process_neighbor (concat (map (neighbours g) Q)) s"
  by (induction Q arbitrary: s) (simp_all add: process_neighbors_def neighbours_def split: option.splits)

definition scheduled :: "parallel_group list \<Rightarrow> hash list" where
  "scheduled groups = concat (map pg_transactions groups)"

definition kahn_inv :: "dependency_graph \<Rightarrow> hash list \<Rightarrow> (hash \<times> nat) list \<Rightarrow> parallel_group list \<Rightarrow> usize \<Rightarrow> bool" where
  "kahn_inv g Q deg groups c \<longleftrightarrow>
     (let D = scheduled groups in
      hm_inv deg \<and> distinct (D @ Q) \<and> set D \<subseteq> nodes g \<and> c = length D \<and>
      (\<forall>n. map_of deg n = (if n \<in> nodes g then Some (remaining g (set D) n) else None)) \<and>
      (\<forall>n \<in> set D. remaining g (set D) n = 0) \<and>
      set Q = {n \<in> nodes g - set D. remaining g (set D) n = 0} \<and>
      topological_from [] groups g \<and> (\<forall>grp \<in> set groups. invariant_parallel_safety grp g))"

lemma topological_snoc:
  "topological_from ex (groups @ [grp]) g \<longleftrightarrow> topological_from ex groups g \<and>
     (\<forall>e \<in> set (dg_edges g). dp_to e \<in> set (pg_transactions grp) \<longrightarrow> dp_from e \<in> set ex \<union> set (scheduled groups))"
  by (induction groups arbitrary: ex) (auto simp: scheduled_def)

lemma pairs_in_orderD: "(x, y) \<in> set (pairs_in_order xs) \<Longrightarrow> x \<in> set xs \<and> y \<in> set xs"
  by (induction xs) auto

lemma has_edge_iff: "has_edge g f t \<longleftrightarrow> (f, t) \<in> edge_rel g"
  by (simp add: has_edge_def edge_rel_def neighbours_def split: option.splits)

lemma edges_in_rel: "graph_ok g \<Longrightarrow> e \<in> set (dg_edges g) \<Longrightarrow> (dp_from e, dp_to e) \<in> edge_rel g"
  unfolding graph_ok_def by blast

lemma kahn_step:
  assumes ok: "graph_ok g" and inv: "kahn_inv g Q deg groups c"
    and step: "fold (\<lambda>node. process_neighbors node g) Q (deg, []) = (deg', Q')"
  shows "kahn_inv g (sort Q') deg' (groups @ [new_group (length groups) Q]) (c + length Q)"
proof -
  let ?D = "set (scheduled groups)" and ?l = "concat (map (neighbours g) Q)"
  let ?groups = "groups @ [new_group (length groups) Q]"
  have D': "scheduled ?groups = scheduled groups @ Q" by (simp add: scheduled_def new_group_def)
  have deg: "map_of deg n = (if n \<in> nodes g then Some (remaining g ?D n) else None)" for n
    using inv by (simp add: kahn_inv_def Let_def)
  have q: "hm_inv deg" "distinct Q" "distinct (scheduled groups @ Q)" "?D \<subseteq> nodes g" "c = length (scheduled groups)"
    and Q: "set Q = {n \<in> nodes g - ?D. remaining g ?D n = 0}" and z: "\<And>n. n \<in> ?D \<Longrightarrow> remaining g ?D n = 0"
    and t: "topological_from [] groups g" "\<forall>grp \<in> set groups. invariant_parallel_safety grp g"
    using inv by (auto simp: kahn_inv_def Let_def)
  have rem: "remaining g ?D n = remaining g (?D \<union> set Q) n + count_list ?l n" for n
    using q(2) Q by (intro remaining_step) auto
  have le: "count_list ?l n \<le> d" if "map_of deg n = Some d" for n d
    using that rem [of n] by (auto simp: deg split: if_splits)
  note p = process_all [OF q(1) le distinct.simps(1) [THEN iffD2] _ step [unfolded process_group], simplified]
  have deg': "map_of deg' n = (if n \<in> nodes g then Some (remaining g (?D \<union> set Q) n) else None)" for n
    using p(2) [of n] rem [of n] by (simp add: deg)
  have Q': "set Q' = {n \<in> nodes g - (?D \<union> set Q). remaining g (?D \<union> set Q) n = 0}"
  proof (intro set_eqI iffI)
    fix n assume "n \<in> set Q'"
    then have "n \<in> nodes g" "0 < remaining g ?D n" "remaining g ?D n = count_list ?l n"
      using p(4) by (auto simp: deg split: if_splits)
    then show "n \<in> {n \<in> nodes g - (?D \<union> set Q). remaining g (?D \<union> set Q) n = 0}"
      using rem [of n] z [of n] Q by auto
  next
    fix n assume "n \<in> {n \<in> nodes g - (?D \<union> set Q). remaining g (?D \<union> set Q) n = 0}"
    then have n: "n \<in> nodes g" "n \<notin> ?D" "n \<notin> set Q" "remaining g (?D \<union> set Q) n = 0" by auto
    then have "0 < remaining g ?D n" using Q by auto
    then show "n \<in> set Q'" using p(4) rem [of n] n by (simp add: deg)
  qed
  have into: "f \<in> ?D" if "(f, n) \<in> edge_rel g" "n \<in> set Q" for f n
    using that Q ok by (auto simp: remaining_0_iff graph_ok_def)
  have "topological_from [] ?groups g"
    using t(1) into edges_in_rel [OF ok] by (auto simp: topological_snoc new_group_def)
  moreover have "invariant_parallel_safety (new_group (length groups) Q) g"
    using into Q by (auto simp: invariant_parallel_safety_def new_group_def has_edge_iff dest!: pairs_in_orderD)
  moreover have "remaining g (?D \<union> set Q) n = 0" if "n \<in> ?D \<union> set Q" for n
  proof -
    have "remaining g ?D n = 0" using that z [of n] Q by blast
    then show ?thesis using rem [of n] by simp
  qed
  moreover have "set Q' \<inter> (?D \<union> set Q) = {}" "set Q \<subseteq> nodes g" using Q' Q by blast+
  then have "distinct (scheduled groups @ Q @ sort Q')" "?D \<union> set Q \<subseteq> nodes g" using q(3, 4) p(3) by auto
  ultimately show ?thesis
    using p(1) deg' Q' q(5) t(2) unfolding kahn_inv_def Let_def D' by simp
qed

lemma kahn_loop_returns:
  assumes "graph_ok g" and "kahn_inv g Q deg groups c"
  shows "\<exists>deg' groups' c'. kahn_loop g Q deg groups c = Some (groups', c') \<and> kahn_inv g [] deg' groups' c'"
  using assms(2)
proof (induction "card (nodes g - set (scheduled groups))" arbitrary: Q deg groups c rule: less_induct)
  case less
  show ?case
  proof (cases "Q = []")
    case True
    with less.prems show ?thesis by (auto simp: kahn_loop.simps)
  next
    case False
    obtain deg' Q' where step: "fold (\<lambda>node. process_neighbors node g) Q (deg, []) = (deg', Q')" by fastforce
    let ?groups = "groups @ [new_group (length groups) Q]"
    have inv: "kahn_inv g (sort Q') deg' ?groups (c + length Q)" using kahn_step [OF assms(1) less.prems step] .
    have "set Q \<subseteq> nodes g - set (scheduled groups)" using less.prems by (auto simp: kahn_inv_def Let_def)
    then have "nodes g - set (scheduled ?groups) \<subset> nodes g - set (scheduled groups)"
      using False by (cases Q) (auto simp: scheduled_def new_group_def)
    then have "card (nodes g - set (scheduled ?groups)) < card (nodes g - set (scheduled groups))"
      by (intro psubset_card_mono) auto
    from less.hyps [OF this inv] show ?thesis
      using False step by (subst kahn_loop.simps) (simp add: Let_def)
  qed
qed

lemma kahn_start:
  assumes "graph_ok g"
  shows "kahn_inv g (sort (map fst (filter (\<lambda>(_, degree). degree = 0) (dg_in_degree g)))) (dg_in_degree g) [] 0"
proof -
  have inv: "hm_inv (dg_in_degree g)" and dom: "dom (map_of (dg_in_degree g)) = nodes g"
    and deg: "\<And>n. n \<in> nodes g \<Longrightarrow> map_of (dg_in_degree g) n = Some (remaining g {} n)"
    using assms by (auto simp: graph_ok_def remaining_def)
  have "set (map fst (filter (\<lambda>(_, degree). degree = 0) (dg_in_degree g))) = {n. map_of (dg_in_degree g) n = Some 0}"
    using inv by (auto simp: hm_mem_iff [symmetric] image_iff)
  also have "\<dots> = {n \<in> nodes g. remaining g {} n = 0}" using deg dom by (force simp: dom_def)
  finally show ?thesis
    using inv dom deg distinct_map_filter [OF inv, of "\<lambda>(_, degree). degree = 0"]
    by (auto simp: kahn_inv_def scheduled_def)
qed

text \<open>What the algorithm returns on a well-formed graph.\<close>

definition schedule_ok :: "execution_schedule \<Rightarrow> dependency_graph \<Rightarrow> bool" where
  "schedule_ok s g \<longleftrightarrow> distinct (flatten s) \<and> invariant_completeness s g \<and> invariant_topological_order s g \<and>
     (\<forall>grp \<in> set (es_parallel_groups s). invariant_parallel_safety grp g) \<and>
     es_total_transactions s = length (flatten s)"

lemma new_schedule_simps:
  "es_parallel_groups (new_schedule groups) = groups" "flatten (new_schedule groups) = scheduled groups"
  "es_total_transactions (new_schedule groups) = length (scheduled groups)"
  by (simp_all add: new_schedule_def flatten_def scheduled_def length_concat o_def)

lemma kahn_nodes: "graph_ok g \<Longrightarrow> length (dg_transactions g) = card (nodes g)"
  by (simp add: graph_ok_def nodes_def card_dom_map_of)

lemma kahn_result:
  assumes ok: "graph_ok g"
  obtains (schedule) s where "kahns_topological_sort g = Some (Ok s)" "schedule_ok s g"
  | (cycle) S where "kahns_topological_sort g = Some (Err CycleDetected)" "S \<noteq> {}" "S \<subseteq> nodes g"
      "\<And>n. n \<in> S \<Longrightarrow> \<exists>k \<in> S. (k, n) \<in> edge_rel g"
proof (cases "dg_transactions g = []")
  case True
  have "schedule_ok (new_schedule []) g"
    using True by (simp add: schedule_ok_def new_schedule_simps invariant_completeness_def
        invariant_topological_order_def scheduled_def)
  with True show ?thesis by (intro schedule) (auto simp: kahns_topological_sort_def)
next
  case False
  let ?Q = "sort (map fst (filter (\<lambda>(_, degree). degree = 0) (dg_in_degree g)))"
  obtain deg groups c where run: "kahn_loop g ?Q (dg_in_degree g) [] 0 = Some (groups, c)" and inv: "kahn_inv g [] deg groups c"
    using kahn_loop_returns [OF ok kahn_start [OF ok]] by blast
  let ?D = "set (scheduled groups)"
  have D: "distinct (scheduled groups)" "?D \<subseteq> nodes g" "c = length (scheduled groups)"
      "{n \<in> nodes g - ?D. remaining g ?D n = 0} = {}"
      "topological_from [] groups g" "\<forall>grp \<in> set groups. invariant_parallel_safety grp g"
    using inv by (auto simp: kahn_inv_def Let_def)
  have c: "c = card ?D" using D(1, 3) by (simp add: distinct_card)
  show ?thesis
  proof (cases "?D = nodes g")
    case True
    then have "kahns_topological_sort g = Some (Ok (new_schedule groups))"
      using False run c kahn_nodes [OF ok] by (simp add: kahns_topological_sort_def)
    moreover have "schedule_ok (new_schedule groups) g"
      using D True ok
      by (auto simp: schedule_ok_def new_schedule_simps invariant_completeness_def invariant_topological_order_def
          nodes_def dom_map_of_conv_image_fst)
    ultimately show ?thesis by (rule schedule)
  next
    case neq: False
    then have "card ?D < card (nodes g)" using D(2) by (intro psubset_card_mono) auto
    then have "kahns_topological_sort g = Some (Err CycleDetected)"
      using False run c kahn_nodes [OF ok] by (simp add: kahns_topological_sort_def)
    moreover have "\<exists>k \<in> nodes g - ?D. (k, n) \<in> edge_rel g" if "n \<in> nodes g - ?D" for n
      using D(4) that remaining_0_iff [of g ?D n] by auto
    ultimately show ?thesis using neq D(2) by (intro cycle [of "nodes g - ?D"]) auto
  qed
qed

text \<open>A set in which every node has a predecessor is never scheduled.\<close>

lemma topological_avoids:
  assumes "topological_from ex groups g" and "set ex \<inter> S = {}"
    and "\<And>n. n \<in> S \<Longrightarrow> \<exists>e \<in> set (dg_edges g). dp_to e = n \<and> dp_from e \<in> S"
  shows "set (scheduled groups) \<inter> S = {}"
  using assms(1, 2)
proof (induction groups arbitrary: ex)
  case (Cons grp groups)
  have "set (pg_transactions grp) \<inter> S = {}"
  proof (rule ccontr)
    assume "set (pg_transactions grp) \<inter> S \<noteq> {}"
    then obtain n where n: "n \<in> set (pg_transactions grp)" "n \<in> S" by blast
    then obtain e where e: "e \<in> set (dg_edges g)" "dp_to e = n" "dp_from e \<in> S" using assms(3) by blast
    with n Cons.prems show False by auto
  qed
  then show ?case using Cons.IH [of "ex @ pg_transactions grp"] Cons.prems by (auto simp: scheduled_def)
qed (simp add: scheduled_def)

lemma cyclic_set:
  assumes "\<not> acyclic r"
  shows "\<exists>S. S \<noteq> {} \<and> S \<subseteq> Range r \<and> (\<forall>n \<in> S. \<exists>k \<in> S. (k, n) \<in> r)"
proof -
  obtain x where x: "(x, x) \<in> r\<^sup>+" using assms by (auto simp: acyclic_def)
  let ?S = "{y. (x, y) \<in> r\<^sup>+ \<and> (y, x) \<in> r\<^sup>+}"
  have "\<exists>k \<in> ?S. (k, n) \<in> r" if "n \<in> ?S" for n
  proof -
    have n: "(x, n) \<in> r\<^sup>+" "(n, x) \<in> r\<^sup>+" using that by simp_all
    obtain k where k: "(x, k) \<in> r\<^sup>*" "(k, n) \<in> r" using tranclD2 [OF n(1)] by (elim exE conjE)
    have "(k, x) \<in> r\<^sup>+" using k(2) n(2) by (rule trancl_into_trancl2)
    moreover have "(x, k) \<in> r\<^sup>+" using k(1) x unfolding rtrancl_eq_or_trancl by auto
    ultimately show ?thesis using k by blast
  qed
  moreover have "?S \<subseteq> Range r"
  proof
    fix y assume "y \<in> ?S"
    then show "y \<in> Range r" using tranclD2 [of x y r] by (auto intro: RangeI)
  qed
  moreover have "?S \<noteq> {}" using x by auto
  ultimately show ?thesis by (intro exI [of _ ?S]) simp
qed

lemma set_cyclic:
  assumes "finite r" and "S \<noteq> {}" and "\<And>n. n \<in> S \<Longrightarrow> \<exists>k \<in> S. (k, n) \<in> r"
  shows "\<not> acyclic r"
proof
  assume "acyclic r"
  then have "wf r" using assms(1) by (simp add: finite_acyclic_wf)
  with assms(2, 3) show False by (metis wf_eq_minimal ex_in_conv)
qed

lemma finite_edges: "graph_ok g \<Longrightarrow> finite (edge_rel g)"
  by (rule finite_subset [of _ "nodes g \<times> nodes g"]) (auto simp: graph_ok_def)

lemma kahn_complete:
  assumes ok: "graph_ok g"
  shows "if acyclic (edge_rel g)
    then \<exists>s. kahns_topological_sort g = Some (Ok s) \<and> schedule_ok s g
    else kahns_topological_sort g = Some (Err CycleDetected)"
  using ok
proof (cases rule: kahn_result)
  case (schedule s)
  have "acyclic (edge_rel g)"
  proof (rule ccontr)
    assume cyc: "\<not> acyclic (edge_rel g)"
    obtain S where S: "S \<noteq> {}" "S \<subseteq> Range (edge_rel g)" "\<forall>n \<in> S. \<exists>k \<in> S. (k, n) \<in> edge_rel g"
      using cyclic_set [OF cyc] by (elim exE conjE)
    have img: "(\<lambda>e. (dp_from e, dp_to e)) ` set (dg_edges g) = edge_rel g" using ok by (simp add: graph_ok_def)
    have "\<exists>e \<in> set (dg_edges g). dp_to e = n \<and> dp_from e \<in> S" if "n \<in> S" for n
      using S(3) that unfolding img [symmetric] by auto
    then have "set (flatten s) \<inter> S = {}"
      using topological_avoids [of "[]" "es_parallel_groups s" g S] schedule(2)
      by (simp add: schedule_ok_def invariant_topological_order_def flatten_def scheduled_def)
    moreover have "S \<subseteq> set (flatten s)"
    proof -
      have "set (flatten s) = nodes g"
        using schedule(2) by (simp add: schedule_ok_def invariant_completeness_def nodes_def dom_map_of_conv_image_fst)
      then show ?thesis using S(2) ok by (auto simp: graph_ok_def)
    qed
    ultimately show False using S(1) by blast
  qed
  with schedule show ?thesis by auto
next
  case (cycle S)
  then show ?thesis using set_cyclic [OF finite_edges [OF ok] cycle(2, 4)] by simp
qed

section \<open>The graph of a batch\<close>

definition iteration_order :: "(('k \<times> 'v) list \<Rightarrow> ('k \<times> 'v) list) \<Rightarrow> bool" where
  "iteration_order iter \<longleftrightarrow> (\<forall>m. set (iter m) = set m \<and> length (iter m) = length m)"

lemma graph_ok_fold:
  assumes "graph_ok g" and "N \<subseteq> nodes g"
    and "\<And>x g. x \<in> set xs \<Longrightarrow> graph_ok g \<Longrightarrow> N \<subseteq> nodes g \<Longrightarrow> graph_ok (f x g) \<and> nodes (f x g) = nodes g"
  shows "graph_ok (fold f xs g) \<and> nodes (fold f xs g) = nodes g"
  using assms
proof (induction xs arbitrary: g)
  case (Cons x xs)
  have "graph_ok (f x g) \<and> nodes (f x g) = nodes g" using Cons.prems by simp
  then show ?case using Cons.IH [of "f x g"] Cons.prems by simp
qed simp

lemma graph_ok_nodes: "graph_ok (fold add_node txs g) \<and> nodes (fold add_node txs g) = an_hash ` set txs \<union> nodes g"
  if "graph_ok g" for g
  using that by (induction txs arbitrary: g) (auto simp: graph_ok_node)

lemma by_sender_lookup:
  "map_of (by_sender txs) a =
     (if filter (\<lambda>tx. an_sender tx = a) txs = [] then None else Some (filter (\<lambda>tx. an_sender tx = a) txs))"
  by (induction txs rule: rev_induct) (auto simp: by_sender_def update_conv' filter_empty_conv)

lemma by_sender_inv: "hm_inv (by_sender txs)"
proof -
  have "hm_inv m \<Longrightarrow> hm_inv (fold (\<lambda>tx m. AList.update (an_sender tx)
         ((case map_of m (an_sender tx) of None \<Rightarrow> [] | Some txs \<Rightarrow> txs) @ [tx]) m) txs m)" for m
    by (induction txs arbitrary: m) (simp_all add: hm.inv_ins)
  then show ?thesis by (simp add: by_sender_def)
qed

lemma nonce_edges_ok:
  assumes "graph_ok g" and "an_hash ` set txs \<subseteq> nodes g"
  shows "graph_ok (add_nonce_edges txs g) \<and> nodes (add_nonce_edges txs g) = nodes g"
  unfolding add_nonce_edges_def Let_def
proof (rule graph_ok_fold [OF assms])
  fix x g assume x: "x \<in> set (zip (sort_key an_nonce txs) (tl (sort_key an_nonce txs)))"
    and g: "graph_ok g" "an_hash ` set txs \<subseteq> nodes g"
  obtain tx1 tx2 where x': "x = (tx1, tx2)" by fastforce
  have "tx1 \<in> set txs" "tx2 \<in> set (tl (sort_key an_nonce txs))"
    using x by (auto simp: x' dest: set_zip_leftD set_zip_rightD)
  then have "tx1 \<in> set txs" "tx2 \<in> set txs" using list.set_sel(2) [of "sort_key an_nonce txs" tx2] by (cases txs, auto)+
  then show "graph_ok ((case x of (tx1, tx2) \<Rightarrow> add_edge (new_dependency (an_hash tx1) (an_hash tx2) NonceOrder)) g) \<and>
      nodes ((case x of (tx1, tx2) \<Rightarrow> add_edge (new_dependency (an_hash tx1) (an_hash tx2) NonceOrder)) g) = nodes g"
    using g by (auto simp: x' new_dependency_def intro!: graph_ok_edge)
qed

lemma detect_data_ends:
  "detect_data_dependency tx1 tx2 = Some dep \<Longrightarrow> dp_from dep = an_hash tx1 \<and> dp_to dep = an_hash tx2"
  by (auto simp: detect_data_dependency_def Let_def with_location_def new_dependency_def split: option.splits)

lemma data_edge_ok:
  assumes "graph_ok g" and "an_hash tx1 \<in> nodes g" and "an_hash tx2 \<in> nodes g"
  shows "graph_ok (add_data_edge tx1 tx2 g) \<and> nodes (add_data_edge tx1 tx2 g) = nodes g"
  using assms detect_data_ends [of tx1 tx2]
  by (auto simp: add_data_edge_def split: option.splits intro!: graph_ok_edge)

lemma build_ok:
  assumes "iteration_order iter"
  shows "graph_ok (build_dependency_graph iter txs)" and "nodes (build_dependency_graph iter txs) = an_hash ` set txs"
proof -
  let ?g1 = "fold add_node txs empty_graph"
  let ?g2 = "fold (\<lambda>(_, txs). add_nonce_edges txs) (iter (by_sender txs)) ?g1"
  have g1: "graph_ok ?g1" "nodes ?g1 = an_hash ` set txs"
    using graph_ok_nodes [OF graph_ok_empty] by (auto simp: empty_graph_def nodes_def)
  have g2: "graph_ok ?g2 \<and> nodes ?g2 = nodes ?g1"
  proof (rule graph_ok_fold [OF g1(1), where N = "an_hash ` set txs"])
    fix x g assume "x \<in> set (iter (by_sender txs))" and g: "graph_ok g" "an_hash ` set txs \<subseteq> nodes g"
    then have "x \<in> set (by_sender txs)" using assms by (simp add: iteration_order_def)
    moreover obtain a l where x: "x = (a, l)" by fastforce
    ultimately have "map_of (by_sender txs) a = Some l" by (simp add: hm_mem_iff [OF by_sender_inv])
    then have "an_hash ` set l \<subseteq> nodes g" using g(2) by (auto simp: by_sender_lookup split: if_splits)
    then show "graph_ok ((case x of (_, txs) \<Rightarrow> add_nonce_edges txs) g) \<and> nodes ((case x of (_, txs) \<Rightarrow> add_nonce_edges txs) g) = nodes g"
      using nonce_edges_ok [OF g(1)] by (simp add: x)
  qed (use g1 in simp)
  have "graph_ok (build_dependency_graph iter txs) \<and> nodes (build_dependency_graph iter txs) = nodes ?g2"
    unfolding build_dependency_graph_def Let_def
  proof (rule graph_ok_fold [OF conjunct1 [OF g2], where N = "an_hash ` set txs"])
    fix x g assume p: "x \<in> set (pairs_in_order txs)" and g: "graph_ok g" "an_hash ` set txs \<subseteq> nodes g"
    obtain tx1 tx2 where x: "x = (tx1, tx2)" by fastforce
    then have "an_hash tx1 \<in> nodes g" "an_hash tx2 \<in> nodes g" using p g(2) pairs_in_orderD [of tx1 tx2 txs] by auto
    then show "graph_ok ((case x of (tx1, tx2) \<Rightarrow> add_data_edge tx1 tx2) g) \<and> nodes ((case x of (tx1, tx2) \<Rightarrow> add_data_edge tx1 tx2) g) = nodes g"
      using data_edge_ok [OF g(1)] by (simp add: x)
  qed (use g1 g2 in simp)
  then show "graph_ok (build_dependency_graph iter txs)" and "nodes (build_dependency_graph iter txs) = an_hash ` set txs"
    using g1 g2 by simp_all
qed

section \<open>Order of execution\<close>

definition runs_before :: "execution_schedule \<Rightarrow> hash \<Rightarrow> hash \<Rightarrow> bool" where
  "runs_before s f t \<longleftrightarrow> (\<exists>i j. i < j \<and> j < length (es_parallel_groups s) \<and>
     f \<in> set (pg_transactions (es_parallel_groups s ! i)) \<and> t \<in> set (pg_transactions (es_parallel_groups s ! j)))"







section \<open>Edges of a batch\<close>







section \<open>Properties\<close>

text \<open>
  C7. Kahn's algorithm is total and decides acyclicity. On the dependency graph of any batch,
  whatever the iteration order of the sender map, the loop ends; if the dependencies are acyclic
  it returns a schedule that runs every transaction exactly once and passes the checks for
  topological order, parallel safety and completeness, and otherwise it reports a cycle.
\<close>

theorem kahn_decides_acyclicity:
  assumes "iteration_order iter"
  shows "let g = build_dependency_graph iter txs in
    if acyclic (edge_rel g)
    then \<exists>s. kahns_topological_sort g = Some (Ok s) \<and> distinct (flatten s) \<and> set (flatten s) = an_hash ` set txs \<and>
      invariant_completeness s g \<and> invariant_topological_order s g \<and>
      (\<forall>grp \<in> set (es_parallel_groups s). invariant_parallel_safety grp g)
    else kahns_topological_sort g = Some (Err CycleDetected)"
proof -
  let ?g = "build_dependency_graph iter txs"
  have "set (flatten s) = an_hash ` set txs" if "schedule_ok s ?g" for s
    using that build_ok(2) [OF assms, of txs]
    by (simp add: schedule_ok_def invariant_completeness_def nodes_def dom_map_of_conv_image_fst)
  with kahn_complete [OF build_ok(1) [OF assms, of txs]] show ?thesis
    by (auto simp: Let_def schedule_ok_def split: if_splits)
qed




text \<open>
  The sequential fallback ignores nonces. Whenever a batch consists of two transactions of one
  sender and the conflict threshold is below one hundred percent, the service returns them in the
  order in which they were submitted, also when the first has the higher nonce.
\<close>

theorem fallback_ignores_nonces:
  assumes "an_sender tx1 = an_sender tx2" and "an_nonce tx2 < an_nonce tx1" and "an_hash tx1 \<noteq> an_hash tx2"
    and "2 \<le> oc_max_batch_size cfg" and "oc_conflict_threshold_percent cfg < 100"
  shows "\<exists>s. order_transactions iter cfg [tx1, tx2] = Some (Ok s) \<and> runs_before s (an_hash tx1) (an_hash tx2) \<and>
    \<not> runs_before s (an_hash tx2) (an_hash tx1)"
proof -
  have "conflict_percentage (detect_conflicts [tx1, tx2]) (length [tx1, tx2]) = 100"
    using assms(1) by (simp add: detect_conflicts_def conflict_percentage_def Let_def)
  then have o: "order_transactions iter cfg [tx1, tx2] = Some (Ok (sequential [an_hash tx1, an_hash tx2]))"
    using assms(4, 5) by (simp add: order_transactions_def validate_batch_def should_fallback_def Let_def)
  have "es_parallel_groups (sequential [an_hash tx1, an_hash tx2]) = [new_group 0 [an_hash tx1], new_group 1 [an_hash tx2]]"
    by (simp add: sequential_def new_schedule_def)
  then show ?thesis
    using o assms(3) by (auto simp: runs_before_def new_group_def less_Suc_eq nth_Cons split: nat.splits)
qed

section \<open>A small batch\<close>

definition sample_access :: "u64 list \<Rightarrow> u64 list \<Rightarrow> access_pattern" where
  "sample_access rs ws =
     \<lparr>ap_reads = map (\<lambda>k. \<lparr>sl_address = 1, sl_key = ucast k\<rparr>) rs, ap_writes = map (\<lambda>k. \<lparr>sl_address = 1, sl_key = ucast k\<rparr>) ws,
      ap_balance_reads = [], ap_balance_writes = []\<rparr>"

definition sample_batch :: "annotated_transaction list" where
  "sample_batch =
     [new_annotated 11 1 1 (sample_access [] []), new_annotated 10 1 0 (sample_access [] [7]),
      new_annotated 20 2 5 (sample_access [7] []), new_annotated 30 3 0 (sample_access [] [9])]"

lemma iteration_order_id: "iteration_order (\<lambda>m. m)"
  by (simp add: iteration_order_def)

theorem kahn_decides_acyclicity_witness:
  "set (flatten (new_schedule [new_group 0 [10, 30], new_group 1 [11, 20]])) = an_hash ` set sample_batch \<and>
   kahns_topological_sort (build_dependency_graph (\<lambda>m. m) sample_batch) =
     Some (Ok (new_schedule [new_group 0 [10, 30], new_group 1 [11, 20]]))"
proof -
  have k: "kahns_topological_sort (build_dependency_graph (\<lambda>m. m) sample_batch) =
     Some (Ok (new_schedule [new_group 0 [10, 30], new_group 1 [11, 20]]))" by code_simp
  with kahn_decides_acyclicity [OF iteration_order_id, of sample_batch] show ?thesis
    by (auto simp: Let_def split: if_splits)
qed


theorem fallback_ignores_nonces_witness:
  "\<exists>s. order_transactions (\<lambda>m. m) default_ordering_config
      [new_annotated 11 1 1 (sample_access [] []), new_annotated 10 1 0 (sample_access [] [7])] = Some (Ok s) \<and>
    runs_before s 11 10 \<and> \<not> runs_before s 10 11"
  using fallback_ignores_nonces [of "new_annotated 11 1 1 (sample_access [] [])" "new_annotated 10 1 0 (sample_access [] [7])"
      default_ordering_config "\<lambda>m. m"]
  by (simp add: new_annotated_def default_ordering_config_def)

end
