(* ===== verification/BlockStorage.thy ===== *)
theory BlockStorage
  imports Containers SharedTypes "HOL-Library.Sublist"
begin

text \<open>
  Block storage (\<^verbatim>\<open>qc-02-block-storage/src\<close>): the stored block, the height index and the metadata
  of \<^verbatim>\<open>domain/entities.rs\<close>, the assembly buffer of \<^verbatim>\<open>domain/assembler.rs\<close>, the keys of
  \<^verbatim>\<open>domain/value_objects.rs\<close>, the storage service of \<^verbatim>\<open>service.rs\<close> and the two key-value stores of
  \<^verbatim>\<open>ports/outbound.rs\<close>.

  The key-value store is a port of the service: the record \<open>kv_ops\<close> of its operations is an
  argument, the locale \<open>kv_contract\<close> states what the port documents, and the in-memory store is
  shown to meet it. The serializers (bincode), CRC32C, SHA-256 and the derived debug text of an error are the
  other fields of \<open>storage_ports\<close>. The answer of the file system and the clock are arguments.
  The height index is a vector sorted by height searched by bisection: the ordered map of
  \<open>Containers\<close>. Counters of loaded entries, which are only logged, are dropped.
\<close>

type_synonym bytes = "u8 list"

section \<open>Entities\<close>

record stored_block =
  sb_block :: validated_block
  sb_merkle_root :: hash
  sb_state_root :: hash
  sb_stored_at :: timestamp
  sb_checksum :: u32

definition new_stored_block :: "validated_block \<Rightarrow> hash \<Rightarrow> hash \<Rightarrow> timestamp \<Rightarrow> u32 \<Rightarrow> stored_block" where
  "new_stored_block block merkle_root state_root stored_at checksum =
     \<lparr>sb_block = block, sb_merkle_root = merkle_root, sb_state_root = state_root, sb_stored_at = stored_at,
      sb_checksum = checksum\<rparr>"

definition header_preimage :: "block_header \<Rightarrow> bytes" where
  "header_preimage h =
     be_bytes 32 (bh_parent_hash h) @ le_bytes 8 (bh_height h) @ be_bytes 32 (bh_merkle_root h) @
     be_bytes 32 (bh_state_root h) @ le_bytes 8 (bh_timestamp h)"

definition stored_block_hash :: "(bytes \<Rightarrow> hash) \<Rightarrow> stored_block \<Rightarrow> hash" where
  "stored_block_hash sha256 sb = sha256 (header_preimage (vb_header (sb_block sb)))"

type_synonym block_index = "(u64 \<times> hash) list"

definition index_insert :: "u64 \<Rightarrow> hash \<Rightarrow> block_index \<Rightarrow> block_index" where
  "index_insert height block_hash entries = bt_insert height block_hash entries"

definition index_get :: "u64 \<Rightarrow> block_index \<Rightarrow> hash option" where
  "index_get height entries = map_of entries height"

definition index_contains :: "u64 \<Rightarrow> block_index \<Rightarrow> bool" where
  "index_contains height entries \<longleftrightarrow> map_of entries height \<noteq> None"

record storage_metadata =
  sm_genesis_hash :: "hash option"
  sm_latest_height :: u64
  sm_finalized_height :: u64
  sm_total_blocks :: u64
  sm_storage_version :: u16

definition default_metadata :: storage_metadata where
  "default_metadata =
     \<lparr>sm_genesis_hash = None, sm_latest_height = 0, sm_finalized_height = 0, sm_total_blocks = 0,
      sm_storage_version = 1\<rparr>"

definition on_block_stored :: "u64 \<Rightarrow> hash \<Rightarrow> storage_metadata \<Rightarrow> storage_metadata option" where
  "on_block_stored height block_hash m =
     (let m1 = (if sm_genesis_hash m = None \<and> height = 0 then m\<lparr>sm_genesis_hash := Some block_hash\<rparr> else m);
          m2 = (if sm_latest_height m1 < height then m1\<lparr>sm_latest_height := height\<rparr> else m1) in
      map_option (\<lambda>n. m2\<lparr>sm_total_blocks := n\<rparr>) (checked_add (sm_total_blocks m2) 1))"

definition on_finalized :: "u64 \<Rightarrow> storage_metadata \<Rightarrow> storage_metadata \<times> bool" where
  "on_finalized height m =
     (if height \<le> sm_finalized_height m then (m, False) else (m\<lparr>sm_finalized_height := height\<rparr>, True))"

section \<open>Keys\<close>

datatype key_prefix = KpBlock | KpBlockByHeight | KpMetadata | KpTransaction

fun prefix_bytes :: "key_prefix \<Rightarrow> bytes" where
  "prefix_bytes KpBlock = [98, 58]"
| "prefix_bytes KpBlockByHeight = [104, 58]"
| "prefix_bytes KpMetadata = [109, 58]"
| "prefix_bytes KpTransaction = [116, 58]"

definition prefix_key :: "key_prefix \<Rightarrow> bytes \<Rightarrow> bytes" where
  "prefix_key p rest = prefix_bytes p @ rest"

definition block_key :: "hash \<Rightarrow> bytes" where
  "block_key h = prefix_key KpBlock (be_bytes 32 h)"

definition height_key :: "u64 \<Rightarrow> bytes" where
  "height_key height = prefix_key KpBlockByHeight (be_bytes 8 height)"

definition transaction_key :: "hash \<Rightarrow> bytes" where
  "transaction_key h = prefix_key KpTransaction (be_bytes 32 h)"

record tx_location =
  xl_block_hash :: hash
  xl_block_height :: u64
  xl_transaction_index :: usize
  xl_merkle_root :: hash

section \<open>Errors and ports\<close>

datatype storage_error =
    BlockNotFound hash
  | HeightNotFound u64
  | BlockExists hash
  | ParentNotFound hash
  | DiskFull u8 u8
  | DataCorruption hash u32 u32
  | BlockTooLarge usize usize
  | InvalidFinalization u64 u64
  | GenesisImmutable
  | SeTransactionNotFound hash
  | AssemblyTimeout hash u64
  | DatabaseError string
  | SeSerializationError string
  | SeUnauthorizedSender u8 u8 string
  | NonCanonicalEncoding string
  | DatabaseLocked string

datatype kv_store_error = KvIOError string | KvCorruptionError string | KvNotFound

datatype fs_error = FsIOError string | FsPermissionDenied

fun kv_error_text :: "kv_store_error \<Rightarrow> string" where
  "kv_error_text (KvIOError m) = ''KV store I/O error: '' @ m"
| "kv_error_text (KvCorruptionError m) = ''KV store corruption: '' @ m"
| "kv_error_text KvNotFound = ''Key not found in KV store''"

definition of_kv_error :: "kv_store_error \<Rightarrow> storage_error" where
  "of_kv_error e = DatabaseError (kv_error_text e)"

datatype batch_operation = BatchPut bytes bytes | BatchDelete bytes

record 'kv kv_ops =
  kv_get :: "'kv \<Rightarrow> bytes \<Rightarrow> (bytes option, kv_store_error) outcome"
  kv_put :: "bytes \<Rightarrow> bytes \<Rightarrow> 'kv \<Rightarrow> 'kv \<times> (unit, kv_store_error) outcome"
  kv_delete :: "bytes \<Rightarrow> 'kv \<Rightarrow> 'kv \<times> (unit, kv_store_error) outcome"
  kv_atomic_batch_write :: "batch_operation list \<Rightarrow> 'kv \<Rightarrow> 'kv \<times> (unit, kv_store_error) outcome"
  kv_exists :: "'kv \<Rightarrow> bytes \<Rightarrow> (bool, kv_store_error) outcome"
  kv_prefix_scan :: "'kv \<Rightarrow> bytes \<Rightarrow> ((bytes \<times> bytes) list, kv_store_error) outcome"

record 'kv storage_ports =
  sp_kv :: "'kv kv_ops"
  sp_crc32c :: "bytes \<Rightarrow> u32"
  sp_sha256 :: "bytes \<Rightarrow> hash"
  sp_serialize :: "stored_block \<Rightarrow> (bytes, string) outcome"
  sp_deserialize :: "bytes \<Rightarrow> (stored_block, string) outcome"
  sp_estimate_size :: "stored_block \<Rightarrow> usize"
  sp_serialize_location :: "tx_location \<Rightarrow> bytes option"
  sp_deserialize_location :: "bytes \<Rightarrow> (tx_location, string) outcome"
  sp_fs_debug :: "fs_error \<Rightarrow> string"

section \<open>Assembly buffer\<close>

record assembly_config =
  ac_assembly_timeout_secs :: u64
  ac_max_pending_assemblies :: usize

definition default_assembly_config :: assembly_config where
  "default_assembly_config = \<lparr>ac_assembly_timeout_secs = 30, ac_max_pending_assemblies = 1000\<rparr>"

record pending_block_assembly =
  pa_block_hash :: hash
  pa_block_height :: u64
  pa_started_at :: timestamp
  pa_validated_block :: "validated_block option"
  pa_merkle_root :: "hash option"
  pa_state_root :: "hash option"

definition new_pending :: "hash \<Rightarrow> timestamp \<Rightarrow> pending_block_assembly" where
  "new_pending block_hash started_at =
     \<lparr>pa_block_hash = block_hash, pa_block_height = 0, pa_started_at = started_at, pa_validated_block = None,
      pa_merkle_root = None, pa_state_root = None\<rparr>"

definition pa_is_complete :: "pending_block_assembly \<Rightarrow> bool" where
  "pa_is_complete a \<longleftrightarrow> pa_validated_block a \<noteq> None \<and> pa_merkle_root a \<noteq> None \<and> pa_state_root a \<noteq> None"

definition pa_is_expired :: "timestamp \<Rightarrow> u64 \<Rightarrow> pending_block_assembly \<Rightarrow> bool" where
  "pa_is_expired now timeout_secs a \<longleftrightarrow> timeout_secs < saturating_sub now (pa_started_at a)"

definition take_components :: "pending_block_assembly \<Rightarrow> (validated_block \<times> hash \<times> hash) option" where
  "take_components a =
     (case (pa_validated_block a, pa_merkle_root a, pa_state_root a) of
        (Some block, Some merkle, Some state) \<Rightarrow> Some (block, merkle, state)
      | _ \<Rightarrow> None)"

record assembly_buffer =
  ab_pending :: "(hash \<times> pending_block_assembly) list"
  ab_config :: assembly_config

definition new_buffer :: "assembly_config \<Rightarrow> assembly_buffer" where
  "new_buffer cfg = \<lparr>ab_pending = [], ab_config = cfg\<rparr>"

definition pending_entry :: "hash \<Rightarrow> timestamp \<Rightarrow> assembly_buffer \<Rightarrow> pending_block_assembly" where
  "pending_entry block_hash now b =
     (case map_of (ab_pending b) block_hash of None \<Rightarrow> new_pending block_hash now | Some a \<Rightarrow> a)"

definition add_block_validated :: "hash \<Rightarrow> validated_block \<Rightarrow> timestamp \<Rightarrow> assembly_buffer \<Rightarrow> assembly_buffer" where
  "add_block_validated block_hash block now b =
     b\<lparr>ab_pending := AList.update block_hash
         ((pending_entry block_hash now b)\<lparr>pa_block_height := bh_height (vb_header block), pa_validated_block := Some block\<rparr>)
         (ab_pending b)\<rparr>"

definition add_merkle_root :: "hash \<Rightarrow> hash \<Rightarrow> timestamp \<Rightarrow> assembly_buffer \<Rightarrow> assembly_buffer" where
  "add_merkle_root block_hash merkle_root now b =
     b\<lparr>ab_pending := AList.update block_hash
         ((pending_entry block_hash now b)\<lparr>pa_merkle_root := Some merkle_root\<rparr>) (ab_pending b)\<rparr>"

definition add_state_root :: "hash \<Rightarrow> hash \<Rightarrow> timestamp \<Rightarrow> assembly_buffer \<Rightarrow> assembly_buffer" where
  "add_state_root block_hash state_root now b =
     b\<lparr>ab_pending := AList.update block_hash
         ((pending_entry block_hash now b)\<lparr>pa_state_root := Some state_root\<rparr>) (ab_pending b)\<rparr>"

definition is_complete :: "hash \<Rightarrow> assembly_buffer \<Rightarrow> bool" where
  "is_complete block_hash b = (case map_of (ab_pending b) block_hash of None \<Rightarrow> False | Some a \<Rightarrow> pa_is_complete a)"

definition take_complete :: "hash \<Rightarrow> assembly_buffer \<Rightarrow> assembly_buffer \<times> pending_block_assembly option" where
  "take_complete block_hash b =
     (if is_complete block_hash b
      then (b\<lparr>ab_pending := AList.delete block_hash (ab_pending b)\<rparr>, map_of (ab_pending b) block_hash)
      else (b, None))"

definition remove_all :: "hash list \<Rightarrow> assembly_buffer \<Rightarrow> assembly_buffer" where
  "remove_all hs b = b\<lparr>ab_pending := fold AList.delete hs (ab_pending b)\<rparr>"

definition expired_hashes :: "timestamp \<Rightarrow> assembly_buffer \<Rightarrow> hash list" where
  "expired_hashes now b =
     map fst (filter (\<lambda>(_, a). pa_is_expired now (ac_assembly_timeout_secs (ab_config b)) a) (ab_pending b))"

definition gc_expired :: "timestamp \<Rightarrow> assembly_buffer \<Rightarrow> assembly_buffer \<times> hash list" where
  "gc_expired now b = (let expired = expired_hashes now b in (remove_all expired b, expired))"

definition gc_expired_with_data :: "timestamp \<Rightarrow> assembly_buffer \<Rightarrow>
    assembly_buffer \<times> (hash \<times> pending_block_assembly) list" where
  "gc_expired_with_data now b =
     (let expired = expired_hashes now b in
      (remove_all expired b, map (\<lambda>h. (h, the (map_of (ab_pending b) h))) expired))"

definition enforce_max_pending :: "assembly_buffer \<Rightarrow> assembly_buffer \<times> hash list" where
  "enforce_max_pending b =
     (if length (ab_pending b) \<le> ac_max_pending_assemblies (ab_config b) then (b, [])
      else
        (let entries = sort_key snd (map (\<lambda>(h, a). (h, pa_started_at a)) (ab_pending b));
             to_remove = length (ab_pending b) - ac_max_pending_assemblies (ab_config b);
             purged = map fst (take to_remove entries) in
         (remove_all purged b, purged)))"

section \<open>Service\<close>

datatype compaction_strategy = LeveledCompaction | SizeTieredCompaction

record storage_config =
  sc_min_disk_space_percent :: u8
  sc_max_block_size :: usize
  sc_compaction_strategy :: compaction_strategy
  sc_assembly_config :: assembly_config
  sc_persist_transaction_index :: bool

definition default_storage_config :: storage_config where
  "default_storage_config =
     \<lparr>sc_min_disk_space_percent = 5, sc_max_block_size = 10 * 1024 * 1024,
      sc_compaction_strategy = LeveledCompaction, sc_assembly_config = default_assembly_config,
      sc_persist_transaction_index = False\<rparr>"

record 'kv storage_service =
  bs_kv_store :: 'kv
  bs_config :: storage_config
  bs_assembly_buffer :: assembly_buffer
  bs_block_index :: block_index
  bs_metadata :: storage_metadata
  bs_tx_index :: "(hash \<times> tx_location) list"

definition STORAGE_TRANSACTION_INDEXING :: u8 where "STORAGE_TRANSACTION_INDEXING = 3"
definition STORAGE_STATE_MANAGEMENT :: u8 where "STORAGE_STATE_MANAGEMENT = 4"
definition STORAGE_CONSENSUS :: u8 where "STORAGE_CONSENSUS = 8"

subsection \<open>Loading\<close>

definition height_entry :: "bytes \<times> bytes \<Rightarrow> (u64 \<times> hash) option" where
  "height_entry = (\<lambda>(key, v).
     if length key \<noteq> 10 \<or> length v \<noteq> 32 then None
     else Some (from_be_bytes (take 8 (drop 2 key)), from_be_bytes v))"

definition load_index_from_storage :: "'kv storage_ports \<Rightarrow> 'kv storage_service \<Rightarrow>
    'kv storage_service \<times> (unit, storage_error) outcome" where
  "load_index_from_storage P s =
     (case kv_prefix_scan (sp_kv P) (bs_kv_store s) (prefix_bytes KpBlockByHeight) of
        Err e \<Rightarrow> (s, Err (of_kv_error e))
      | Panic \<Rightarrow> (s, Panic)
      | Ok entries \<Rightarrow>
          if entries = [] then (s, Ok ())
          else
            (let loaded = List.map_filter height_entry entries;
                 index = fold (\<lambda>(height, h). index_insert height h) loaded (bs_block_index s);
                 s1 = s\<lparr>bs_block_index := index\<rparr> in
             if loaded = [] then (s1, Ok ())
             else
               (let max_height = fold max (map fst loaded) 0 in
                case on_block_stored max_height
                    (case index_get max_height index of None \<Rightarrow> 0 | Some h \<Rightarrow> h) (bs_metadata s1) of
                  None \<Rightarrow> (s1, Panic)
                | Some m \<Rightarrow> (s1\<lparr>bs_metadata := m\<rparr>, Ok ()))))"

fun load_locations :: "'kv storage_ports \<Rightarrow> (bytes \<times> bytes) list \<Rightarrow> 'kv storage_service \<Rightarrow>
    'kv storage_service \<times> (unit, storage_error) outcome" where
  "load_locations P [] s = (s, Ok ())"
| "load_locations P ((key, v) # entries) s =
     (if length key \<noteq> 34 then load_locations P entries s
      else
        (case sp_deserialize_location P v of
           Ok location \<Rightarrow>
             load_locations P entries
               (s\<lparr>bs_tx_index := AList.update (from_be_bytes (take 32 (drop 2 key))) location (bs_tx_index s)\<rparr>)
         | Err e \<Rightarrow> (s, Err (SeSerializationError (''Failed to deserialize tx location: '' @ e)))
         | Panic \<Rightarrow> (s, Panic)))"

definition load_transaction_index_from_storage :: "'kv storage_ports \<Rightarrow> 'kv storage_service \<Rightarrow>
    'kv storage_service \<times> (unit, storage_error) outcome" where
  "load_transaction_index_from_storage P s =
     (if \<not> sc_persist_transaction_index (bs_config s) then (s, Ok ())
      else
        (case kv_prefix_scan (sp_kv P) (bs_kv_store s) (prefix_bytes KpTransaction) of
           Err e \<Rightarrow> (s, Err (of_kv_error e))
         | Panic \<Rightarrow> (s, Panic)
         | Ok entries \<Rightarrow> load_locations P entries s))"

text \<open>A failure to load is logged and ignored.\<close>

definition new_storage :: "'kv storage_ports \<Rightarrow> 'kv \<Rightarrow> storage_config \<Rightarrow> 'kv storage_service" where
  "new_storage P kv cfg =
     (let s = \<lparr>bs_kv_store = kv, bs_config = cfg, bs_assembly_buffer = new_buffer (sc_assembly_config cfg),
               bs_block_index = [], bs_metadata = default_metadata, bs_tx_index = []\<rparr> in
      fst (load_transaction_index_from_storage P (fst (load_index_from_storage P s))))"

subsection \<open>Writing and reading blocks\<close>

definition check_disk_space :: "'kv storage_ports \<Rightarrow> (u8, fs_error) outcome \<Rightarrow> 'kv storage_service \<Rightarrow>
    (unit, storage_error) outcome" where
  "check_disk_space P disk s =
     (case disk of
        Err e \<Rightarrow> Err (DatabaseError (''Failed to check disk space: '' @ sp_fs_debug P e))
      | Panic \<Rightarrow> Panic
      | Ok available \<Rightarrow>
          if available < sc_min_disk_space_percent (bs_config s)
          then Err (DiskFull available (sc_min_disk_space_percent (bs_config s)))
          else Ok ())"

definition block_exists :: "'kv storage_ports \<Rightarrow> hash \<Rightarrow> 'kv storage_service \<Rightarrow> bool" where
  "block_exists P h s =
     (case kv_exists (sp_kv P) (bs_kv_store s) (block_key h) of Ok b \<Rightarrow> b | _ \<Rightarrow> False)"

definition check_parent_exists :: "'kv storage_ports \<Rightarrow> validated_block \<Rightarrow> 'kv storage_service \<Rightarrow>
    (unit, storage_error) outcome" where
  "check_parent_exists P block s =
     (if bh_height (vb_header block) = 0 then Ok ()
      else if \<not> block_exists P (bh_parent_hash (vb_header block)) s
      then Err (ParentNotFound (bh_parent_hash (vb_header block)))
      else Ok ())"

definition compute_block_checksum :: "'kv storage_ports \<Rightarrow> validated_block \<Rightarrow> hash \<Rightarrow> hash \<Rightarrow> u32" where
  "compute_block_checksum P block merkle_root state_root =
     sp_crc32c P (be_bytes 32 (bh_parent_hash (vb_header block)) @ le_bytes 8 (bh_height (vb_header block)) @
       be_bytes 32 merkle_root @ be_bytes 32 state_root)"

definition verify_block_checksum :: "'kv storage_ports \<Rightarrow> stored_block \<Rightarrow> (unit, storage_error) outcome" where
  "verify_block_checksum P sb =
     (let expected = compute_block_checksum P (sb_block sb) (sb_merkle_root sb) (sb_state_root sb) in
      if sb_checksum sb \<noteq> expected
      then Err (DataCorruption (stored_block_hash (sp_sha256 P) sb) expected (sb_checksum sb))
      else Ok ())"

definition compute_block_hash :: "'kv storage_ports \<Rightarrow> validated_block \<Rightarrow> hash" where
  "compute_block_hash P block = sp_sha256 P (header_preimage (vb_header block))"

fun index_transactions_from :: "'kv storage_ports \<Rightarrow> nat \<Rightarrow> validated_transaction list \<Rightarrow> validated_block \<Rightarrow> hash \<Rightarrow>
    'kv storage_service \<Rightarrow> 'kv storage_service" where
  "index_transactions_from P i [] block block_hash s = s"
| "index_transactions_from P i (tx # txs) block block_hash s =
     (let location = \<lparr>xl_block_hash = block_hash, xl_block_height = bh_height (vb_header block),
            xl_transaction_index = i, xl_merkle_root = bh_merkle_root (vb_header block)\<rparr>;
          s1 = s\<lparr>bs_tx_index := AList.update (vt_tx_hash tx) location (bs_tx_index s)\<rparr>;
          s2 = (if \<not> sc_persist_transaction_index (bs_config s1) then s1
                else case sp_serialize_location P location of
                  None \<Rightarrow> s1
                | Some v \<Rightarrow>
                    s1\<lparr>bs_kv_store := fst (kv_put (sp_kv P) (transaction_key (vt_tx_hash tx)) v (bs_kv_store s1))\<rparr>) in
      index_transactions_from P (Suc i) txs block block_hash s2)"

definition index_transactions :: "'kv storage_ports \<Rightarrow> validated_block \<Rightarrow> hash \<Rightarrow> 'kv storage_service \<Rightarrow>
    'kv storage_service" where
  "index_transactions P block block_hash s = index_transactions_from P 0 (vb_transactions block) block block_hash s"

definition write_block :: "'kv storage_ports \<Rightarrow> (u8, fs_error) outcome \<Rightarrow> timestamp \<Rightarrow> validated_block \<Rightarrow> hash \<Rightarrow> hash \<Rightarrow>
    'kv storage_service \<Rightarrow> 'kv storage_service \<times> (hash, storage_error) outcome" where
  "write_block P disk now block merkle_root state_root s =
     (let height = bh_height (vb_header block) in
      case check_disk_space P disk s of
        Err e \<Rightarrow> (s, Err e)
      | Panic \<Rightarrow> (s, Panic)
      | Ok _ \<Rightarrow>
      case check_parent_exists P block s of
        Err e \<Rightarrow> (s, Err e)
      | Panic \<Rightarrow> (s, Panic)
      | Ok _ \<Rightarrow>
      let block_hash = compute_block_hash P block in
      if block_exists P block_hash s then (s, Err (BlockExists block_hash))
      else
      let checksum = compute_block_checksum P block merkle_root state_root;
          sb = new_stored_block block merkle_root state_root now checksum;
          n = sp_estimate_size P sb in
      if sc_max_block_size (bs_config s) < n then (s, Err (BlockTooLarge n (sc_max_block_size (bs_config s))))
      else
      case sp_serialize P sb of
        Err e \<Rightarrow> (s, Err (SeSerializationError e))
      | Panic \<Rightarrow> (s, Panic)
      | Ok data \<Rightarrow>
      case kv_atomic_batch_write (sp_kv P)
          [BatchPut (block_key block_hash) data, BatchPut (height_key height) (be_bytes 32 block_hash)] (bs_kv_store s) of
        (kv, Err e) \<Rightarrow> (s\<lparr>bs_kv_store := kv\<rparr>, Err (of_kv_error e))
      | (kv, Panic) \<Rightarrow> (s\<lparr>bs_kv_store := kv\<rparr>, Panic)
      | (kv, Ok _) \<Rightarrow>
      let s1 = s\<lparr>bs_kv_store := kv, bs_block_index := index_insert height block_hash (bs_block_index s)\<rparr> in
      case on_block_stored height block_hash (bs_metadata s1) of
        None \<Rightarrow> (s1, Panic)
      | Some m \<Rightarrow> (index_transactions P block block_hash (s1\<lparr>bs_metadata := m\<rparr>), Ok block_hash))"

definition read_block :: "'kv storage_ports \<Rightarrow> hash \<Rightarrow> 'kv storage_service \<Rightarrow> (stored_block, storage_error) outcome" where
  "read_block P h s =
     (case kv_get (sp_kv P) (bs_kv_store s) (block_key h) of
        Err e \<Rightarrow> Err (of_kv_error e)
      | Panic \<Rightarrow> Panic
      | Ok None \<Rightarrow> Err (BlockNotFound h)
      | Ok (Some data) \<Rightarrow>
          (case sp_deserialize P data of
             Err e \<Rightarrow> Err (SeSerializationError e)
           | Panic \<Rightarrow> Panic
           | Ok sb \<Rightarrow>
               (case verify_block_checksum P sb of
                  Err e \<Rightarrow> Err e
                | Panic \<Rightarrow> Panic
                | Ok _ \<Rightarrow> Ok sb)))"

definition read_block_by_height :: "'kv storage_ports \<Rightarrow> u64 \<Rightarrow> 'kv storage_service \<Rightarrow>
    (stored_block, storage_error) outcome" where
  "read_block_by_height P height s =
     (case index_get height (bs_block_index s) of
        None \<Rightarrow> Err (HeightNotFound height)
      | Some h \<Rightarrow> read_block P h s)"

fun read_heights :: "'kv storage_ports \<Rightarrow> u64 list \<Rightarrow> 'kv storage_service \<Rightarrow> (stored_block list, storage_error) outcome" where
  "read_heights P [] s = Ok []"
| "read_heights P (height # heights) s =
     (case read_block_by_height P height s of
        Ok sb \<Rightarrow>
          (case read_heights P heights s of Ok rest \<Rightarrow> Ok (sb # rest) | Err e \<Rightarrow> Err e | Panic \<Rightarrow> Panic)
      | Err (HeightNotFound _) \<Rightarrow> Ok []
      | Err e \<Rightarrow> Err e
      | Panic \<Rightarrow> Panic)"

definition read_block_range :: "'kv storage_ports \<Rightarrow> u64 \<Rightarrow> u64 \<Rightarrow> 'kv storage_service \<Rightarrow>
    (stored_block list, storage_error) outcome" where
  "read_block_range P start_height limit s =
     (let limit' = min limit 100 in
      if \<not> index_contains start_height (bs_block_index s) then Err (HeightNotFound start_height)
      else
        (case checked_add start_height limit' of
           None \<Rightarrow> Panic
         | Some _ \<Rightarrow> read_heights P (map (\<lambda>i. start_height + of_nat i) [0..<unat limit']) s))"

definition mark_finalized :: "u64 \<Rightarrow> 'kv storage_service \<Rightarrow> 'kv storage_service \<times> (unit, storage_error) outcome" where
  "mark_finalized height s =
     (if \<not> index_contains height (bs_block_index s) then (s, Err (HeightNotFound height))
      else
        (case on_finalized height (bs_metadata s) of
           (m, False) \<Rightarrow> (s\<lparr>bs_metadata := m\<rparr>, Err (InvalidFinalization height (sm_finalized_height m)))
         | (m, True) \<Rightarrow> (s\<lparr>bs_metadata := m\<rparr>, Ok ())))"

definition get_transaction_location :: "hash \<Rightarrow> 'kv storage_service \<Rightarrow> (tx_location, storage_error) outcome" where
  "get_transaction_location h s =
     (case map_of (bs_tx_index s) h of None \<Rightarrow> Err (SeTransactionNotFound h) | Some l \<Rightarrow> Ok l)"

definition get_transaction_hashes_for_block :: "'kv storage_ports \<Rightarrow> hash \<Rightarrow> 'kv storage_service \<Rightarrow>
    (hash list, storage_error) outcome" where
  "get_transaction_hashes_for_block P block_hash s =
     (case read_block P block_hash s of
        Ok sb \<Rightarrow> Ok (map vt_tx_hash (vb_transactions (sb_block sb)))
      | Err e \<Rightarrow> Err e
      | Panic \<Rightarrow> Panic)"

subsection \<open>Assembling blocks\<close>

definition try_complete_assembly :: "'kv storage_ports \<Rightarrow> (u8, fs_error) outcome \<Rightarrow> timestamp \<Rightarrow> hash \<Rightarrow>
    'kv storage_service \<Rightarrow> 'kv storage_service \<times> (hash option, storage_error) outcome" where
  "try_complete_assembly P disk clock block_hash s =
     (case take_complete block_hash (bs_assembly_buffer s) of
        (b, None) \<Rightarrow> (s\<lparr>bs_assembly_buffer := b\<rparr>, Ok None)
      | (b, Some assembly) \<Rightarrow>
          (let s1 = s\<lparr>bs_assembly_buffer := b\<rparr> in
           case take_components assembly of
             None \<Rightarrow> (s1, Ok None)
           | Some (block, merkle_root, state_root) \<Rightarrow>
               (case write_block P disk clock block merkle_root state_root s1 of
                  (s2, Ok h) \<Rightarrow> (s2, Ok (Some h))
                | (s2, Err e) \<Rightarrow> (s2, Err e)
                | (s2, Panic) \<Rightarrow> (s2, Panic))))"

definition completed :: "'kv storage_service \<times> (hash option, storage_error) outcome \<Rightarrow>
    'kv storage_service \<times> (unit, storage_error) outcome" where
  "completed = (\<lambda>(s, r). (s, case r of Ok _ \<Rightarrow> Ok () | Err e \<Rightarrow> Err e | Panic \<Rightarrow> Panic))"

definition on_block_validated :: "'kv storage_ports \<Rightarrow> (u8, fs_error) outcome \<Rightarrow> timestamp \<Rightarrow> u8 \<Rightarrow> validated_block \<Rightarrow>
    timestamp \<Rightarrow> 'kv storage_service \<Rightarrow> 'kv storage_service \<times> (unit, storage_error) outcome" where
  "on_block_validated P disk clock sender_id block now s =
     (if sender_id \<noteq> STORAGE_CONSENSUS
      then (s, Err (SeUnauthorizedSender sender_id STORAGE_CONSENSUS ''BlockValidated''))
      else
        (let block_hash = compute_block_hash P block;
             b = fst (enforce_max_pending (add_block_validated block_hash block now (bs_assembly_buffer s))) in
         completed (try_complete_assembly P disk clock block_hash (s\<lparr>bs_assembly_buffer := b\<rparr>))))"

definition on_merkle_root_computed :: "'kv storage_ports \<Rightarrow> (u8, fs_error) outcome \<Rightarrow> timestamp \<Rightarrow> u8 \<Rightarrow> hash \<Rightarrow> hash \<Rightarrow>
    timestamp \<Rightarrow> 'kv storage_service \<Rightarrow> 'kv storage_service \<times> (unit, storage_error) outcome" where
  "on_merkle_root_computed P disk clock sender_id block_hash merkle_root now s =
     (if sender_id \<noteq> STORAGE_TRANSACTION_INDEXING
      then (s, Err (SeUnauthorizedSender sender_id STORAGE_TRANSACTION_INDEXING ''MerkleRootComputed''))
      else
        completed (try_complete_assembly P disk clock block_hash
          (s\<lparr>bs_assembly_buffer := add_merkle_root block_hash merkle_root now (bs_assembly_buffer s)\<rparr>)))"

definition on_state_root_computed :: "'kv storage_ports \<Rightarrow> (u8, fs_error) outcome \<Rightarrow> timestamp \<Rightarrow> u8 \<Rightarrow> hash \<Rightarrow> hash \<Rightarrow>
    timestamp \<Rightarrow> 'kv storage_service \<Rightarrow> 'kv storage_service \<times> (unit, storage_error) outcome" where
  "on_state_root_computed P disk clock sender_id block_hash state_root now s =
     (if sender_id \<noteq> STORAGE_STATE_MANAGEMENT
      then (s, Err (SeUnauthorizedSender sender_id STORAGE_STATE_MANAGEMENT ''StateRootComputed''))
      else
        completed (try_complete_assembly P disk clock block_hash
          (s\<lparr>bs_assembly_buffer := add_state_root block_hash state_root now (bs_assembly_buffer s)\<rparr>)))"

definition gc_expired_assemblies :: "timestamp \<Rightarrow> 'kv storage_service \<Rightarrow> 'kv storage_service \<times> hash list" where
  "gc_expired_assemblies now s =
     (case gc_expired now (bs_assembly_buffer s) of (b, hs) \<Rightarrow> (s\<lparr>bs_assembly_buffer := b\<rparr>, hs))"

definition gc_expired_assemblies_with_data :: "timestamp \<Rightarrow> 'kv storage_service \<Rightarrow>
    'kv storage_service \<times> (hash \<times> pending_block_assembly) list" where
  "gc_expired_assemblies_with_data now s =
     (case gc_expired_with_data now (bs_assembly_buffer s) of (b, l) \<Rightarrow> (s\<lparr>bs_assembly_buffer := b\<rparr>, l))"

section \<open>Key-value stores\<close>

fun apply_operation :: "batch_operation \<Rightarrow> (bytes \<times> bytes) list \<Rightarrow> (bytes \<times> bytes) list" where
  "apply_operation (BatchPut k v) m = AList.update k v m"
| "apply_operation (BatchDelete k) m = AList.delete k m"

definition mem_prefix_scan :: "(bytes \<times> bytes) list \<Rightarrow> bytes \<Rightarrow> ((bytes \<times> bytes) list, kv_store_error) outcome" where
  "mem_prefix_scan m p = Ok (filter (\<lambda>(k, _). prefix p k) m)"

definition mem_store :: "(bytes \<times> bytes) list kv_ops" where
  "mem_store =
     \<lparr>kv_get = (\<lambda>m k. Ok (map_of m k)),
      kv_put = (\<lambda>k v m. (AList.update k v m, Ok ())),
      kv_delete = (\<lambda>k m. (AList.delete k m, Ok ())),
      kv_atomic_batch_write = (\<lambda>operations m. (fold apply_operation operations m, Ok ())),
      kv_exists = (\<lambda>m k. Ok (map_of m k \<noteq> None)),
      kv_prefix_scan = mem_prefix_scan\<rparr>"

text \<open>The file-backed store keeps the same map and writes it out after every change; \<open>save\<close> is the
  outcome of writing the file.\<close>

definition file_store :: "((bytes \<times> bytes) list \<Rightarrow> (unit, kv_store_error) outcome) \<Rightarrow> (bytes \<times> bytes) list kv_ops" where
  "file_store save =
     \<lparr>kv_get = (\<lambda>m k. Ok (map_of m k)),
      kv_put = (\<lambda>k v m. let m' = AList.update k v m in (m', save m')),
      kv_delete = (\<lambda>k m. let m' = AList.delete k m in (m', save m')),
      kv_atomic_batch_write = (\<lambda>operations m. let m' = fold apply_operation operations m in (m', save m')),
      kv_exists = (\<lambda>m k. Ok (map_of m k \<noteq> None)),
      kv_prefix_scan = mem_prefix_scan\<rparr>"

section \<open>The store's contract\<close>

text \<open>What the port promises: reads agree with an abstract map, a batch is applied entirely or not
  at all, and a scan returns the entries below a prefix once each.\<close>

fun batch_view :: "batch_operation list \<Rightarrow> (bytes \<rightharpoonup> bytes) \<Rightarrow> bytes \<rightharpoonup> bytes" where
  "batch_view [] m = m"
| "batch_view (BatchPut k v # ops) m = batch_view ops (m(k \<mapsto> v))"
| "batch_view (BatchDelete k # ops) m = batch_view ops (m(k := None))"

locale kv_contract =
  fixes ops :: "'kv kv_ops" and view :: "'kv \<Rightarrow> bytes \<rightharpoonup> bytes" and kv_ok :: "'kv \<Rightarrow> bool"
  assumes get_view: "kv_ok kv \<Longrightarrow> kv_get ops kv k = Ok found \<Longrightarrow> found = view kv k"
    and exists_view: "kv_ok kv \<Longrightarrow> kv_exists ops kv k = Ok b \<Longrightarrow> b = (view kv k \<noteq> None)"
    and put_ok: "kv_ok kv \<Longrightarrow> kv_put ops k v kv = (kv', r) \<Longrightarrow> kv_ok kv'"
    and put_view: "kv_ok kv \<Longrightarrow> kv_put ops k v kv = (kv', r) \<Longrightarrow> view kv' \<in> {view kv, (view kv)(k \<mapsto> v)}"
    and batch_ok: "kv_ok kv \<Longrightarrow> kv_atomic_batch_write ops bs kv = (kv', r) \<Longrightarrow> kv_ok kv'"
    and batch_applied: "kv_ok kv \<Longrightarrow> kv_atomic_batch_write ops bs kv = (kv', Ok u) \<Longrightarrow> view kv' = batch_view bs (view kv)"
    and batch_refused: "kv_ok kv \<Longrightarrow> kv_atomic_batch_write ops bs kv = (kv', r) \<Longrightarrow> \<not> is_ok r \<Longrightarrow> view kv' = view kv"
    and scan_view: "kv_ok kv \<Longrightarrow> kv_prefix_scan ops kv p = Ok es \<Longrightarrow>
      hm_inv es \<and> (\<forall>k. map_of es k = (if prefix p k then view kv k else None))"

locale reliable_store = kv_contract +
  assumes get_total: "kv_ok kv \<Longrightarrow> is_ok (kv_get ops kv k)"
    and exists_total: "kv_ok kv \<Longrightarrow> is_ok (kv_exists ops kv k)"
    and scan_total: "kv_ok kv \<Longrightarrow> is_ok (kv_prefix_scan ops kv p)"

lemma apply_operations:
  "hm_inv m \<Longrightarrow> hm_inv (fold apply_operation bs m) \<and> map_of (fold apply_operation bs m) = batch_view bs (map_of m)"
proof (induction bs arbitrary: m)
  case (Cons b bs)
  then show ?case by (cases b) (simp_all add: hm.inv_ins hm.inv_del update_conv' delete_conv' fun_upd_def)
qed simp

lemma scan_filter:
  "hm_inv m \<Longrightarrow> mem_prefix_scan m p = Ok es \<Longrightarrow>
   hm_inv es \<and> (\<forall>k. map_of es k = (if prefix p k then map_of m k else None))"
  by (auto simp: mem_prefix_scan_def hm_filter_inv hm_filter_lookup split: option.splits)

interpretation mem: reliable_store mem_store map_of hm_inv
  by unfold_locales
    (auto simp: mem_store_def hm.inv_ins update_conv' apply_operations scan_filter mem_prefix_scan_def
      dest: scan_filter)

section \<open>Keys\<close>

lemma key_inject [simp]:
  "block_key a = block_key b \<longleftrightarrow> a = b" "height_key h = height_key i \<longleftrightarrow> h = i"
  "transaction_key a = transaction_key b \<longleftrightarrow> a = b"
  by (simp_all add: block_key_def height_key_def transaction_key_def prefix_key_def be_bytes_eq_iff)

lemma key_disjoint [simp]:
  "block_key a \<noteq> height_key h" "height_key h \<noteq> block_key a" "block_key a \<noteq> transaction_key b"
  "transaction_key b \<noteq> block_key a" "height_key h \<noteq> transaction_key b" "transaction_key b \<noteq> height_key h"
  by (simp_all add: block_key_def height_key_def transaction_key_def prefix_key_def)

lemma height_key_parts: "length (height_key h) = 10" "prefix [104, 58] (height_key h)"
  "take 8 (drop 2 (height_key h)) = be_bytes 8 h"
  by (simp_all add: height_key_def prefix_key_def)

lemma height_key_of:
  assumes "length key = 10" and "prefix (prefix_bytes KpBlockByHeight) key"
  shows "key = height_key (from_be_bytes (take 8 (drop 2 key)))"
proof -
  obtain r where r: "key = [104, 58] @ r" using assms(2) by (auto elim: prefixE)
  then have "length r = 8" using assms(1) by simp
  then show ?thesis by (simp add: r height_key_def prefix_key_def be_bytes_from_be_bytes)
qed

section \<open>The stored chain\<close>

text \<open>What the serializer's documentation promises: reading back what was written.\<close>

definition serializer_laws :: "'kv storage_ports \<Rightarrow> bool" where
  "serializer_laws P \<longleftrightarrow> (\<forall>sb data. sp_serialize P sb = Ok data \<longrightarrow> sp_deserialize P data = Ok sb)"

text \<open>A consistent store: every block entry decodes to a block with that hash, a valid checksum and a
  stored parent, and every height entry names a stored block of that height.\<close>

definition chain_ok :: "'kv storage_ports \<Rightarrow> (bytes \<rightharpoonup> bytes) \<Rightarrow> bool" where
  "chain_ok P m \<longleftrightarrow>
     (\<forall>h data. m (block_key h) = Some data \<longrightarrow>
        (\<exists>sb. sp_deserialize P data = Ok sb \<and> compute_block_hash P (sb_block sb) = h \<and> verify_block_checksum P sb = Ok () \<and>
           (bh_height (vb_header (sb_block sb)) = 0 \<or> m (block_key (bh_parent_hash (vb_header (sb_block sb)))) \<noteq> None))) \<and>
     (\<forall>n v. m (height_key n) = Some v \<longrightarrow>
        (\<exists>h data sb. v = be_bytes 32 h \<and> m (block_key h) = Some data \<and> sp_deserialize P data = Ok sb \<and>
           bh_height (vb_header (sb_block sb)) = n))"

lemma chain_ok_write:
  assumes ok: "chain_ok P m" and fresh: "m (block_key h) = None"
    and data: "sp_deserialize P data = Ok sb" "compute_block_hash P (sb_block sb) = h" "verify_block_checksum P sb = Ok ()"
    and n: "bh_height (vb_header (sb_block sb)) = n"
    and parent: "n = 0 \<or> m (block_key (bh_parent_hash (vb_header (sb_block sb)))) \<noteq> None"
  shows "chain_ok P (m(block_key h \<mapsto> data, height_key n \<mapsto> be_bytes 32 h))"
  unfolding chain_ok_def
proof (intro conjI allI impI)
  let ?m = "m(block_key h \<mapsto> data, height_key n \<mapsto> be_bytes 32 h)"
  fix h' data' assume "?m (block_key h') = Some data'"
  then show "\<exists>sb. sp_deserialize P data' = Ok sb \<and> compute_block_hash P (sb_block sb) = h' \<and> verify_block_checksum P sb = Ok () \<and>
      (bh_height (vb_header (sb_block sb)) = 0 \<or> ?m (block_key (bh_parent_hash (vb_header (sb_block sb)))) \<noteq> None)"
    using ok data n parent by (cases "h' = h") (fastforce simp: chain_ok_def)+
next
  let ?m = "m(block_key h \<mapsto> data, height_key n \<mapsto> be_bytes 32 h)"
  fix n' v assume v: "?m (height_key n') = Some v"
  show "\<exists>h data sb. v = be_bytes 32 h \<and> ?m (block_key h) = Some data \<and> sp_deserialize P data = Ok sb \<and>
      bh_height (vb_header (sb_block sb)) = n'"
  proof (cases "n' = n")
    case True
    with v data n show ?thesis by (intro exI [of _ h]) auto
  next
    case False
    then have "m (height_key n') = Some v" using v by simp
    then obtain h' data' sb' where "v = be_bytes 32 h'" "m (block_key h') = Some data'" "sp_deserialize P data' = Ok sb'"
        "bh_height (vb_header (sb_block sb')) = n'"
      using ok unfolding chain_ok_def by blast
    with fresh show ?thesis by (intro exI [of _ h'] exI [of _ data'] exI [of _ sb']) auto
  qed
qed

lemma chain_ok_other:
  assumes "chain_ok P m" and "\<And>h. m' (block_key h) = m (block_key h)" and "\<And>n. m' (height_key n) = m (height_key n)"
  shows "chain_ok P m'"
  using assms(1) unfolding chain_ok_def assms(2, 3) .

section \<open>What a write does\<close>

lemma write_block_cases:
  assumes "write_block P disk now block merkle state s = (s', r)"
  obtains (rejected) "s' = s" "\<not> is_ok r"
  | (failed) data kv r0 where "kv_atomic_batch_write (sp_kv P)
        [BatchPut (block_key (compute_block_hash P block)) data,
         BatchPut (height_key (bh_height (vb_header block))) (be_bytes 32 (compute_block_hash P block))] (bs_kv_store s) = (kv, r0)"
      "\<not> is_ok r0" "s' = s\<lparr>bs_kv_store := kv\<rparr>" "\<not> is_ok r"
  | (written) data kv where
      "\<not> block_exists P (compute_block_hash P block) s"
      "bh_height (vb_header block) = 0 \<or> block_exists P (bh_parent_hash (vb_header block)) s"
      "sp_serialize P (new_stored_block block merkle state now (compute_block_checksum P block merkle state)) = Ok data"
      "kv_atomic_batch_write (sp_kv P)
        [BatchPut (block_key (compute_block_hash P block)) data,
         BatchPut (height_key (bh_height (vb_header block))) (be_bytes 32 (compute_block_hash P block))] (bs_kv_store s) = (kv, Ok ())"
      "r = Panic \<and> s' = s\<lparr>bs_kv_store := kv,
          bs_block_index := index_insert (bh_height (vb_header block)) (compute_block_hash P block) (bs_block_index s)\<rparr> \<or>
       (\<exists>m. on_block_stored (bh_height (vb_header block)) (compute_block_hash P block) (bs_metadata s) = Some m \<and>
          r = Ok (compute_block_hash P block) \<and>
          s' = index_transactions P block (compute_block_hash P block) (s\<lparr>bs_kv_store := kv,
            bs_block_index := index_insert (bh_height (vb_header block)) (compute_block_hash P block) (bs_block_index s),
            bs_metadata := m\<rparr>))"
proof -
  let ?h = "compute_block_hash P block" and ?n = "bh_height (vb_header block)"
  let ?sb = "new_stored_block block merkle state now (compute_block_checksum P block merkle state)"
  let ?s1 = "\<lambda>kv. s\<lparr>bs_kv_store := kv, bs_block_index := index_insert ?n ?h (bs_block_index s)\<rparr>"
  note w = assms [unfolded write_block_def Let_def]
  consider (early) "s' = s" "\<not> is_ok r"
    | (run) data where "\<not> block_exists P ?h s" "?n = 0 \<or> block_exists P (bh_parent_hash (vb_header block)) s"
        "sp_serialize P ?sb = Ok data"
        "(case kv_atomic_batch_write (sp_kv P) [BatchPut (block_key ?h) data, BatchPut (height_key ?n) (be_bytes 32 ?h)] (bs_kv_store s) of
           (kv, Err e) \<Rightarrow> (s\<lparr>bs_kv_store := kv\<rparr>, Err (of_kv_error e))
         | (kv, Panic) \<Rightarrow> (s\<lparr>bs_kv_store := kv\<rparr>, Panic)
         | (kv, Ok _) \<Rightarrow>
             (case on_block_stored ?n ?h (bs_metadata (?s1 kv)) of
                None \<Rightarrow> (?s1 kv, Panic)
              | Some m \<Rightarrow> (index_transactions P block ?h ((?s1 kv)\<lparr>bs_metadata := m\<rparr>), Ok ?h))) = (s', r)"
    using w by (auto simp: check_parent_exists_def simp del: split_paired_All split: outcome.splits if_splits)
  then show thesis
  proof cases
    case early
    then show ?thesis by (rule rejected)
  next
    case (run data)
    obtain kv r0 where b: "kv_atomic_batch_write (sp_kv P) [BatchPut (block_key ?h) data, BatchPut (height_key ?n) (be_bytes 32 ?h)]
        (bs_kv_store s) = (kv, r0)" by fastforce
    show ?thesis
    proof (cases r0)
      case (Ok u)
      have "bs_metadata (?s1 kv) = bs_metadata s" by simp
      with run(4) b Ok show ?thesis
        by (intro written [OF run(1-3)]) (auto split: option.splits)
    next
      case (Err e)
      with run(4) b show ?thesis by (intro failed [OF b]) auto
    next
      case Panic
      with run(4) b show ?thesis by (intro failed [OF b]) auto
    qed
  qed
qed

text \<open>Indexing transactions touches transaction keys and the transaction index only.\<close>

lemma index_transactions_frame:
  "bs_block_index (index_transactions_from P i txs block h s) = bs_block_index s \<and>
   bs_metadata (index_transactions_from P i txs block h s) = bs_metadata s \<and>
   bs_config (index_transactions_from P i txs block h s) = bs_config s \<and>
   bs_assembly_buffer (index_transactions_from P i txs block h s) = bs_assembly_buffer s"
  by (induction txs arbitrary: i s) (auto simp: Let_def split: option.splits)

context reliable_store
begin

lemma index_transactions_view:
  assumes "kv_ok (bs_kv_store s)" and "sp_kv P = ops"
  shows "kv_ok (bs_kv_store (index_transactions_from P i txs block h s)) \<and>
    (\<forall>k. (\<forall>t. k \<noteq> transaction_key t) \<longrightarrow>
       view (bs_kv_store (index_transactions_from P i txs block h s)) k = view (bs_kv_store s) k)"
  using assms(1)
proof (induction txs arbitrary: i s)
  case (Cons tx txs)
  let ?put = "\<lambda>v. fst (kv_put ops (transaction_key (vt_tx_hash tx)) v (bs_kv_store s))"
  have put: "kv_ok (?put v)" "\<And>k. k \<noteq> transaction_key (vt_tx_hash tx) \<Longrightarrow> view (?put v) k = view (bs_kv_store s) k" for v
    using put_ok [OF Cons.prems] put_view [OF Cons.prems]
    by (metis prod.collapse, metis (no_types, lifting) fun_upd_other insert_iff prod.collapse singletonD)
  show ?case
    using Cons.prems put
    by (auto simp: Let_def assms(2) Cons.IH split: option.splits)
qed simp

lemma exists_iff: "kv_ok kv \<Longrightarrow> kv_exists ops kv k = Ok (view kv k \<noteq> None)"
  using exists_total [of kv k] exists_view [of kv k] by (auto simp: is_ok_iff)

lemma get_iff: "kv_ok kv \<Longrightarrow> kv_get ops kv k = Ok (view kv k)"
  using get_total [of kv k] get_view [of kv k] by (auto simp: is_ok_iff)

lemma block_exists_iff:
  "kv_ok (bs_kv_store s) \<Longrightarrow> sp_kv P = ops \<Longrightarrow> block_exists P h s \<longleftrightarrow> view (bs_kv_store s) (block_key h) \<noteq> None"
  by (simp add: block_exists_def exists_iff)

end

section \<open>Reachable services\<close>

inductive storage_reachable :: "'kv storage_ports \<Rightarrow> 'kv \<Rightarrow> 'kv storage_service \<Rightarrow> bool" for P kv0 where
  st_start: "storage_reachable P kv0 (new_storage P kv0 cfg)"
| st_write: "storage_reachable P kv0 s \<Longrightarrow> write_block P disk clock block merkle state s = (s', r) \<Longrightarrow> storage_reachable P kv0 s'"
| st_finalize: "storage_reachable P kv0 s \<Longrightarrow> mark_finalized height s = (s', q) \<Longrightarrow> storage_reachable P kv0 s'"
| st_block: "storage_reachable P kv0 s \<Longrightarrow> on_block_validated P disk clock i block now s = (s', q) \<Longrightarrow> storage_reachable P kv0 s'"
| st_merkle: "storage_reachable P kv0 s \<Longrightarrow> on_merkle_root_computed P disk clock i h root now s = (s', q) \<Longrightarrow> storage_reachable P kv0 s'"
| st_state: "storage_reachable P kv0 s \<Longrightarrow> on_state_root_computed P disk clock i h root now s = (s', q) \<Longrightarrow> storage_reachable P kv0 s'"
| st_gc_data: "storage_reachable P kv0 s \<Longrightarrow> storage_reachable P kv0 (fst (gc_expired_assemblies_with_data now s))"
| st_gc: "storage_reachable P kv0 s \<Longrightarrow> storage_reachable P kv0 (fst (gc_expired_assemblies now s))"
| st_restart: "storage_reachable P kv0 s \<Longrightarrow> storage_reachable P kv0 (new_storage P (bs_kv_store s) cfg)"

text \<open>The events either leave the service alone up to its buffer or write one block.\<close>

lemma try_complete_cases:
  assumes "try_complete_assembly P disk clock h s = (s', r)"
  obtains (waiting) b where "s' = s\<lparr>bs_assembly_buffer := b\<rparr>"
  | (stored) b block merkle state r' where "write_block P disk clock block merkle state (s\<lparr>bs_assembly_buffer := b\<rparr>) = (s', r')"
proof (cases "take_complete h (bs_assembly_buffer s)")
  case (Pair b found)
  show ?thesis
  proof (cases "Option.bind found take_components")
    case None
    with assms Pair show ?thesis
      by (intro waiting [of b]) (auto simp: try_complete_assembly_def split: option.splits)
  next
    case (Some c)
    then obtain block merkle state where "c = (block, merkle, state)" by (cases c)
    with assms Pair Some show ?thesis
      by (cases "write_block P disk clock block merkle state (s\<lparr>bs_assembly_buffer := b\<rparr>)")
         (rule stored [of block merkle state b], auto simp: try_complete_assembly_def Let_def bind_eq_Some_conv split: outcome.splits)
  qed
qed

lemma fst_completed: "fst (completed p) = fst p"
  by (cases p) (simp add: completed_def)

lemmas event_defs = on_block_validated_def on_merkle_root_computed_def on_state_root_computed_def Let_def

text \<open>A property of services that ignores the buffer is kept by the three events if it is kept by a write.\<close>

lemma event_invariant:
  assumes "I s" and buf: "\<And>s b. I s \<Longrightarrow> I (s\<lparr>bs_assembly_buffer := b\<rparr>)"
    and wr: "\<And>s s' block merkle state r. I s \<Longrightarrow> write_block P disk clock block merkle state s = (s', r) \<Longrightarrow> I s'"
  shows "on_block_validated P disk clock i block now s = (s', q) \<Longrightarrow> I s'"
    and "on_merkle_root_computed P disk clock i h root now s = (s', q) \<Longrightarrow> I s'"
    and "on_state_root_computed P disk clock i h root now s = (s', q) \<Longrightarrow> I s'"
proof -
  have tc: "I (fst (try_complete_assembly P disk clock h s))" if "I s" for h s
  proof (cases "try_complete_assembly P disk clock h s")
    case (Pair s' r)
    from Pair show ?thesis
    proof (cases rule: try_complete_cases)
      case (waiting b)
      with Pair buf [OF that] show ?thesis by simp
    next
      case (stored b block merkle state r')
      with Pair wr [OF buf [OF that]] show ?thesis by simp
    qed
  qed
  have "I (fst (completed (try_complete_assembly P disk clock h (s\<lparr>bs_assembly_buffer := b\<rparr>))))" for h b
    using tc [OF buf [OF assms(1)]] by (simp add: fst_completed)
  then have ev: "completed (try_complete_assembly P disk clock h (s\<lparr>bs_assembly_buffer := b\<rparr>)) = (s', q) \<Longrightarrow> I s'" for h b s' q
    by (metis fst_conv)
  show "on_block_validated P disk clock i block now s = (s', q) \<Longrightarrow> I s'"
    and "on_merkle_root_computed P disk clock i h root now s = (s', q) \<Longrightarrow> I s'"
    and "on_state_root_computed P disk clock i h root now s = (s', q) \<Longrightarrow> I s'"
    using assms(1) ev by (auto simp: event_defs split: if_splits)
qed

section \<open>The height index\<close>

definition index_ok :: "(bytes \<rightharpoonup> bytes) \<Rightarrow> block_index \<Rightarrow> storage_metadata \<Rightarrow> bool" where
  "index_ok m index meta \<longleftrightarrow> bt_inv index \<and>
     (\<forall>n h. map_of index n = Some h \<longleftrightarrow> m (height_key n) = Some (be_bytes 32 h)) \<and>
     (sm_finalized_height meta = 0 \<or> map_of index (sm_finalized_height meta) \<noteq> None)"

lemma index_ok_write:
  assumes "index_ok m index meta" and "sm_finalized_height meta' = sm_finalized_height meta"
  shows "index_ok (m(block_key h \<mapsto> data, height_key n \<mapsto> be_bytes 32 h)) (index_insert n h index) meta'"
  using assms by (auto simp: index_ok_def index_insert_def bt.inv_ins bt.lookup_ins be_bytes_eq_iff)

lemma on_block_stored_finalized: "on_block_stored n h m = Some m' \<Longrightarrow> sm_finalized_height m' = sm_finalized_height m"
  by (auto simp: on_block_stored_def Let_def split: if_splits)

lemma insert_all_lookup:
  assumes "bt_inv index"
  shows "bt_inv (fold (\<lambda>(height, h). index_insert height h) l index) \<and>
    map_of (fold (\<lambda>(height, h). index_insert height h) l index) = map_of index ++ map_of (rev l)"
proof -
  have "(\<lambda>(height, h). index_insert height h) = (\<lambda>(k, v). bt_insert k v)" by (simp add: fun_eq_iff index_insert_def)
  then show ?thesis using bt.ins_list_lookup [OF assms, of "rev l"] by (simp add: foldr_conv_fold)
qed

lemma height_entry_iff:
  "height_entry (key, v) = Some (n, h) \<and> prefix (prefix_bytes KpBlockByHeight) key \<longleftrightarrow>
   key = height_key n \<and> length v = 32 \<and> h = from_be_bytes v"
proof
  assume a: "height_entry (key, v) = Some (n, h) \<and> prefix (prefix_bytes KpBlockByHeight) key"
  then have "length key = 10" "length v = 32" "n = from_be_bytes (take 8 (drop 2 key))" "h = from_be_bytes v"
    by (auto simp: height_entry_def split: if_splits)
  then show "key = height_key n \<and> length v = 32 \<and> h = from_be_bytes v" using height_key_of a by blast
next
  assume "key = height_key n \<and> length v = 32 \<and> h = from_be_bytes v"
  then show "height_entry (key, v) = Some (n, h) \<and> prefix (prefix_bytes KpBlockByHeight) key"
    by (simp add: height_entry_def height_key_parts from_be_be)
qed

lemma loaded_entries:
  assumes es: "hm_inv es" "\<And>k. map_of es k = (if prefix (prefix_bytes KpBlockByHeight) k then m k else None)"
    and ok: "chain_ok P m"
  shows "map_of (rev (List.map_filter height_entry es)) n = Some h \<longleftrightarrow> m (height_key n) = Some (be_bytes 32 h)"
proof -
  let ?l = "List.map_filter height_entry es"
  have v: "length v = 32 \<and> from_be_bytes v = h \<longleftrightarrow> v = be_bytes 32 h" if "m (height_key n) = Some v" for n v and h :: hash
    using ok that by (auto simp: chain_ok_def from_be_be be_bytes_from_be_bytes)
  have mem: "(n, h) \<in> set ?l \<longleftrightarrow> m (height_key n) = Some (be_bytes 32 h)" for n h
  proof -
    have "(n, h) \<in> set ?l \<longleftrightarrow> (\<exists>e \<in> set es. height_entry e = Some (n, h))"
      by (force simp: List.map_filter_def)
    also have "\<dots> \<longleftrightarrow> (\<exists>key v. map_of es key = Some v \<and> height_entry (key, v) = Some (n, h))"
      by (simp add: hm_mem_iff [OF es(1), symmetric] Bex_def)
    also have "\<dots> \<longleftrightarrow> (\<exists>key v. m key = Some v \<and> height_entry (key, v) = Some (n, h) \<and> prefix (prefix_bytes KpBlockByHeight) key)"
      unfolding es(2) by (metis option.discI)
    also have "\<dots> \<longleftrightarrow> (\<exists>v. m (height_key n) = Some v \<and> length v = 32 \<and> h = from_be_bytes v)"
      unfolding height_entry_iff by auto
    also have "\<dots> \<longleftrightarrow> m (height_key n) = Some (be_bytes 32 h)" 
    proof (cases "m (height_key n)")
      case (Some x)
      with v [OF Some, of h] show ?thesis by auto
    qed simp
    finally show ?thesis .
  qed
  show ?thesis
  proof
    assume "map_of (rev ?l) n = Some h"
    from map_of_SomeD [OF this] show "m (height_key n) = Some (be_bytes 32 h)" using mem by simp
  next
    assume a: "m (height_key n) = Some (be_bytes 32 h)"
    then have "(n, h) \<in> set (rev ?l)" using mem by simp
    then obtain h' where h': "map_of (rev ?l) n = Some h'" by (metis weak_map_of_SomeI)
    from map_of_SomeD [OF this] have "m (height_key n) = Some (be_bytes 32 h')" using mem by simp
    with a h' show "map_of (rev ?l) n = Some h" by (simp add: be_bytes_eq_iff)
  qed
qed

lemma load_index_parts:
  assumes es: "kv_prefix_scan (sp_kv P) (bs_kv_store s) (prefix_bytes KpBlockByHeight) = Ok es"
  defines "s' \<equiv> fst (load_index_from_storage P s)"
  shows "bs_kv_store s' = bs_kv_store s"
    and "bs_block_index s' = fold (\<lambda>(height, h). index_insert height h) (List.map_filter height_entry es) (bs_block_index s)"
    and "sm_finalized_height (bs_metadata s') = sm_finalized_height (bs_metadata s)"
proof -
  consider "es = []" | "es \<noteq> []" "List.map_filter height_entry es = []"
    | "es \<noteq> []" "List.map_filter height_entry es \<noteq> []" by blast
  then have "bs_kv_store s' = bs_kv_store s \<and>
    bs_block_index s' = fold (\<lambda>(height, h). index_insert height h) (List.map_filter height_entry es) (bs_block_index s) \<and>
    sm_finalized_height (bs_metadata s') = sm_finalized_height (bs_metadata s)"
  proof cases
    case 1
    then show ?thesis unfolding s'_def load_index_from_storage_def es by (simp add: List.map_filter_def)
  next
    case 2
    then show ?thesis unfolding s'_def load_index_from_storage_def es by (simp add: Let_def)
  next
    case 3
    then show ?thesis
      unfolding s'_def load_index_from_storage_def es by (simp add: Let_def on_block_stored_finalized split: option.split)
  qed
  then show "bs_kv_store s' = bs_kv_store s"
    and "bs_block_index s' = fold (\<lambda>(height, h). index_insert height h) (List.map_filter height_entry es) (bs_block_index s)"
    and "sm_finalized_height (bs_metadata s') = sm_finalized_height (bs_metadata s)" by auto
qed

lemma index_ok_cong: "(\<And>n. m (height_key n) = m' (height_key n)) \<Longrightarrow> index_ok m index meta = index_ok m' index meta"
  by (simp add: index_ok_def)

lemma mark_finalized_cases [consumes 1, case_names refused marked]:
  assumes "mark_finalized height s = (s', q)"
  obtains "s' = s" and "\<not> is_ok q"
  | "s' = s\<lparr>bs_metadata := (bs_metadata s)\<lparr>sm_finalized_height := height\<rparr>\<rparr>" and "q = Ok ()"
      "map_of (bs_block_index s) height \<noteq> None" "sm_finalized_height (bs_metadata s) < height"
  using assms by (auto simp: mark_finalized_def on_finalized_def index_contains_def split: if_splits)

context reliable_store
begin

definition service_ok :: "'a storage_ports \<Rightarrow> 'a storage_service \<Rightarrow> bool" where
  "service_ok P s \<longleftrightarrow> kv_ok (bs_kv_store s) \<and> chain_ok P (view (bs_kv_store s)) \<and>
     index_ok (view (bs_kv_store s)) (bs_block_index s) (bs_metadata s)"

lemma service_ok_buffer: "service_ok P s \<Longrightarrow> service_ok P (s\<lparr>bs_assembly_buffer := b\<rparr>)"
  by (simp add: service_ok_def)

text \<open>A write that gets through adds its two entries, and leaves every other block and height entry alone.\<close>

lemma written_view:
  assumes "kv_ok (bs_kv_store s)" and "sp_kv P = ops" and "write_block P disk now block merkle state s = (s', r)" and "is_ok r"
  shows "\<exists>data. let h = compute_block_hash P block; n = bh_height (vb_header block);
      m = (view (bs_kv_store s))(block_key h \<mapsto> data, height_key n \<mapsto> be_bytes 32 h) in
    r = Ok h \<and> kv_ok (bs_kv_store s') \<and>
    sp_serialize P (new_stored_block block merkle state now (compute_block_checksum P block merkle state)) = Ok data \<and>
    view (bs_kv_store s) (block_key h) = None \<and>
    (n = 0 \<or> view (bs_kv_store s) (block_key (bh_parent_hash (vb_header block))) \<noteq> None) \<and>
    (\<forall>k. view (bs_kv_store s') (block_key k) = m (block_key k)) \<and> (\<forall>k. view (bs_kv_store s') (height_key k) = m (height_key k)) \<and>
    bs_block_index s' = index_insert n h (bs_block_index s) \<and>
    on_block_stored n h (bs_metadata s) = Some (bs_metadata s')"
  using assms(3)
proof (cases rule: write_block_cases)
  case (written data kv)
  have kv: "kv_ok kv" "view kv = (view (bs_kv_store s))(block_key (compute_block_hash P block) \<mapsto> data,
      height_key (bh_height (vb_header block)) \<mapsto> be_bytes 32 (compute_block_hash P block))"
    using written(4) batch_ok [OF assms(1)] batch_applied [OF assms(1)] assms(2) by auto
  obtain m where m: "on_block_stored (bh_height (vb_header block)) (compute_block_hash P block) (bs_metadata s) = Some m"
      "r = Ok (compute_block_hash P block)"
      "s' = index_transactions P block (compute_block_hash P block) (s\<lparr>bs_kv_store := kv,
        bs_block_index := index_insert (bh_height (vb_header block)) (compute_block_hash P block) (bs_block_index s), bs_metadata := m\<rparr>)"
    using written(5) assms(4) by auto
  let ?s1 = "s\<lparr>bs_kv_store := kv, bs_block_index := index_insert (bh_height (vb_header block)) (compute_block_hash P block) (bs_block_index s),
    bs_metadata := m\<rparr>"
  have t: "kv_ok (bs_kv_store s')" "\<And>k. (\<forall>t. k \<noteq> transaction_key t) \<Longrightarrow> view (bs_kv_store s') k = view kv k"
      "bs_block_index s' = bs_block_index ?s1" "bs_metadata s' = m"
    using index_transactions_view [of ?s1 P 0 "vb_transactions block" block] kv(1) assms(2)
      index_transactions_frame [of P 0 "vb_transactions block" block "compute_block_hash P block" ?s1]
    by (auto simp: m(3) index_transactions_def)
  show ?thesis
    using written(1-3) m(1, 2) t kv block_exists_iff [OF assms(1, 2)] by (intro exI [of _ data]) (auto simp: Let_def)
qed (use assms(4) in auto)

lemma service_ok_write:
  assumes ok: "service_ok P s" and P: "sp_kv P = ops" "serializer_laws P"
    and w: "write_block P disk now block merkle state s = (s', r)"
  shows "service_ok P s'"
proof -
  have kv: "kv_ok (bs_kv_store s)" and ch: "chain_ok P (view (bs_kv_store s))"
    and ix: "index_ok (view (bs_kv_store s)) (bs_block_index s) (bs_metadata s)" using ok by (auto simp: service_ok_def)
  let ?h = "compute_block_hash P block" and ?n = "bh_height (vb_header block)"
  let ?sb = "new_stored_block block merkle state now (compute_block_checksum P block merkle state)"
  have sb: "compute_block_hash P (sb_block ?sb) = ?h" "verify_block_checksum P ?sb = Ok ()" "bh_height (vb_header (sb_block ?sb)) = ?n"
    by (simp_all add: new_stored_block_def verify_block_checksum_def)
  have grow: "chain_ok P ((view (bs_kv_store s))(block_key ?h \<mapsto> data, height_key ?n \<mapsto> be_bytes 32 ?h))"
    if "sp_serialize P ?sb = Ok data" "view (bs_kv_store s) (block_key ?h) = None"
      "?n = 0 \<or> view (bs_kv_store s) (block_key (bh_parent_hash (vb_header block))) \<noteq> None" for data
    using that P(2) sb by (intro chain_ok_write [OF ch]) (auto simp: serializer_laws_def new_stored_block_def)
  show ?thesis
  proof (cases "is_ok r")
    case True
    from written_view [OF kv P(1) w True] obtain data where d:
      "sp_serialize P ?sb = Ok data" "view (bs_kv_store s) (block_key ?h) = None"
      "?n = 0 \<or> view (bs_kv_store s) (block_key (bh_parent_hash (vb_header block))) \<noteq> None" "kv_ok (bs_kv_store s')"
      "\<And>k. view (bs_kv_store s') (block_key k) = ((view (bs_kv_store s))(block_key ?h \<mapsto> data, height_key ?n \<mapsto> be_bytes 32 ?h)) (block_key k)"
      "\<And>k. view (bs_kv_store s') (height_key k) = ((view (bs_kv_store s))(block_key ?h \<mapsto> data, height_key ?n \<mapsto> be_bytes 32 ?h)) (height_key k)"
      "bs_block_index s' = index_insert ?n ?h (bs_block_index s)" "on_block_stored ?n ?h (bs_metadata s) = Some (bs_metadata s')"
      unfolding Let_def by blast
    have "index_ok ((view (bs_kv_store s))(block_key ?h \<mapsto> data, height_key ?n \<mapsto> be_bytes 32 ?h)) (bs_block_index s') (bs_metadata s')"
      unfolding d(7) using ix on_block_stored_finalized [OF d(8)] by (rule index_ok_write)
    then have "index_ok (view (bs_kv_store s')) (bs_block_index s') (bs_metadata s')" by (subst index_ok_cong) (rule d(6))
    moreover have "chain_ok P (view (bs_kv_store s'))" using chain_ok_other [OF grow [OF d(1-3)] d(5, 6)] .
    ultimately show ?thesis using d(4) by (simp add: service_ok_def)
  next
    case False
    from w show ?thesis
    proof (cases rule: write_block_cases)
      case rejected
      with ok show ?thesis by simp
    next
      case (failed data kv' r0)
      then have "kv_ok kv'" "view kv' = view (bs_kv_store s)"
        using batch_ok [OF kv] batch_refused [OF kv] P(1) by auto
      with failed ok show ?thesis by (simp add: service_ok_def)
    next
      case (written data kv')
      have v: "kv_ok kv'" "view kv' = (view (bs_kv_store s))(block_key ?h \<mapsto> data, height_key ?n \<mapsto> be_bytes 32 ?h)"
        using written(4) batch_ok [OF kv] batch_applied [OF kv] P(1) by auto
      have s': "s' = s\<lparr>bs_kv_store := kv', bs_block_index := index_insert ?n ?h (bs_block_index s)\<rparr>" using written(5) False by auto
      have "index_ok (view kv') (index_insert ?n ?h (bs_block_index s)) (bs_metadata s)" unfolding v(2) using ix by (rule index_ok_write) simp
      moreover have "chain_ok P (view kv')"
        unfolding v(2) using written(1-3) block_exists_iff [OF kv P(1)] by (intro grow) auto
      ultimately show ?thesis using v(1) by (simp add: service_ok_def s')
    qed
  qed
qed

lemma load_locations_frame:
  "bs_kv_store (fst (load_locations P es s)) = bs_kv_store s \<and> bs_block_index (fst (load_locations P es s)) = bs_block_index s \<and>
   bs_metadata (fst (load_locations P es s)) = bs_metadata s"
  by (induction P es s rule: load_locations.induct) (auto split: outcome.splits)

lemma load_transactions_frame:
  fixes P s
  defines "s' \<equiv> fst (load_transaction_index_from_storage P s)"
  shows "bs_kv_store s' = bs_kv_store s \<and> bs_block_index s' = bs_block_index s \<and> bs_metadata s' = bs_metadata s"
  unfolding s'_def load_transaction_index_from_storage_def by (simp add: load_locations_frame split: outcome.split)

lemma new_storage_ok:
  assumes "kv_ok kv" and "chain_ok P (view kv)" and "sp_kv P = ops"
  shows "service_ok P (new_storage P kv cfg)" and "bs_kv_store (new_storage P kv cfg) = kv"
    and "sm_finalized_height (bs_metadata (new_storage P kv cfg)) = 0"
proof -
  let ?s = "\<lparr>bs_kv_store = kv, bs_config = cfg, bs_assembly_buffer = new_buffer (sc_assembly_config cfg),
    bs_block_index = [], bs_metadata = default_metadata, bs_tx_index = []\<rparr>"
  let ?s1 = "fst (load_index_from_storage P ?s)"
  obtain es where es: "kv_prefix_scan ops kv (prefix_bytes KpBlockByHeight) = Ok es"
    using scan_total [OF assms(1)] unfolding is_ok_iff by blast
  note scan = scan_view [OF assms(1) es]
  let ?l = "List.map_filter height_entry es"
  have es': "kv_prefix_scan (sp_kv P) (bs_kv_store ?s) (prefix_bytes KpBlockByHeight) = Ok es" unfolding assms(3) using es by simp
  note parts = load_index_parts [OF es']
  have ix: "bs_block_index ?s1 = fold (\<lambda>(height, h). index_insert height h) ?l []"
    and fr: "bs_kv_store ?s1 = kv" "sm_finalized_height (bs_metadata ?s1) = 0"
    unfolding parts by (simp_all add: default_metadata_def)
  have s2: "bs_kv_store (new_storage P kv cfg) = kv" "bs_block_index (new_storage P kv cfg) = bs_block_index ?s1"
    "bs_metadata (new_storage P kv cfg) = bs_metadata ?s1"
    unfolding new_storage_def Let_def by (simp_all only: load_transactions_frame fr(1))
  have inv: "bt_inv (bs_block_index ?s1)" "map_of (bs_block_index ?s1) = map_of (rev ?l)"
    unfolding ix using insert_all_lookup [of "[]" ?l] by simp_all
  have "map_of (rev ?l) n = Some h \<longleftrightarrow> view kv (height_key n) = Some (be_bytes 32 h)" for n h
    by (rule loaded_entries [OF _ _ assms(2)]) (use scan in blast)+
  then have "index_ok (view kv) (bs_block_index ?s1) (bs_metadata ?s1)"
    unfolding index_ok_def inv(2) using inv(1) fr(2) by blast
  then show "service_ok P (new_storage P kv cfg)" unfolding service_ok_def s2 using assms(1, 2) by blast
  show "bs_kv_store (new_storage P kv cfg) = kv" by (rule s2)
  show "sm_finalized_height (bs_metadata (new_storage P kv cfg)) = 0" unfolding s2 by (rule fr)
qed

lemma service_ok_reachable:
  assumes P: "sp_kv P = ops" "serializer_laws P" and kv0: "kv_ok kv0" "view kv0 = Map.empty"
    and "storage_reachable P kv0 s"
  shows "service_ok P s"
proof -
  note wr = service_ok_write [OF _ P]
  show ?thesis using assms(5)
proof (induction rule: storage_reachable.induct)
  case (st_start cfg)
  show ?case using kv0 P(1) by (intro new_storage_ok) (auto simp: chain_ok_def)
next
  case (st_write s disk clock block merkle state s' r)
  then show ?case using wr by blast
next
  case (st_finalize s height s' q)
  from st_finalize.hyps(2) show ?case
  proof (cases rule: mark_finalized_cases)
    case marked
    with st_finalize.IH show ?thesis unfolding service_ok_def index_ok_def by simp
  qed (use st_finalize.IH in simp)
next
  case (st_block s disk clock i block now s' q)
  show ?case by (rule event_invariant(1) [of "service_ok P", OF st_block.IH service_ok_buffer wr st_block.hyps(2)])
next
  case (st_merkle s disk clock i h root now s' q)
  show ?case by (rule event_invariant(2) [of "service_ok P", OF st_merkle.IH service_ok_buffer wr st_merkle.hyps(2)])
next
  case (st_state s disk clock i h root now s' q)
  show ?case by (rule event_invariant(3) [of "service_ok P", OF st_state.IH service_ok_buffer wr st_state.hyps(2)])
next
  case (st_gc_data s now)
  then show ?case by (simp add: gc_expired_assemblies_with_data_def service_ok_def split: prod.splits)
next
  case (st_gc s now)
  then show ?case by (simp add: gc_expired_assemblies_def service_ok_def split: prod.splits)
next
  case (st_restart s cfg)
  then show ?case using P(1) by (intro new_storage_ok) (auto simp: service_ok_def)
qed
qed

lemma read_block_iff:
  assumes "service_ok P s" and "sp_kv P = ops"
  shows "read_block P h s = Ok sb \<longleftrightarrow> (\<exists>data. view (bs_kv_store s) (block_key h) = Some data \<and> sp_deserialize P data = Ok sb)"
proof -
  have g: "kv_get (sp_kv P) (bs_kv_store s) (block_key h) = Ok (view (bs_kv_store s) (block_key h))"
    using assms get_iff by (simp add: service_ok_def)
  show ?thesis
  proof (cases "view (bs_kv_store s) (block_key h)")
    case None
    with g show ?thesis by (simp add: read_block_def)
  next
    case (Some data)
    then obtain sb' where "sp_deserialize P data = Ok sb'" "verify_block_checksum P sb' = Ok ()"
      using assms(1) unfolding service_ok_def chain_ok_def by blast
    with g Some show ?thesis by (auto simp: read_block_def)
  qed
qed

end

context reliable_store
begin

lemma read_after_write:
  assumes ok: "service_ok P s" and P: "sp_kv P = ops" "serializer_laws P"
    and w: "write_block P disk now block merkle state s = (s', Ok h)"
  defines "sb \<equiv> new_stored_block block merkle state now (compute_block_checksum P block merkle state)"
  shows "h = compute_block_hash P block" and "read_block P h s' = Ok sb"
    and "read_block_by_height P (bh_height (vb_header block)) s' = Ok sb"
    and "read_block P h' s = Ok sb' \<Longrightarrow> read_block P h' s' = Ok sb'"
proof -
  have ok': "service_ok P s'" by (rule service_ok_write [OF ok P w])
  have kv: "kv_ok (bs_kv_store s)" using ok by (simp add: service_ok_def)
  note iff = read_block_iff [OF ok P(1)] read_block_iff [OF ok' P(1)]
  from written_view [OF kv P(1) w] obtain data where d: "h = compute_block_hash P block" "sp_serialize P sb = Ok data"
      "view (bs_kv_store s) (block_key h) = None" "bs_block_index s' = index_insert (bh_height (vb_header block)) h (bs_block_index s)"
      "\<And>k. view (bs_kv_store s') (block_key k) = (if k = h then Some data else view (bs_kv_store s) (block_key k))"
    by (fastforce simp: Let_def sb_def)
  show "h = compute_block_hash P block" by (rule d(1))
  show r: "read_block P h s' = Ok sb" using d(2) P(2) by (simp add: iff d(5) serializer_laws_def)
  have "bt_inv (bs_block_index s)" using ok by (simp add: service_ok_def index_ok_def)
  then have "index_get (bh_height (vb_header block)) (bs_block_index s') = Some h"
    by (simp add: d(4) index_get_def index_insert_def bt_insert_lookup)
  then show "read_block_by_height P (bh_height (vb_header block)) s' = Ok sb" using r by (simp add: read_block_by_height_def)
  show "read_block P h' s' = Ok sb'" if "read_block P h' s = Ok sb'"
    using that d(3) by (auto simp: iff d(5))
qed

lemma indexed_block:
  assumes ok: "service_ok P s" and P: "sp_kv P = ops" and g: "index_get n (bs_block_index s) = Some h"
  obtains sb where "read_block P h s = Ok sb" and "compute_block_hash P (sb_block sb) = h" and "bh_height (vb_header (sb_block sb)) = n"
proof -
  have "view (bs_kv_store s) (height_key n) = Some (be_bytes 32 h)"
    using ok g by (simp add: service_ok_def index_ok_def index_get_def)
  then obtain h' data sb where "be_bytes 32 h = be_bytes 32 h'" and d: "view (bs_kv_store s) (block_key h') = Some data"
      "sp_deserialize P data = Ok sb" "bh_height (vb_header (sb_block sb)) = n"
    using ok unfolding service_ok_def chain_ok_def by blast
  then have "h' = h" by (simp add: be_bytes_eq_iff)
  moreover obtain sb' where "sp_deserialize P data = Ok sb'" "compute_block_hash P (sb_block sb') = h'"
    using ok d(1) unfolding service_ok_def chain_ok_def by blast
  ultimately show ?thesis using that d read_block_iff [OF ok P] by auto
qed

lemma parent_readable:
  assumes ok: "service_ok P s" and P: "sp_kv P = ops" and r: "read_block P h s = Ok sb"
  shows "compute_block_hash P (sb_block sb) = h"
    and "bh_height (vb_header (sb_block sb)) \<noteq> 0 \<Longrightarrow> \<exists>p. read_block P (bh_parent_hash (vb_header (sb_block sb))) s = Ok p"
proof -
  obtain data where d: "view (bs_kv_store s) (block_key h) = Some data" "sp_deserialize P data = Ok sb"
    using r read_block_iff [OF ok P] by auto
  have inv: "\<exists>sb. sp_deserialize P data = Ok sb \<and> compute_block_hash P (sb_block sb) = h \<and>
      (bh_height (vb_header (sb_block sb)) = 0 \<or> view (bs_kv_store s) (block_key (bh_parent_hash (vb_header (sb_block sb)))) \<noteq> None)"
    if "view (bs_kv_store s) (block_key h) = Some data" for h data
    using ok that unfolding service_ok_def chain_ok_def by blast
  from inv [OF d(1)] d(2) show "compute_block_hash P (sb_block sb) = h" by auto
  assume "bh_height (vb_header (sb_block sb)) \<noteq> 0"
  with inv [OF d(1)] d(2) obtain data' where d': "view (bs_kv_store s) (block_key (bh_parent_hash (vb_header (sb_block sb)))) = Some data'"
    by auto
  from inv [OF d'] d' show "\<exists>p. read_block P (bh_parent_hash (vb_header (sb_block sb))) s = Ok p"
    unfolding read_block_iff [OF ok P] by blast
qed

lemma restart_index:
  assumes ok: "service_ok P s" and P: "sp_kv P = ops"
  shows "bs_block_index (new_storage P (bs_kv_store s) cfg) = bs_block_index s"
    and "read_block P h (new_storage P (bs_kv_store s) cfg) = read_block P h s"
proof -
  let ?s = "new_storage P (bs_kv_store s) cfg"
  have ok': "service_ok P ?s" and kv: "bs_kv_store ?s = bs_kv_store s" using new_storage_ok [of "bs_kv_store s" P cfg] ok P unfolding service_ok_def [of P s] by auto
  have "map_of (bs_block_index ?s) n = Some h \<longleftrightarrow> map_of (bs_block_index s) n = Some h" for n h
    using ok ok' unfolding service_ok_def index_ok_def kv by blast
  then have "map_of (bs_block_index ?s) = map_of (bs_block_index s)" by (intro ext) (metis option.exhaust)
  then show "bs_block_index ?s = bs_block_index s"
    using ok ok' unfolding service_ok_def index_ok_def by (intro bt_inv_eqI) auto
  show "read_block P h ?s = read_block P h s" by (simp add: read_block_def kv)
qed

end

lemma mem_reachable:
  "sp_kv P = mem_store \<Longrightarrow> serializer_laws P \<Longrightarrow> storage_reachable P [] s \<Longrightarrow> mem.service_ok P s"
  by (rule mem.service_ok_reachable) auto

section \<open>Assembly\<close>

text \<open>The three events of the assembly choreography, delivered by the subsystems entitled to them.\<close>

datatype assembly_event =
    BlockArrives timestamp
  | MerkleArrives timestamp
  | StateArrives timestamp

fun arrival :: "assembly_event \<Rightarrow> nat" where
  "arrival (BlockArrives _) = 0"
| "arrival (MerkleArrives _) = 1"
| "arrival (StateArrives _) = 2"

fun deliver :: "'kv storage_ports \<Rightarrow> (u8, fs_error) outcome \<Rightarrow> timestamp \<Rightarrow> validated_block \<Rightarrow> hash \<Rightarrow> hash \<Rightarrow> assembly_event \<Rightarrow>
    'kv storage_service \<Rightarrow> 'kv storage_service \<times> (unit, storage_error) outcome" where
  "deliver P disk clock block merkle state (BlockArrives now) s = on_block_validated P disk clock 8 block now s"
| "deliver P disk clock block merkle state (MerkleArrives now) s =
     on_merkle_root_computed P disk clock 3 (compute_block_hash P block) merkle now s"
| "deliver P disk clock block merkle state (StateArrives now) s =
     on_state_root_computed P disk clock 4 (compute_block_hash P block) state now s"

text \<open>One event on a service whose buffer holds an entry (or none) for the block: the entry after the event,
  written out as soon as it is complete.\<close>

fun arrived :: "validated_block \<Rightarrow> hash \<Rightarrow> hash \<Rightarrow> assembly_event \<Rightarrow> pending_block_assembly \<Rightarrow> pending_block_assembly" where
  "arrived block merkle state (BlockArrives _) a = a\<lparr>pa_block_height := bh_height (vb_header block), pa_validated_block := Some block\<rparr>"
| "arrived block merkle state (MerkleArrives _) a = a\<lparr>pa_merkle_root := Some merkle\<rparr>"
| "arrived block merkle state (StateArrives _) a = a\<lparr>pa_state_root := Some state\<rparr>"

fun arrival_time :: "assembly_event \<Rightarrow> timestamp" where
  "arrival_time (BlockArrives t) = t"
| "arrival_time (MerkleArrives t) = t"
| "arrival_time (StateArrives t) = t"

lemma deliver_step:
  fixes P s ev block merkle state
  defines "h \<equiv> compute_block_hash P block"
  defines "b \<equiv> bs_assembly_buffer s"
  defines "a \<equiv> arrived block merkle state ev (pending_entry h (arrival_time ev) b)"
  assumes "hm_inv (ab_pending b)" and "length (AList.update h a (ab_pending b)) \<le> ac_max_pending_assemblies (ab_config b)"
  shows "deliver P disk clock block merkle state ev s =
    completed (try_complete_assembly P disk clock h (s\<lparr>bs_assembly_buffer := b\<lparr>ab_pending := AList.update h a (ab_pending b)\<rparr>\<rparr>))"
  using assms(5) unfolding a_def b_def h_def
  by (cases ev) (auto simp: event_defs STORAGE_CONSENSUS_def STORAGE_TRANSACTION_INDEXING_def STORAGE_STATE_MANAGEMENT_def
      add_block_validated_def add_merkle_root_def add_state_root_def enforce_max_pending_def)

lemma try_incomplete:
  assumes "map_of (ab_pending (bs_assembly_buffer s)) h = Some a" and "\<not> pa_is_complete a"
  shows "try_complete_assembly P disk clock h s = (s, Ok None)"
  using assms by (simp add: try_complete_assembly_def take_complete_def is_complete_def)

lemma try_finished:
  assumes "map_of (ab_pending (bs_assembly_buffer s)) h = Some a" and "take_components a = Some (block, merkle, state)"
  shows "completed (try_complete_assembly P disk clock h s) =
    (case write_block P disk clock block merkle state
        (s\<lparr>bs_assembly_buffer := (bs_assembly_buffer s)\<lparr>ab_pending := AList.delete h (ab_pending (bs_assembly_buffer s))\<rparr>\<rparr>) of
       (s', r) \<Rightarrow> (s', case r of Ok _ \<Rightarrow> Ok () | Err e \<Rightarrow> Err e | Panic \<Rightarrow> Panic))"
proof -
  have "pa_is_complete a" using assms(2) by (auto simp: take_components_def pa_is_complete_def split: option.splits)
  then show ?thesis
    using assms by (auto simp: try_complete_assembly_def take_complete_def is_complete_def completed_def split: prod.split outcome.split)
qed

text \<open>Two events that do not complete the block change its entry only, and the third stores it.\<close>

lemma deliver_all:
  fixes P s block
  defines "h \<equiv> compute_block_hash P block"
  defines "p \<equiv> ab_pending (bs_assembly_buffer s)"
  assumes p: "hm_inv p" "map_of p h = None" "length p < ac_max_pending_assemblies (ab_config (bs_assembly_buffer s))"
    and ev: "distinct [arrival e1, arrival e2, arrival e3]"
  shows "deliver P disk clock block merkle state e3 (fst (deliver P disk clock block merkle state e2
      (fst (deliver P disk clock block merkle state e1 s)))) =
    (case write_block P disk clock block merkle state s of (s', r) \<Rightarrow> (s', case r of Ok _ \<Rightarrow> Ok () | Err e \<Rightarrow> Err e | Panic \<Rightarrow> Panic))"
proof -
  let ?max = "ac_max_pending_assemblies (ab_config (bs_assembly_buffer s))"
  let ?st = "\<lambda>q. s\<lparr>bs_assembly_buffer := (bs_assembly_buffer s)\<lparr>ab_pending := q\<rparr>\<rparr>"
  let ?d = "deliver P disk clock block merkle state" and ?a = "arrived block merkle state"
  have step: "?d e (?st q) = completed (try_complete_assembly P disk clock h (?st (AList.update h
      (?a e (case map_of q h of None \<Rightarrow> new_pending h (arrival_time e) | Some x \<Rightarrow> x)) q)))"
    if "hm_inv q" "length q + (if map_of q h = None then 1 else 0) \<le> ?max" for e q
    using deliver_step [where s = "?st q" and P = P and block = block and ev = e] that unfolding h_def by (simp add: pending_entry_def hm_length_update)
  have wait: "?d e (?st q) = (?st (AList.update h a q), Ok ())"
    if "hm_inv q" "length q + (if map_of q h = None then 1 else 0) \<le> ?max"
      "a = ?a e (case map_of q h of None \<Rightarrow> new_pending h (arrival_time e) | Some x \<Rightarrow> x)" "\<not> pa_is_complete a" for e q a
    unfolding step [OF that(1, 2)] that(3) [symmetric] using that(4)
    by (subst try_incomplete [of _ h a]) (simp_all add: completed_def update_conv)
  have "s = ?st p" by (simp add: p_def)
  define a1 where "a1 = ?a e1 (new_pending h (arrival_time e1))"
  define q1 where "q1 = AList.update h a1 p"
  define q2 where "q2 = AList.update h (?a e2 a1) q1"
  have d1: "?d e1 s = (?st q1, Ok ())"
    using wait [of p a1 e1] p
    by (subst \<open>s = ?st p\<close>) (cases e1, auto simp: q1_def a1_def new_pending_def pa_is_complete_def)
  have q1: "hm_inv q1" "map_of q1 h = Some a1" "length q1 \<le> ?max" using p by (simp_all add: q1_def hm_length_update update_conv distinct_update)
  have d2: "?d e2 (?st q1) = (?st q2, Ok ())"
    using wait [of q1 "?a e2 a1" e2] q1 ev
    by (cases e1; cases e2; cases e3) (simp_all add: q2_def a1_def new_pending_def pa_is_complete_def)
  have q2: "hm_inv q2" "map_of q2 h = Some (?a e2 a1)" "length q2 \<le> ?max" using q1 by (simp_all add: q2_def hm_length_update update_conv distinct_update)
  have t: "take_components (?a e3 (?a e2 a1)) = Some (block, merkle, state)"
    using ev by (cases e1; cases e2; cases e3) (simp_all add: a1_def new_pending_def take_components_def)
  have "?d e3 (?st q2) = completed (try_complete_assembly P disk clock h (?st (AList.update h (?a e3 (?a e2 a1)) q2)))"
    using step [of q2 e3] q2 by simp
  also have "\<dots> = (case write_block P disk clock block merkle state (?st (AList.delete h (AList.update h (?a e3 (?a e2 a1)) q2))) of
      (s', r) \<Rightarrow> (s', case r of Ok _ \<Rightarrow> Ok () | Err e \<Rightarrow> Err e | Panic \<Rightarrow> Panic))"
    by (subst try_finished [OF _ t]) (simp_all add: update_conv)
  also have "AList.delete h (AList.update h (?a e3 (?a e2 a1)) q2) = p"
    using p(2) by (simp add: q2_def q1_def delete_update_same hm_delete_absent)
  finally have "?d e3 (?st q2) = (case write_block P disk clock block merkle state s of
      (s', r) \<Rightarrow> (s', case r of Ok _ \<Rightarrow> Ok () | Err e \<Rightarrow> Err e | Panic \<Rightarrow> Panic))"
    unfolding \<open>s = ?st p\<close> [symmetric] .
  then show ?thesis unfolding d1 fst_conv d2 .
qed

section \<open>Properties\<close>

text \<open>Ports of the sample runs: a serializer that knows three blocks and refuses the others.\<close>

definition sample_header :: "u64 \<Rightarrow> hash \<Rightarrow> u64 \<Rightarrow> block_header" where
  "sample_header height parent time =
     \<lparr>bh_version = 1, bh_height = height, bh_parent_hash = parent, bh_merkle_root = 0, bh_state_root = 0, bh_timestamp = time,
      bh_proposer = 0, bh_difficulty = 0, bh_nonce = 0\<rparr>"

definition sample_block :: "u64 \<Rightarrow> hash \<Rightarrow> u64 \<Rightarrow> validated_block" where
  "sample_block height parent time =
     \<lparr>vb_header = sample_header height parent time, vb_transactions = [],
      vb_consensus_proof = \<lparr>cpf_block_hash = 0, cpf_attestations = [], cpf_total_stake = 0\<rparr>\<rparr>"

definition sample_time :: "bytes \<Rightarrow> hash" where
  "sample_time bs = word_of_int (uint (hd (drop 104 bs)))"

definition sample_stored :: "u64 \<Rightarrow> hash \<Rightarrow> u64 \<Rightarrow> stored_block" where
  "sample_stored height parent time = new_stored_block (sample_block height parent time) 0 0 9 0"

definition sample_ports :: "'kv kv_ops \<Rightarrow> 'kv storage_ports" where
  "sample_ports kv =
     \<lparr>sp_kv = kv, sp_crc32c = (\<lambda>_. 0), sp_sha256 = sample_time,
      sp_serialize = (\<lambda>sb. if sb = sample_stored 0 0 1 then Ok [1] else if sb = sample_stored 1 1 2 then Ok [2] else Err []),
      sp_deserialize = (\<lambda>bs. if bs = [1] then Ok (sample_stored 0 0 1) else if bs = [2] then Ok (sample_stored 1 1 2) else Err []),
      sp_estimate_size = (\<lambda>_. 1), sp_serialize_location = (\<lambda>_. None), sp_deserialize_location = (\<lambda>_. Err []),
      sp_fs_debug = (\<lambda>_. [])\<rparr>"

lemma sample_laws: "sp_kv (sample_ports kv) = kv" "serializer_laws (sample_ports kv)"
  by (auto simp: sample_ports_def serializer_laws_def)

definition sample_config :: storage_config where
  "sample_config =
     \<lparr>sc_min_disk_space_percent = 5, sc_max_block_size = 4, sc_compaction_strategy = LeveledCompaction,
      sc_assembly_config = \<lparr>ac_assembly_timeout_secs = 30, ac_max_pending_assemblies = 2\<rparr>,
      sc_persist_transaction_index = False\<rparr>"

definition sample_start :: "(bytes \<times> bytes) list storage_service" where
  "sample_start = new_storage (sample_ports mem_store) [] sample_config"

definition sample_one :: "(bytes \<times> bytes) list storage_service" where
  "sample_one = fst (write_block (sample_ports mem_store) (Ok 50) 9 (sample_block 0 0 1) 0 0 sample_start)"

definition sample_two :: "(bytes \<times> bytes) list storage_service" where
  "sample_two = fst (write_block (sample_ports mem_store) (Ok 50) 9 (sample_block 1 1 2) 0 0 sample_one)"

lemma sample_writes:
  "snd (write_block (sample_ports mem_store) (Ok 50) 9 (sample_block 0 0 1) 0 0 sample_start) = Ok 1"
  "snd (write_block (sample_ports mem_store) (Ok 50) 9 (sample_block 1 1 2) 0 0 sample_one) = Ok 2"
  by code_simp+

lemma sample_chain_reachable: "storage_reachable (sample_ports mem_store) [] sample_one" "storage_reachable (sample_ports mem_store) [] sample_two"
proof -
  have start: "storage_reachable (sample_ports mem_store) [] sample_start" unfolding sample_start_def by (rule st_start)
  show one: "storage_reachable (sample_ports mem_store) [] sample_one"
    unfolding sample_one_def by (rule st_write [OF start prod.collapse [symmetric]])
  show "storage_reachable (sample_ports mem_store) [] sample_two"
    unfolding sample_two_def by (rule st_write [OF one prod.collapse [symmetric]])
qed

text \<open>
  C11. On a service over the in-memory store, whatever events, writes, collections and restarts have
  happened, a block accepted by \<^verbatim>\<open>write_block\<close> can be read back by its hash and by its height, with the roots it was
  written with and passing its checksum, and every block that could be read before can still be read
  and is unchanged.
\<close>

theorem stored_block_is_readable:
  assumes "sp_kv P = mem_store" and "serializer_laws P" and "storage_reachable P [] s"
    and "write_block P disk now block merkle state s = (s', Ok h)"
  shows "h = compute_block_hash P block \<and>
    read_block P h s' = Ok (new_stored_block block merkle state now (compute_block_checksum P block merkle state)) \<and>
    read_block_by_height P (bh_height (vb_header block)) s' = read_block P h s' \<and>
    (\<forall>h' sb. read_block P h' s = Ok sb \<longrightarrow> read_block P h' s' = Ok sb)"
proof -
  note raw = mem.read_after_write [OF mem_reachable [OF assms(1-3)] assms(1, 2, 4)]
  show ?thesis using raw by simp
qed

theorem stored_block_is_readable_witness:
  "read_block (sample_ports mem_store) 2 sample_two = Ok (sample_stored 1 1 2) \<and>
   read_block (sample_ports mem_store) 1 sample_two = Ok (sample_stored 0 0 1)"
proof -
  let ?P = "sample_ports mem_store"
  have w: "write_block ?P (Ok 50) 9 (sample_block 1 1 2) 0 0 sample_one = (sample_two, Ok 2)"
    using sample_writes(2) by (simp add: sample_two_def prod_eq_iff)
  have r: "read_block ?P 1 sample_one = Ok (sample_stored 0 0 1)" by code_simp
  have c: "compute_block_checksum ?P b m t = 0" for b m t by (simp add: compute_block_checksum_def sample_ports_def)
  show ?thesis
    using stored_block_is_readable [OF sample_laws(1) sample_laws(2) sample_chain_reachable(1) w] r by (simp add: c sample_stored_def)
qed

text \<open>
  C14. The stored blocks form a chain: at every moment each height of the index leads to a
  readable block of that height, stored under its own header hash, and each block of a height above
  zero has a readable parent.
\<close>

theorem chain_is_linked:
  assumes "sp_kv P = mem_store" and "serializer_laws P" and "storage_reachable P [] s"
  shows "(index_contains n (bs_block_index s) \<longrightarrow>
      (\<exists>sb. read_block_by_height P n s = Ok sb \<and> bh_height (vb_header (sb_block sb)) = n \<and>
        index_get n (bs_block_index s) = Some (compute_block_hash P (sb_block sb)))) \<and>
    (read_block P h s = Ok b \<longrightarrow> compute_block_hash P (sb_block b) = h \<and>
      (bh_height (vb_header (sb_block b)) = 0 \<or> (\<exists>p. read_block P (bh_parent_hash (vb_header (sb_block b))) s = Ok p)))"
proof -
  have ok: "mem.service_ok P s" by (rule mem_reachable [OF assms])
  have "\<exists>sb. read_block_by_height P n s = Ok sb \<and> bh_height (vb_header (sb_block sb)) = n \<and>
        index_get n (bs_block_index s) = Some (compute_block_hash P (sb_block sb))" if "index_contains n (bs_block_index s)"
  proof -
    from that obtain h' where h': "index_get n (bs_block_index s) = Some h'" by (auto simp: index_contains_def index_get_def)
    from mem.indexed_block [OF ok assms(1) h'] show ?thesis using h' by (auto simp: read_block_by_height_def)
  qed
  then show ?thesis using mem.parent_readable [OF ok assms(1)] by blast
qed

theorem chain_is_linked_witness:
  "\<exists>p. read_block (sample_ports mem_store) (bh_parent_hash (vb_header (sb_block (sample_stored 1 1 2)))) sample_two = Ok p"
proof -
  have "read_block (sample_ports mem_store) 2 sample_two = Ok (sample_stored 1 1 2)"
    "bh_height (vb_header (sb_block (sample_stored 1 1 2))) \<noteq> 0" by code_simp+
  then show ?thesis
    using chain_is_linked [OF sample_laws(1) sample_laws(2) sample_chain_reachable(2), of 1 2 "sample_stored 1 1 2"] by blast
qed




text \<open>
  C28. The block, its Merkle root and its state root may arrive in any order: after the third event the service
  is in the state a direct write of the block with these roots produces, with the outcome of that
  write, provided no assembly of the block was pending and the buffer had room.
\<close>

theorem assembly_order_irrelevant:
  assumes "hm_inv (ab_pending (bs_assembly_buffer s))"
    and "map_of (ab_pending (bs_assembly_buffer s)) (compute_block_hash P block) = None"
    and "length (ab_pending (bs_assembly_buffer s)) < ac_max_pending_assemblies (ab_config (bs_assembly_buffer s))"
    and "distinct [arrival e1, arrival e2, arrival e3]"
  shows "deliver P disk clock block merkle state e3 (fst (deliver P disk clock block merkle state e2
      (fst (deliver P disk clock block merkle state e1 s)))) =
    (case write_block P disk clock block merkle state s of
       (s', r) \<Rightarrow> (s', case r of Ok _ \<Rightarrow> Ok () | Err e \<Rightarrow> Err e | Panic \<Rightarrow> Panic))"
  using assms by (rule deliver_all)

theorem assembly_order_irrelevant_witness:
  "deliver (sample_ports mem_store) (Ok 50) 9 (sample_block 0 0 1) 0 0 (BlockArrives 7)
     (fst (deliver (sample_ports mem_store) (Ok 50) 9 (sample_block 0 0 1) 0 0 (MerkleArrives 6)
       (fst (deliver (sample_ports mem_store) (Ok 50) 9 (sample_block 0 0 1) 0 0 (StateArrives 5) sample_start)))) = (sample_one, Ok ())"
proof -
  have b: "ab_pending (bs_assembly_buffer sample_start) = []" "ac_max_pending_assemblies (ab_config (bs_assembly_buffer sample_start)) = 2"
    by code_simp+
  have w: "write_block (sample_ports mem_store) (Ok 50) 9 (sample_block 0 0 1) 0 0 sample_start = (sample_one, Ok 1)"
    using sample_writes(1) by (simp add: sample_one_def prod_eq_iff)
  show ?thesis
    using assembly_order_irrelevant [of sample_start "sample_ports mem_store" "sample_block 0 0 1" "StateArrives 5" "MerkleArrives 6"
        "BlockArrives 7" "Ok 50" 9 0 0] by (simp add: b w)
qed

text \<open>
  The file-backed store applies a batch to its map before it writes the file and does not take it
  back when that fails. A block whose batch fails is then reported as an error, yet it exists: it is missing from the
  height index, and writing it again is refused because it is there.
\<close>

theorem failed_save_keeps_the_block:
  assumes "sp_kv P = file_store save" and "\<And>m. save m = Err e"
    and "check_disk_space P disk s = Ok ()" and "check_parent_exists P block s = Ok ()"
    and "\<not> block_exists P (compute_block_hash P block) s"
    and "sb = new_stored_block block merkle state now (compute_block_checksum P block merkle state)"
    and "sp_estimate_size P sb \<le> sc_max_block_size (bs_config s)" and "sp_serialize P sb = Ok data"
  shows "\<exists>s'. write_block P disk now block merkle state s = (s', Err (of_kv_error e)) \<and>
    block_exists P (compute_block_hash P block) s' \<and> bs_block_index s' = bs_block_index s \<and>
    write_block P disk now' block merkle state s' = (s', Err (BlockExists (compute_block_hash P block)))"
proof -
  let ?h = "compute_block_hash P block"
  let ?kv = "fold apply_operation [BatchPut (block_key ?h) data, BatchPut (height_key (bh_height (vb_header block))) (be_bytes 32 ?h)]
    (bs_kv_store s)"
  define s' where "s' = s\<lparr>bs_kv_store := ?kv\<rparr>"
  have w: "write_block P disk now block merkle state s = (s', Err (of_kv_error e))"
    using assms(3-8) by (simp add: write_block_def Let_def assms(1, 2) file_store_def s'_def)
  have keep: "block_exists P k s'" if "block_exists P k s \<or> k = ?h" for k
    using that by (auto simp: s'_def block_exists_def assms(1) file_store_def update_conv)
  have "check_disk_space P disk s' = Ok ()" using assms(3) by (cases disk) (simp_all add: s'_def check_disk_space_def split: if_splits)
  moreover have "check_parent_exists P block s' = Ok ()"
    using assms(4) keep by (auto simp: check_parent_exists_def split: if_splits)
  ultimately have "write_block P disk now' block merkle state s' = (s', Err (BlockExists ?h))"
    using keep by (simp add: write_block_def)
  then show ?thesis using keep w by (auto simp: s'_def)
qed

theorem failed_save_keeps_the_block_witness:
  "\<exists>s'. write_block (sample_ports (file_store (\<lambda>_. Err (KvIOError ''disk'')))) (Ok 50) 9 (sample_block 0 0 1) 0 0
      (new_storage (sample_ports (file_store (\<lambda>_. Err (KvIOError ''disk'')))) [] sample_config) =
      (s', Err (DatabaseError ''KV store I/O error: disk'')) \<and>
    block_exists (sample_ports (file_store (\<lambda>_. Err (KvIOError ''disk'')))) 1 s'"
proof -
  let ?P = "sample_ports (file_store (\<lambda>_. Err (KvIOError ''disk'')))"
  let ?s = "new_storage ?P [] sample_config" and ?b = "sample_block 0 0 1"
  have c: "(check_disk_space ?P (Ok 50) ?s, check_parent_exists ?P ?b ?s, block_exists ?P (compute_block_hash ?P ?b) ?s,
      compute_block_hash ?P ?b, sp_estimate_size ?P (new_stored_block ?b 0 0 9 (compute_block_checksum ?P ?b 0 0)) \<le> sc_max_block_size (bs_config ?s),
      sp_serialize ?P (new_stored_block ?b 0 0 9 (compute_block_checksum ?P ?b 0 0)), of_kv_error (KvIOError ''disk'')) =
    (Ok (), Ok (), False, 1, True, Ok [1], DatabaseError ''KV store I/O error: disk'')" by code_simp
  show ?thesis
    using failed_save_keeps_the_block [OF sample_laws(1) refl, where e = "KvIOError ''disk''" and now' = 10 and disk = "Ok 50" and s = ?s and block = ?b and merkle = 0 and state = 0 and now = 9
      and data = "[1]", OF _ _ _ refl] c by auto
qed

text \<open>The file of the file-backed store: for each entry the length of the key, the key, the length of
  the value and the value. Lengths are cast to 32 bits. Loading reads entries until the rest of the file is too short.\<close>

definition file_entry :: "bytes \<times> bytes \<Rightarrow> bytes" where
  "file_entry = (\<lambda>(key, v).
     le_bytes 4 (of_nat (length key) :: u32) @ key @ le_bytes 4 (of_nat (length v) :: u32) @ v)"

definition file_bytes :: "(bytes \<times> bytes) list \<Rightarrow> bytes" where
  "file_bytes m = concat (map file_entry m)"

definition read_len :: "bytes \<Rightarrow> nat" where
  "read_len bs = unat (from_be_bytes (rev (take 4 bs)) :: u32)"

function load_entries :: "bytes \<Rightarrow> (bytes \<times> bytes) list \<Rightarrow> (bytes \<times> bytes) list" where
  "load_entries bs data =
     (if length bs < 4 then data
      else
        (let key_len = read_len bs; bs1 = drop 4 bs in
         if length bs1 < key_len then data
         else
           (let key = take key_len bs1; bs2 = drop key_len bs1 in
            if length bs2 < 4 then data
            else
              (let value_len = read_len bs2; bs3 = drop 4 bs2 in
               if length bs3 < value_len then data
               else load_entries (drop value_len bs3) (AList.update key (take value_len bs3) data)))))"
  by pat_completeness auto
termination by (relation "measure (length \<circ> fst)") auto

declare load_entries.simps [simp del]

definition load_from_file :: "bytes \<Rightarrow> (bytes \<times> bytes) list" where
  "load_from_file bs = load_entries bs []"

lemma read_len_le_bytes: "n < 2 ^ 32 \<Longrightarrow> read_len (le_bytes 4 (of_nat n :: u32) @ r) = n"
  by (simp add: read_len_def le_bytes_def from_be_be unat_of_nat take_bit_nat_eq_self)

lemma load_file_entry:
  assumes "length key < 2 ^ 32" and "length v < 2 ^ 32"
  shows "load_entries (file_entry (key, v) @ r) data = load_entries r (AList.update key v data)"
proof -
  note l = read_len_le_bytes [OF assms(1)] read_len_le_bytes [OF assms(2)]
  show ?thesis by (subst load_entries.simps) (simp add: file_entry_def l Let_def)
qed

lemma load_truncated_entry:
  assumes "length key < 2 ^ 32" and "length v < 2 ^ 32" and "n < length (file_entry (key, v))"
  shows "load_entries (take n (file_entry (key, v))) data = data"
proof -
  consider "n < 4" | "4 \<le> n" "n < 4 + length key" | "4 + length key \<le> n" "n < 8 + length key" | "8 + length key \<le> n" by linarith
  then show ?thesis
  proof cases
    case 1
    then show ?thesis by (subst load_entries.simps) (simp add: min_def)
  next
    case 2
    then have "take n (file_entry (key, v)) = le_bytes 4 (of_nat (length key) :: u32) @ take (n - 4) key" by (simp add: file_entry_def)
    with 2 show ?thesis by (subst load_entries.simps) (auto simp: read_len_le_bytes [OF assms(1)] Let_def)
  next
    case 3
    then have "take n (file_entry (key, v)) = le_bytes 4 (of_nat (length key) :: u32) @ key @
        take (n - 4 - length key) (le_bytes 4 (of_nat (length v) :: u32))" by (simp add: file_entry_def)
    with 3 show ?thesis by (subst load_entries.simps) (auto simp: read_len_le_bytes [OF assms(1)] Let_def)
  next
    case 4
    then have t: "take n (file_entry (key, v)) = le_bytes 4 (of_nat (length key) :: u32) @ key @ le_bytes 4 (of_nat (length v) :: u32) @
        take (n - 8 - length key) v" by (simp add: file_entry_def)
    have "n < 8 + length key + length v" using assms(3) by (simp add: file_entry_def)
    with 4 show ?thesis unfolding t
      by (subst load_entries.simps) (simp add: read_len_le_bytes [OF assms(1)] read_len_le_bytes [OF assms(2)] Let_def)
  qed
qed

lemma load_file_prefix:
  assumes "\<And>k v. (k, v) \<in> set m \<Longrightarrow> length k < 2 ^ 32 \<and> length v < 2 ^ 32"
  shows "\<exists>i. load_entries (take n (file_bytes m)) data = fold (\<lambda>(k, v). AList.update k v) (take i m) data \<and>
    (length (file_bytes m) \<le> n \<longrightarrow> length m \<le> i)"
  using assms
proof (induction m arbitrary: n data)
  case Nil
  then show ?case by (simp add: file_bytes_def load_entries.simps)
next
  case (Cons e m)
  obtain k v where e: "e = (k, v)" by fastforce
  have l: "length k < 2 ^ 32" "length v < 2 ^ 32" using Cons.prems [of k v] by (simp_all add: e)
  have f: "file_bytes (e # m) = file_entry e @ file_bytes m" by (simp add: file_bytes_def)
  show ?case
  proof (cases "n < length (file_entry e)")
    case True
    then have "load_entries (take n (file_bytes (e # m))) data = data"
      using load_truncated_entry [OF l] by (simp add: e f [unfolded e])
    moreover have "\<not> length (file_bytes (e # m)) \<le> n" using True by (simp add: f)
    ultimately show ?thesis by (intro exI [of _ 0]) simp
  next
    case False
    let ?n = "n - length (file_entry e)"
    obtain i where i: "load_entries (take ?n (file_bytes m)) (AList.update k v data) =
        fold (\<lambda>(k, v). AList.update k v) (take i m) (AList.update k v data)" "length (file_bytes m) \<le> ?n \<longrightarrow> length m \<le> i"
      using Cons.IH [of ?n "AList.update k v data"] Cons.prems by auto
    have "load_entries (take n (file_bytes (e # m))) data = load_entries (take ?n (file_bytes m)) (AList.update k v data)"
      using False load_file_entry [OF l] by (simp add: e f [unfolded e])
    then show ?thesis using i False by (intro exI [of _ "Suc i"]) (auto simp: e f [unfolded e])
  qed
qed

text \<open>
  Loading the file written for a map gives the map back, and a file cut off anywhere loads as the
  first of its entries, so that a truncated file never yields an entry that was not stored.
\<close>

theorem file_round_trip:
  assumes "hm_inv m" and "\<And>k v. (k, v) \<in> set m \<Longrightarrow> length k < 2 ^ 32 \<and> length v < 2 ^ 32"
  shows "load_from_file (file_bytes m) = m \<and> (\<exists>i. load_from_file (take n (file_bytes m)) = take i m)"
proof -
  have cut: "\<exists>i. load_from_file (take n (file_bytes m)) = take i m \<and> (length (file_bytes m) \<le> n \<longrightarrow> length m \<le> i)" for n
  proof -
    obtain i where i: "load_entries (take n (file_bytes m)) [] = fold (\<lambda>(k, v). AList.update k v) (take i m) []"
        "length (file_bytes m) \<le> n \<longrightarrow> length m \<le> i"
      using load_file_prefix [of m n "[]"] assms(2) by blast
    have "hm_inv ([] @ take i m)" using assms(1) by (simp add: distinct_take flip: take_map)
    from hm_insert_all [OF this] i show ?thesis by (auto simp: load_from_file_def)
  qed
  from cut [of "length (file_bytes m)"] have "load_from_file (file_bytes m) = m" by auto
  with cut [of n] show ?thesis by blast
qed

theorem file_round_trip_witness:
  "load_from_file (file_bytes [([1], [2, 3]), ([], [4])]) = [([1], [2, 3]), ([], [4])] \<and>
   load_from_file (take 13 (file_bytes [([1], [2, 3]), ([], [4])])) = [([1], [2, 3])]"
proof -
  have "load_from_file (file_bytes [([1], [2, 3]), ([], [4])]) = [([1], [2, 3]), ([], [4])]"
    by (rule conjunct1, rule file_round_trip) auto
  moreover have "load_from_file (take 13 (file_bytes [([1], [2, 3]), ([], [4])])) = [([1], [2, 3])]" by code_simp
  ultimately show ?thesis by blast
qed

end
