(* ===== verification/StateTrie.thy ===== *)
theory StateTrie
  imports Containers SharedTypes "HOL-Library.List_Lexorder"
begin

text \<open>
  State management (\<^verbatim>\<open>qc-04-state-management/src/domain\<close>): the account state and its encoding
  (\<^verbatim>\<open>entities.rs\<close>, \<^verbatim>\<open>rlp.rs\<close>), nibble paths (\<^verbatim>\<open>nibbles.rs\<close>), the trie nodes (\<^verbatim>\<open>node.rs\<close>), the
  Patricia Merkle trie with its account, storage, proof and persistence operations (\<^verbatim>\<open>trie.rs\<close>)
  and the proof checks (\<^verbatim>\<open>proofs.rs\<close>, \<^verbatim>\<open>verify.rs\<close>).

  The trie keeps its nodes in a map from node hash to node which every update rebuilds from the
  account map. Keccak-256 is the parameter \<open>kec\<close>. A signed 128-bit amount is a word read with \<open>sint\<close>.
  Slicing a path beyond its end and indexing bytes beyond their end panic. The loop of the proof
  generator follows hashes through the node map and may run forever on an arbitrary map; it is a
  partial function, shown to return on every trie the operations build.
\<close>

declare map_of_eq_Some_iff [simp del] Some_eq_map_of_iff [simp del]

section \<open>Accounts\<close>

type_synonym storage_key = "256 word"
type_synonym storage_value = "256 word"

definition EMPTY_CODE_HASH :: hash where "EMPTY_CODE_HASH = 0"

definition EMPTY_TRIE_ROOT :: hash where
  "EMPTY_TRIE_ROOT = 0x56e81f171bcc55a6ff8345e692c0f86e5b48e01b996cadc001622fb5e363b421"

definition MAX_PROOF_DEPTH :: usize where "MAX_PROOF_DEPTH = 64"
definition TRIE_LEAF_DOMAIN :: u8 where "TRIE_LEAF_DOMAIN = 0"
definition EXTENSION_DOMAIN :: u8 where "EXTENSION_DOMAIN = 1"
definition BRANCH_DOMAIN :: u8 where "BRANCH_DOMAIN = 2"

record account_state =
  as_balance :: u128
  as_nonce :: u64
  as_code_hash :: hash
  as_storage_root :: hash

definition default_account :: account_state where
  "default_account =
     \<lparr>as_balance = 0, as_nonce = 0, as_code_hash = EMPTY_CODE_HASH, as_storage_root = EMPTY_TRIE_ROOT\<rparr>"

definition new_account :: "u128 \<Rightarrow> account_state" where
  "new_account balance = default_account\<lparr>as_balance := balance\<rparr>"

definition significant :: "u8 list \<Rightarrow> u8 list" where
  "significant bs = dropWhile (\<lambda>b. b = 0) bs"

definition rlp_encode_u64 :: "u64 \<Rightarrow> u8 list" where
  "rlp_encode_u64 v =
     (if v = 0 then [0x80] else if v < 128 then [ucast v]
      else let bs = significant (be_bytes 8 v) in (0x80 + of_nat (length bs)) # bs)"

definition rlp_encode_u128 :: "u128 \<Rightarrow> u8 list" where
  "rlp_encode_u128 v =
     (if v = 0 then [0x80] else if v < 128 then [ucast v]
      else let bs = significant (be_bytes 16 v) in (0x80 + of_nat (length bs)) # bs)"

definition rlp_bytes :: "u8 list \<Rightarrow> u8 list" where
  "rlp_bytes data =
     (if length data = 1 \<and> hd data < 128 then [hd data]
      else if length data < 56 then (0x80 + of_nat (length data)) # data
      else let len = significant (be_bytes 8 (of_nat (length data) :: u64)) in
           (0xb7 + of_nat (length len)) # len @ data)"

definition rlp_list :: "u8 list \<Rightarrow> u8 list" where
  "rlp_list items =
     (if length items < 56 then (0xc0 + of_nat (length items)) # items
      else let len = significant (be_bytes 8 (of_nat (length items) :: u64)) in
           (0xf7 + of_nat (length len)) # len @ items)"

definition account_rlp :: "account_state \<Rightarrow> u8 list" where
  "account_rlp a =
     rlp_list (rlp_encode_u64 (as_nonce a) @ rlp_encode_u128 (as_balance a) @
       rlp_bytes (be_bytes 32 (as_storage_root a)) @ rlp_bytes (be_bytes 32 (as_code_hash a)))"

record state_config =
  stc_max_depth :: usize
  stc_cache_size_mb :: usize
  stc_enable_snapshots :: bool
  stc_snapshot_interval :: u64
  stc_pruning_depth :: u64
  stc_max_storage_slots_per_contract :: usize

definition default_state_config :: state_config where
  "default_state_config =
     \<lparr>stc_max_depth = 64, stc_cache_size_mb = 512, stc_enable_snapshots = True, stc_snapshot_interval = 128,
      stc_pruning_depth = 1000, stc_max_storage_slots_per_contract = 10000\<rparr>"

datatype state_error =
    AccountNotFound address
  | InsufficientBalance u128 u128
  | StInvalidNonce u64 u64
  | StNonceGap u64 u64
  | StorageLimitExceeded address
  | StBlockNotFound u64
  | StUnauthorizedSender u8
  | StDatabaseError string
  | ProofVerificationFailed
  | StateRootMismatch hash hash
  | SnapshotNotFound u64
  | TrieDepthExceeded usize usize
  | StSerializationError string
  | LockPoisoned
  | ProofGenerationFailed address
  | RollbackDepthExceeded u64 u64

section \<open>Nibbles\<close>

type_synonym nibbles = "u8 list"

definition nibbles_of :: "u8 list \<Rightarrow> nibbles" where
  "nibbles_of bs = concat (map (\<lambda>b. [drop_bit 4 b, b AND 0x0F]) bs)"

definition nibbles_from_address :: "address \<Rightarrow> nibbles" where
  "nibbles_from_address a = nibbles_of (be_bytes 20 a)"

definition common_prefix_len :: "nibbles \<Rightarrow> nibbles \<Rightarrow> usize" where
  "common_prefix_len xs ys = length (takeWhile (\<lambda>(a, b). a = b) (zip xs ys))"

fun pack_nibbles :: "nibbles \<Rightarrow> u8 list" where
  "pack_nibbles [] = []"
| "pack_nibbles [a] = [push_bit 4 a OR 0]"
| "pack_nibbles (a # b # rest) = (push_bit 4 a OR b) # pack_nibbles rest"

definition encode_hex_prefix :: "nibbles \<Rightarrow> bool \<Rightarrow> u8 list" where
  "encode_hex_prefix path is_leaf =
     (let odd_len = length path mod 2 = 1;
          flag = (if is_leaf then 2 else 0) + (if odd_len then 1 else 0) :: u8 in
      if odd_len then (push_bit 4 flag OR hd path) # pack_nibbles (tl path)
      else push_bit 4 flag # pack_nibbles path)"

definition decode_hex_prefix :: "u8 list \<Rightarrow> nibbles \<times> bool" where
  "decode_hex_prefix encoded =
     (case encoded of
        [] \<Rightarrow> ([], False)
      | b # rest \<Rightarrow>
          (let flag = drop_bit 4 b in
           ((if flag mod 2 = 1 then [b AND 0x0F] else []) @ nibbles_of rest, 2 \<le> flag)))"

section \<open>Nodes\<close>

datatype trie_node =
    TnEmpty
  | TnLeaf nibbles "u8 list"
  | TnExtension nibbles hash
  | TnBranch "hash option list" "u8 list option"

definition rlp_encode_bytes :: "u8 list \<Rightarrow> u8 list" where
  "rlp_encode_bytes data =
     (if length data = 1 \<and> hd data < 0x80 then [hd data]
      else if length data < 56 then (0x80 + of_nat (length data)) # data
      else let len = significant (be_bytes 8 (of_nat (length data) :: u64)) in
           (0xb7 + of_nat (length len)) # len @ data)"

definition rlp_encode_list_items :: "u8 list list \<Rightarrow> u8 list" where
  "rlp_encode_list_items items =
     (let body = concat (map rlp_encode_bytes items) in
      if length body < 56 then (0xc0 + of_nat (length body)) # body
      else let len = significant (be_bytes 8 (of_nat (length body) :: u64)) in
           (0xf7 + of_nat (length len)) # len @ body)"

definition rlp_encode_two_items :: "u8 list \<Rightarrow> u8 list \<Rightarrow> u8 list" where
  "rlp_encode_two_items a b =
     (let body = rlp_encode_bytes a @ rlp_encode_bytes b in
      if length body < 56 then (0xc0 + of_nat (length body)) # body
      else let len = significant (be_bytes 8 (of_nat (length body) :: u64)) in
           (0xf7 + of_nat (length len)) # len @ body)"

fun node_rlp :: "trie_node \<Rightarrow> u8 list" where
  "node_rlp TnEmpty = [0x80]"
| "node_rlp (TnLeaf path v) = rlp_encode_two_items (encode_hex_prefix path True) v"
| "node_rlp (TnExtension path child) = rlp_encode_two_items (encode_hex_prefix path False) (be_bytes 32 child)"
| "node_rlp (TnBranch children v) =
     rlp_encode_list_items
       (map (\<lambda>c. case c of Some h \<Rightarrow> be_bytes 32 h | None \<Rightarrow> [0x80]) children @
        [case v of Some x \<Rightarrow> x | None \<Rightarrow> [0x80]])"

definition node_hash :: "(u8 list \<Rightarrow> hash) \<Rightarrow> trie_node \<Rightarrow> hash" where
  "node_hash kec node = (if node = TnEmpty then EMPTY_TRIE_ROOT else kec (node_rlp node))"

text \<open>One step of the proof generator: stop, or the next hash and depth.\<close>

fun process_for_proof :: "trie_node \<Rightarrow> nibbles \<Rightarrow> usize \<Rightarrow> ((hash \<times> usize) option, state_error) outcome" where
  "process_for_proof TnEmpty key depth = Ok None"
| "process_for_proof (TnLeaf _ _) key depth = Ok None"
| "process_for_proof (TnExtension path child) key depth =
     (if length key < depth then Panic
      else if take (length path) (drop depth key) \<noteq> path then Ok None
      else Ok (Some (child, depth + length path)))"
| "process_for_proof (TnBranch children _) key depth =
     (if length key \<le> depth then Ok None
      else if length children \<le> unat (key ! depth) then Panic
      else (case children ! unat (key ! depth) of
              None \<Rightarrow> Ok None
            | Some child \<Rightarrow> Ok (Some (child, depth + 1))))"

section \<open>Building the trie\<close>

type_synonym node_map = "(hash \<times> trie_node) list"
type_synonym trie_items = "(nibbles \<times> u8 list) list"

definition insert_node :: "(u8 list \<Rightarrow> hash) \<Rightarrow> trie_node \<Rightarrow> node_map \<Rightarrow> node_map \<times> hash" where
  "insert_node kec node nodes = (let h = node_hash kec node in (AList.update h node nodes, h))"

definition shared_len :: "trie_items \<Rightarrow> usize \<Rightarrow> usize" where
  "shared_len items depth =
     min_list (map (\<lambda>(k, _). common_prefix_len (drop depth k) (drop depth (fst (hd items)))) (tl items))"

definition group_of :: "trie_items \<Rightarrow> usize \<Rightarrow> u8 \<Rightarrow> trie_items" where
  "group_of items depth nibble = filter (\<lambda>(k, _). depth < length k \<and> k ! depth = nibble) items"

definition value_at :: "trie_items \<Rightarrow> usize \<Rightarrow> u8 list option" where
  "value_at items depth = map_option snd (find (\<lambda>(k, _). length k = depth) items)"

definition all_nibbles :: "u8 list" where
  "all_nibbles = map of_nat [0..<16]"

definition max_key_len :: "trie_items \<Rightarrow> nat" where
  "max_key_len items = Max (insert 0 ((length \<circ> fst) ` set items))"

lemma max_key_len_ge: "x \<in> set items \<Longrightarrow> length (fst x) \<le> max_key_len items"
  by (simp add: max_key_len_def)

lemma max_key_len_mono: "set items \<subseteq> set items' \<Longrightarrow> max_key_len items \<le> max_key_len items'"
  unfolding max_key_len_def by (intro Max_mono) auto

lemma min_list_le: "x \<in> set xs \<Longrightarrow> min_list xs \<le> x" for x :: nat
  by (metis Min_le finite_set list.set_cases min_list_Min neq_Nil_conv)

lemma shared_len_le:
  assumes "items \<noteq> []" and "length items \<noteq> 1"
  shows "depth + shared_len items depth \<le> max (length (fst (hd items))) depth"
proof -
  obtain a b rest where i: "items = a # b # rest" using assms by (cases items; cases "tl items") auto
  have "shared_len items depth \<le> common_prefix_len (drop depth (fst b)) (drop depth (fst a))"
    unfolding shared_len_def i by (intro min_list_le) (auto split: prod.splits)
  also have "\<dots> \<le> length (drop depth (fst a))"
    unfolding common_prefix_len_def using length_takeWhile_le [of _ "zip (drop depth (fst b)) (drop depth (fst a))"] by fastforce
  finally show ?thesis by (simp add: i)
qed

function build_node :: "(u8 list \<Rightarrow> hash) \<Rightarrow> trie_items \<Rightarrow> usize \<Rightarrow> node_map \<Rightarrow> (node_map \<times> hash) option"
  and build_children :: "(u8 list \<Rightarrow> hash) \<Rightarrow> trie_items \<Rightarrow> usize \<Rightarrow> u8 list \<Rightarrow> node_map \<Rightarrow>
    (node_map \<times> hash option list) option" where
  "build_node kec items depth nodes =
     (if items = [] then Some (nodes, EMPTY_TRIE_ROOT)
      else if list_ex (\<lambda>(k, _). length k < depth) items then None
      else if length items = 1
      then Some (insert_node kec (TnLeaf (drop depth (fst (hd items))) (snd (hd items))) nodes)
      else if 0 < shared_len items depth
      then (case build_node kec items (depth + shared_len items depth) nodes of
              None \<Rightarrow> None
            | Some (nodes1, child) \<Rightarrow>
                Some (insert_node kec
                  (TnExtension (take (shared_len items depth) (drop depth (fst (hd items)))) child) nodes1))
      else (case build_children kec items depth all_nibbles nodes of
              None \<Rightarrow> None
            | Some (nodes1, children) \<Rightarrow>
                Some (insert_node kec (TnBranch children (value_at items depth)) nodes1)))"
| "build_children kec items depth [] nodes = Some (nodes, [])"
| "build_children kec items depth (nibble # rest) nodes =
     (if group_of items depth nibble = []
      then (case build_children kec items depth rest nodes of
              None \<Rightarrow> None
            | Some (nodes1, children) \<Rightarrow> Some (nodes1, None # children))
      else (case build_node kec (group_of items depth nibble) (depth + 1) nodes of
              None \<Rightarrow> None
            | Some (nodes1, child) \<Rightarrow>
                (case build_children kec items depth rest nodes1 of
                   None \<Rightarrow> None
                 | Some (nodes2, children) \<Rightarrow> Some (nodes2, Some child # children))))"
  by pat_completeness auto

termination
proof (relation "measures [\<lambda>x. case x of Inl (kec, items, depth, nodes) \<Rightarrow> max_key_len items - depth
      | Inr (kec, items, depth, ns, nodes) \<Rightarrow> max_key_len items - depth,
    \<lambda>x. case x of Inl _ \<Rightarrow> 17 | Inr (kec, items, depth, ns, nodes) \<Rightarrow> length ns]", goal_cases)
  case (2 kec items depth nodes)
  then have "depth + shared_len items depth \<le> max (length (fst (hd items))) depth" using shared_len_le by blast
  moreover have "length (fst (hd items)) \<le> max_key_len items" using "2" by (intro max_key_len_ge) auto
  ultimately show ?case using "2" by auto
next
  case (5 kec items depth nibble rest nodes)
  then obtain x where x: "x \<in> set items" "depth < length (fst x)"
    by (auto simp: group_of_def filter_empty_conv)
  have "max_key_len (group_of items depth nibble) \<le> max_key_len items"
    by (intro max_key_len_mono) (auto simp: group_of_def)
  then show ?case using x max_key_len_ge [OF x(1)] by auto
qed (auto simp: all_nibbles_def)

declare build_node.simps [simp del]

section \<open>The trie\<close>

record state_trie =
  tri_nodes :: node_map
  tri_root :: hash
  tri_accounts :: "(address \<times> account_state) list"
  tri_storage :: "((address \<times> storage_key) \<times> storage_value) list"
  tri_storage_counts :: "(address \<times> usize) list"
  tri_config :: state_config

definition trie_with_config :: "state_config \<Rightarrow> state_trie" where
  "trie_with_config cfg =
     \<lparr>tri_nodes = [(EMPTY_TRIE_ROOT, TnEmpty)], tri_root = EMPTY_TRIE_ROOT, tri_accounts = [], tri_storage = [],
      tri_storage_counts = [], tri_config = cfg\<rparr>"

definition new_trie :: state_trie where
  "new_trie = trie_with_config default_state_config"

definition account_item :: "(u8 list \<Rightarrow> hash) \<Rightarrow> address \<times> account_state \<Rightarrow> nibbles \<times> u8 list" where
  "account_item kec = (\<lambda>(a, st). (nibbles_of (be_bytes 32 (kec (be_bytes 20 a))), account_rlp st))"

definition rebuild_trie :: "(u8 list \<Rightarrow> hash) \<Rightarrow> state_trie \<Rightarrow> state_trie \<times> (unit, state_error) outcome" where
  "rebuild_trie kec t =
     (let nodes = [(EMPTY_TRIE_ROOT, TnEmpty)] in
      if tri_accounts t = [] then (t\<lparr>tri_nodes := nodes, tri_root := EMPTY_TRIE_ROOT\<rparr>, Ok ())
      else
        (case build_node kec (sort_key fst (map (account_item kec) (tri_accounts t))) 0 nodes of
           None \<Rightarrow> (t, Panic)
         | Some (nodes1, h) \<Rightarrow> (t\<lparr>tri_nodes := nodes1, tri_root := h\<rparr>, Ok ())))"

subsection \<open>Accounts\<close>

definition get_account :: "address \<Rightarrow> state_trie \<Rightarrow> account_state option" where
  "get_account a t = map_of (tri_accounts t) a"

definition account_entry :: "address \<Rightarrow> state_trie \<Rightarrow> account_state" where
  "account_entry a t = (case map_of (tri_accounts t) a of None \<Rightarrow> default_account | Some st \<Rightarrow> st)"

definition put_account :: "address \<Rightarrow> account_state \<Rightarrow> state_trie \<Rightarrow> state_trie" where
  "put_account a st t = t\<lparr>tri_accounts := AList.update a st (tri_accounts t)\<rparr>"

definition insert_account :: "(u8 list \<Rightarrow> hash) \<Rightarrow> address \<Rightarrow> account_state \<Rightarrow> state_trie \<Rightarrow>
    state_trie \<times> (unit, state_error) outcome" where
  "insert_account kec a st t = rebuild_trie kec (put_account a st t)"

definition set_balance :: "(u8 list \<Rightarrow> hash) \<Rightarrow> address \<Rightarrow> u128 \<Rightarrow> state_trie \<Rightarrow>
    state_trie \<times> (unit, state_error) outcome" where
  "set_balance kec a balance t = rebuild_trie kec (put_account a ((account_entry a t)\<lparr>as_balance := balance\<rparr>) t)"

definition get_balance :: "address \<Rightarrow> state_trie \<Rightarrow> u128" where
  "get_balance a t = (case map_of (tri_accounts t) a of None \<Rightarrow> 0 | Some st \<Rightarrow> as_balance st)"

definition get_nonce :: "address \<Rightarrow> state_trie \<Rightarrow> u64" where
  "get_nonce a t = (case map_of (tri_accounts t) a of None \<Rightarrow> 0 | Some st \<Rightarrow> as_nonce st)"

definition increment_nonce :: "(u8 list \<Rightarrow> hash) \<Rightarrow> address \<Rightarrow> state_trie \<Rightarrow>
    state_trie \<times> (unit, state_error) outcome" where
  "increment_nonce kec a t =
     (let st = account_entry a t in
      case checked_add (as_nonce st) 1 of
        None \<Rightarrow> (put_account a st t, Err (StInvalidNonce (as_nonce st) (- 1)))
      | Some n \<Rightarrow> rebuild_trie kec (put_account a (st\<lparr>as_nonce := n\<rparr>) t))"

definition apply_balance_change :: "(u8 list \<Rightarrow> hash) \<Rightarrow> address \<Rightarrow> 128 word \<Rightarrow> state_trie \<Rightarrow>
    state_trie \<times> (unit, state_error) outcome" where
  "apply_balance_change kec a delta t =
     (let current = get_balance a t in
      if 0 \<le> sint delta then set_balance kec a (saturating_add current delta) t
      else if sint delta = - (2 ^ 127) then (t, Panic)
      else
        (let required = - delta in
         if current < required then (t, Err (InsufficientBalance required current))
         else set_balance kec a (current - required) t))"

definition apply_nonce_increment :: "(u8 list \<Rightarrow> hash) \<Rightarrow> address \<Rightarrow> u64 \<Rightarrow> state_trie \<Rightarrow>
    state_trie \<times> (unit, state_error) outcome" where
  "apply_nonce_increment kec a expected_nonce t =
     (let current = get_nonce a t in
      if current \<noteq> expected_nonce
      then (case checked_add current 1 of
              None \<Rightarrow> (t, Panic)
            | Some next_nonce \<Rightarrow>
                if next_nonce < expected_nonce then (t, Err (StNonceGap next_nonce expected_nonce))
                else (t, Err (StInvalidNonce current expected_nonce)))
      else increment_nonce kec a t)"

subsection \<open>Storage\<close>

definition storage_entry :: "(address \<times> storage_key) \<times> storage_value \<Rightarrow> u8 list" where
  "storage_entry = (\<lambda>((_, key), v). be_bytes 32 key @ be_bytes 32 v)"

definition compute_storage_root :: "(u8 list \<Rightarrow> hash) \<Rightarrow> address \<Rightarrow> state_trie \<Rightarrow> hash" where
  "compute_storage_root kec contract t =
     (let slots = filter (\<lambda>((a, _), _). a = contract) (tri_storage t) in
      if slots = [] then EMPTY_TRIE_ROOT
      else kec (concat (map storage_entry (sort_key (\<lambda>((_, key), _). key) slots))))"

definition update_storage_root :: "(u8 list \<Rightarrow> hash) \<Rightarrow> address \<Rightarrow> state_trie \<Rightarrow> state_trie" where
  "update_storage_root kec contract t =
     (case map_of (tri_accounts t) contract of
        None \<Rightarrow> t
      | Some st \<Rightarrow> put_account contract (st\<lparr>as_storage_root := compute_storage_root kec contract t\<rparr>) t)"

definition set_storage :: "(u8 list \<Rightarrow> hash) \<Rightarrow> address \<Rightarrow> storage_key \<Rightarrow> storage_value \<Rightarrow> state_trie \<Rightarrow>
    state_trie \<times> (unit, state_error) outcome" where
  "set_storage kec contract key v t =
     (let slots = (case map_of (tri_storage_counts t) contract of None \<Rightarrow> 0 | Some n \<Rightarrow> n);
          t0 = t\<lparr>tri_storage_counts := AList.update contract slots (tri_storage_counts t)\<rparr>;
          fresh = (map_of (tri_storage t) (contract, key) = None) in
      if fresh \<and> stc_max_storage_slots_per_contract (tri_config t) \<le> slots
      then (t0, Err (StorageLimitExceeded contract))
      else
        (let t1 = (if fresh then t0\<lparr>tri_storage_counts := AList.update contract (slots + 1) (tri_storage_counts t0)\<rparr> else t0);
             t2 = t1\<lparr>tri_storage := AList.update (contract, key) v (tri_storage t1)\<rparr> in
         rebuild_trie kec (update_storage_root kec contract t2)))"

definition get_storage :: "address \<Rightarrow> storage_key \<Rightarrow> state_trie \<Rightarrow> storage_value option" where
  "get_storage contract key t = map_of (tri_storage t) (contract, key)"

definition delete_storage :: "(u8 list \<Rightarrow> hash) \<Rightarrow> address \<Rightarrow> storage_key \<Rightarrow> state_trie \<Rightarrow>
    state_trie \<times> (unit, state_error) outcome" where
  "delete_storage kec contract key t =
     (if map_of (tri_storage t) (contract, key) = None then (t, Ok ())
      else
        (let t1 = t\<lparr>tri_storage := AList.delete (contract, key) (tri_storage t)\<rparr>;
             t2 = (case map_of (tri_storage_counts t1) contract of
                     None \<Rightarrow> t1
                   | Some n \<Rightarrow> t1\<lparr>tri_storage_counts := AList.update contract (n - 1) (tri_storage_counts t1)\<rparr>) in
         rebuild_trie kec (update_storage_root kec contract t2)))"

section \<open>Proofs\<close>

record state_proof =
  spf_address :: address
  spf_account_state :: "account_state option"
  spf_proof_nodes :: "u8 list list"
  spf_state_root :: hash

record storage_proof =
  sgp_address :: address
  sgp_storage_key :: storage_key
  sgp_storage_value :: "storage_value option"
  sgp_account_proof :: "u8 list list"
  sgp_storage_proof :: "u8 list list"
  sgp_state_root :: hash

partial_function (option) proof_walk :: "node_map \<Rightarrow> address \<Rightarrow> nibbles \<Rightarrow> hash \<Rightarrow> usize \<Rightarrow> u8 list list \<Rightarrow>
    (u8 list list, state_error) outcome option" where
  [code]: "proof_walk nodes a key current depth acc =
     (if current = EMPTY_TRIE_ROOT then Some (Ok acc)
      else
        (case map_of nodes current of
           None \<Rightarrow> Some (Err (ProofGenerationFailed a))
         | Some node \<Rightarrow>
             (case process_for_proof node key depth of
                Err e \<Rightarrow> Some (Err e)
              | Panic \<Rightarrow> Some Panic
              | Ok None \<Rightarrow> Some (Ok (acc @ [node_rlp node]))
              | Ok (Some (child, depth1)) \<Rightarrow> proof_walk nodes a key child depth1 (acc @ [node_rlp node]))))"

definition generate_state_proof :: "(u8 list \<Rightarrow> hash) \<Rightarrow> address \<Rightarrow> state_trie \<Rightarrow>
    (state_proof, state_error) outcome option" where
  "generate_state_proof kec a t =
     map_option (\<lambda>r. case r of
         Ok nodes \<Rightarrow> Ok \<lparr>spf_address = a, spf_account_state = map_of (tri_accounts t) a, spf_proof_nodes = nodes,
                       spf_state_root = tri_root t\<rparr>
       | Err e \<Rightarrow> Err e
       | Panic \<Rightarrow> Panic)
       (proof_walk (tri_nodes t) a (nibbles_of (be_bytes 32 (kec (be_bytes 20 a)))) (tri_root t) 0 [])"

definition generate_storage_proof :: "(u8 list \<Rightarrow> hash) \<Rightarrow> address \<Rightarrow> storage_key \<Rightarrow> state_trie \<Rightarrow>
    (storage_proof, state_error) outcome option" where
  "generate_storage_proof kec a key t =
     map_option (\<lambda>r. case r of
         Ok p \<Rightarrow> Ok \<lparr>sgp_address = a, sgp_storage_key = key, sgp_storage_value = get_storage a key t,
                   sgp_account_proof = spf_proof_nodes p,
                   sgp_storage_proof = (case get_storage a key t of None \<Rightarrow> [] | Some v \<Rightarrow> [be_bytes 32 key, be_bytes 32 v]),
                   sgp_state_root = tri_root t\<rparr>
       | Err e \<Rightarrow> Err e
       | Panic \<Rightarrow> Panic)
       (generate_state_proof kec a t)"

definition verify_state_proof_root :: "(u8 list \<Rightarrow> hash) \<Rightarrow> state_proof \<Rightarrow> address \<Rightarrow> hash \<Rightarrow> bool" where
  "verify_state_proof_root kec p a expected_root =
     (if spf_state_root p \<noteq> expected_root then False
      else if spf_address p \<noteq> a then False
      else
        (case spf_proof_nodes p of
           [] \<Rightarrow> spf_account_state p = None
         | [_] \<Rightarrow> True
         | first_node # _ \<Rightarrow> kec first_node \<noteq> 0))"

definition verify_state_proof :: "state_proof \<Rightarrow> bool" where
  "verify_state_proof p =
     (if spf_proof_nodes p = [] then spf_account_state p = None
      else if spf_account_state p = None then True
      else spf_proof_nodes p \<noteq> [] \<and> spf_account_state p \<noteq> None)"

definition verify_storage_proof :: "storage_proof \<Rightarrow> bool" where
  "verify_storage_proof p =
     (if sgp_account_proof p = [] then sgp_storage_value p = None else sgp_account_proof p \<noteq> [])"

datatype verify_error =
    ProofTooDeep usize usize
  | EmptyProof
  | VePathMismatch
  | InvalidNode
  | HashMismatch
  | UnexpectedNodeType

datatype walk_node =
    PnLeaf "u8 list" "u8 list"
  | PnExtension "u8 list" hash
  | PnBranch "hash option list" "u8 list option"

definition hash_with_domain :: "(u8 list \<Rightarrow> hash) \<Rightarrow> u8 \<Rightarrow> u8 list \<Rightarrow> hash" where
  "hash_with_domain kec domain data = kec (domain # data)"

definition decode_proof_node :: "u8 list \<Rightarrow> (walk_node, verify_error) outcome" where
  "decode_proof_node data =
     (if data = [] then Err InvalidNode
      else if hd data = 0 then
        (if length data < 3 then Err InvalidNode
         else let path_len = unat (data ! 1) in
           if length data < 2 + path_len then Err InvalidNode
           else Ok (PnLeaf (take path_len (drop 2 data)) (drop (2 + path_len) data)))
      else if hd data = 1 then
        (if length data < 35 then Err InvalidNode
         else let path_len = unat (data ! 1) in
           if length data < 2 + path_len + 32 then Err InvalidNode
           else Ok (PnExtension (take path_len (drop 2 data)) (from_be_bytes (take 32 (drop (2 + path_len) data)))))
      else if hd data = 2 then Ok (PnBranch (replicate 16 None) None)
      else Err UnexpectedNodeType)"

definition serialize_account :: "account_state \<Rightarrow> u8 list" where
  "serialize_account a =
     le_bytes 16 (as_balance a) @ le_bytes 8 (as_nonce a) @ be_bytes 32 (as_code_hash a) @ be_bytes 32 (as_storage_root a)"

fun verify_walk :: "(u8 list \<Rightarrow> hash) \<Rightarrow> account_state option \<Rightarrow> nibbles \<Rightarrow> usize \<Rightarrow> u8 list list \<Rightarrow> usize \<Rightarrow> hash \<Rightarrow>
    (bool, verify_error) outcome" where
  "verify_walk kec expected key i [] idx current = Err InvalidNode"
| "verify_walk kec expected key i (bytes # rest) idx current =
     (case decode_proof_node bytes of
        Err e \<Rightarrow> Err e
      | Panic \<Rightarrow> Panic
      | Ok (PnLeaf path v) \<Rightarrow>
          if path \<noteq> drop idx key then Err VePathMismatch
          else if 0 < i \<and> hash_with_domain kec TRIE_LEAF_DOMAIN bytes \<noteq> current then Err HashMismatch
          else (case expected of None \<Rightarrow> Ok True | Some a \<Rightarrow> Ok (v = serialize_account a))
      | Ok (PnExtension path child) \<Rightarrow>
          if length key < idx + length path then Err VePathMismatch
          else if path \<noteq> take (length path) (drop idx key) then Err VePathMismatch
          else if 0 < i \<and> hash_with_domain kec EXTENSION_DOMAIN bytes \<noteq> current then Err HashMismatch
          else verify_walk kec expected key (i + 1) rest (idx + length path) child
      | Ok (PnBranch children _) \<Rightarrow>
          if length key \<le> idx then Err VePathMismatch
          else if 0 < i \<and> hash_with_domain kec BRANCH_DOMAIN bytes \<noteq> current then Err HashMismatch
          else if length children \<le> unat (key ! idx) then Panic
          else (case children ! unat (key ! idx) of
                  None \<Rightarrow> Err VePathMismatch
                | Some child \<Rightarrow> verify_walk kec expected key (i + 1) rest (idx + 1) child))"

definition verify_proof_iterative :: "(u8 list \<Rightarrow> hash) \<Rightarrow> state_proof \<Rightarrow> account_state option \<Rightarrow>
    (bool, verify_error) outcome" where
  "verify_proof_iterative kec p expected =
     (if MAX_PROOF_DEPTH < length (spf_proof_nodes p)
      then Err (ProofTooDeep (length (spf_proof_nodes p)) MAX_PROOF_DEPTH)
      else if spf_proof_nodes p = [] then Err EmptyProof
      else verify_walk kec expected (nibbles_from_address (spf_address p)) 0 (spf_proof_nodes p) 0 (spf_state_root p))"

section \<open>Persistence\<close>

definition account_record :: "address \<times> account_state \<Rightarrow> u8 list" where
  "account_record = (\<lambda>(a, st).
     be_bytes 20 a @ le_bytes 16 (as_balance st) @ le_bytes 8 (as_nonce st) @ be_bytes 32 (as_code_hash st) @
     be_bytes 32 (as_storage_root st))"

definition storage_record :: "(address \<times> storage_key) \<times> storage_value \<Rightarrow> u8 list" where
  "storage_record = (\<lambda>((a, key), v). be_bytes 20 a @ be_bytes 32 key @ be_bytes 32 v)"

definition serialize :: "state_trie \<Rightarrow> u8 list" where
  "serialize t =
     2 # be_bytes 32 (tri_root t) @
     le_bytes 4 (of_nat (length (tri_accounts t)) :: u32) @ concat (map account_record (tri_accounts t)) @
     le_bytes 4 (of_nat (length (tri_storage t)) :: u32) @ concat (map storage_record (tri_storage t))"

text \<open>Reading a fixed number of bytes at the cursor; too few bytes panic.\<close>

definition read_bytes :: "nat \<Rightarrow> u8 list \<Rightarrow> (u8 list \<times> u8 list) option" where
  "read_bytes n data = (if length data < n then None else Some (take n data, drop n data))"

definition read_account :: "u8 list \<Rightarrow> ((address \<times> account_state) \<times> u8 list) option" where
  "read_account d0 =
     Option.bind (read_bytes 20 d0) (\<lambda>(a, d1).
     Option.bind (read_bytes 16 d1) (\<lambda>(balance, d2).
     Option.bind (read_bytes 8 d2) (\<lambda>(nonce, d3).
     Option.bind (read_bytes 32 d3) (\<lambda>(code, d4).
     Option.bind (read_bytes 32 d4) (\<lambda>(root, d5).
       Some ((from_be_bytes a, \<lparr>as_balance = from_be_bytes (rev balance), as_nonce = from_be_bytes (rev nonce),
              as_code_hash = from_be_bytes code, as_storage_root = from_be_bytes root\<rparr>), d5))))))"

fun read_accounts :: "nat \<Rightarrow> u8 list \<Rightarrow> (address \<times> account_state) list \<Rightarrow>
    ((address \<times> account_state) list \<times> u8 list) option" where
  "read_accounts 0 data accounts = Some (accounts, data)"
| "read_accounts (Suc n) data accounts =
     Option.bind (read_account data) (\<lambda>((a, st), rest). read_accounts n rest (AList.update a st accounts))"

definition deserialize_accounts :: "u8 list \<Rightarrow> ((address \<times> account_state) list \<times> u8 list) option" where
  "deserialize_accounts data =
     Option.bind (read_bytes 4 data) (\<lambda>(n, rest). read_accounts (unat (from_be_bytes (rev n) :: u32)) rest [])"

fun read_slots :: "nat \<Rightarrow> u8 list \<Rightarrow> ((address \<times> storage_key) \<times> storage_value) list \<Rightarrow> (address \<times> usize) list \<Rightarrow>
    (((address \<times> storage_key) \<times> storage_value) list \<times> (address \<times> usize) list \<times> u8 list) option" where
  "read_slots 0 data slots counts = Some (slots, counts, data)"
| "read_slots (Suc n) d0 slots counts =
     Option.bind (read_bytes 20 d0) (\<lambda>(a, d1).
     Option.bind (read_bytes 32 d1) (\<lambda>(key, d2).
     Option.bind (read_bytes 32 d2) (\<lambda>(v, d3).
       let contract = from_be_bytes a;
           c = (case map_of counts contract of None \<Rightarrow> 0 | Some n \<Rightarrow> n) in
       read_slots n d3 (AList.update (contract, from_be_bytes key) (from_be_bytes v) slots)
         (AList.update contract (c + 1) counts))))"

definition deserialize_storage :: "u8 list \<Rightarrow>
    (((address \<times> storage_key) \<times> storage_value) list \<times> (address \<times> usize) list \<times> u8 list) option" where
  "deserialize_storage data =
     Option.bind (read_bytes 4 data) (\<lambda>(n, rest). read_slots (unat (from_be_bytes (rev n) :: u32)) rest [] [])"

definition deserialize :: "(u8 list \<Rightarrow> hash) \<Rightarrow> u8 list \<Rightarrow> (state_trie, state_error) outcome" where
  "deserialize kec data =
     (if data = [] then Ok new_trie
      else if hd data \<noteq> 1 \<and> hd data \<noteq> 2
      then Err (StDatabaseError (''Unsupported trie version: '' @ nat_str (unat (hd data))))
      else
        (case deserialize_accounts (drop 33 data) of
           None \<Rightarrow> Panic
         | Some (accounts, rest) \<Rightarrow>
             (case deserialize_storage rest of
                None \<Rightarrow> Panic
              | Some (slots, counts, _) \<Rightarrow>
                  (case rebuild_trie kec
                      \<lparr>tri_nodes = [(EMPTY_TRIE_ROOT, TnEmpty)], tri_root = EMPTY_TRIE_ROOT, tri_accounts = accounts,
                       tri_storage = slots, tri_storage_counts = counts, tri_config = default_state_config\<rparr> of
                     (t, Ok _) \<Rightarrow> Ok t
                   | (_, Err e) \<Rightarrow> Err e
                   | (_, Panic) \<Rightarrow> Panic))))"

definition state_db_key :: hash where "state_db_key = - 1"

definition save_to_db :: "(hash \<Rightarrow> u8 list \<Rightarrow> 'db \<Rightarrow> 'db \<times> (unit, state_error) outcome) \<Rightarrow> state_trie \<Rightarrow> 'db \<Rightarrow>
    'db \<times> (unit, state_error) outcome" where
  "save_to_db put_node t db = put_node state_db_key (serialize t) db"

definition load_from_db :: "(u8 list \<Rightarrow> hash) \<Rightarrow> ('db \<Rightarrow> hash \<Rightarrow> (u8 list option, state_error) outcome) \<Rightarrow> 'db \<Rightarrow>
    (state_trie, state_error) outcome" where
  "load_from_db kec get_node db =
     (case get_node db state_db_key of
        Ok (Some data) \<Rightarrow> deserialize kec data
      | Ok None \<Rightarrow> Ok new_trie
      | Err e \<Rightarrow> Err e
      | Panic \<Rightarrow> Panic)"

section \<open>The abstract trie\<close>

datatype ptrie =
    PtLeaf nibbles "u8 list"
  | PtExtension nibbles ptrie
  | PtBranch "ptrie option list" "u8 list option"

lemma group_shrinks:
  assumes "group_of items depth n \<noteq> []"
  shows "max_key_len (group_of items depth n) - (depth + 1) < max_key_len items - depth"
proof -
  from assms obtain x where x: "x \<in> set items" "depth < length (fst x)" by (auto simp: group_of_def filter_empty_conv)
  have "max_key_len (group_of items depth n) \<le> max_key_len items"
    by (intro max_key_len_mono) (auto simp: group_of_def)
  then show ?thesis using x max_key_len_ge [OF x(1)] by auto
qed

lemma shared_shrinks:
  assumes "1 < length items" and "0 < shared_len items depth"
  shows "max_key_len items - (depth + shared_len items depth) < max_key_len items - depth"
proof -
  have "depth + shared_len items depth \<le> max (length (fst (hd items))) depth" using shared_len_le [of items depth] assms(1) by (cases items) auto
  moreover have "length (fst (hd items)) \<le> max_key_len items" using assms(1) by (intro max_key_len_ge) (cases items; auto)
  ultimately show ?thesis using assms by auto
qed

function spec_trie :: "trie_items \<Rightarrow> usize \<Rightarrow> ptrie" where
  "spec_trie items depth =
     (if length items \<le> 1 then PtLeaf (drop depth (fst (hd items))) (snd (hd items))
      else if 0 < shared_len items depth
      then PtExtension (take (shared_len items depth) (drop depth (fst (hd items))))
             (spec_trie items (depth + shared_len items depth))
      else PtBranch (map (\<lambda>n. if group_of items depth n = [] then None
                              else Some (spec_trie (group_of items depth n) (depth + 1))) all_nibbles)
             (value_at items depth))"
  by pat_completeness auto

termination
  by (relation "measure (\<lambda>(items, depth). max_key_len items - depth)") (auto simp: not_le intro!: group_shrinks [simplified] shared_shrinks [simplified])

declare spec_trie.simps [simp del]

fun pt_node :: "(u8 list \<Rightarrow> hash) \<Rightarrow> ptrie \<Rightarrow> trie_node" where
  "pt_node kec (PtLeaf p v) = TnLeaf p v"
| "pt_node kec (PtExtension p t) = TnExtension p (node_hash kec (pt_node kec t))"
| "pt_node kec (PtBranch cs v) = TnBranch (map (map_option (\<lambda>t. node_hash kec (pt_node kec t))) cs) v"

definition pt_hash :: "(u8 list \<Rightarrow> hash) \<Rightarrow> ptrie \<Rightarrow> hash" where
  "pt_hash kec t = node_hash kec (pt_node kec t)"

fun pt_nodes :: "(u8 list \<Rightarrow> hash) \<Rightarrow> ptrie \<Rightarrow> trie_node list" where
  "pt_nodes kec (PtLeaf p v) = [TnLeaf p v]"
| "pt_nodes kec (PtExtension p t) = pt_nodes kec t @ [TnExtension p (pt_hash kec t)]"
| "pt_nodes kec (PtBranch cs v) =
     concat (map (\<lambda>c. case c of None \<Rightarrow> [] | Some t \<Rightarrow> pt_nodes kec t) cs) @ [TnBranch (map (map_option (pt_hash kec)) cs) v]"

definition add_nodes :: "(u8 list \<Rightarrow> hash) \<Rightarrow> trie_node list \<Rightarrow> node_map \<Rightarrow> node_map" where
  "add_nodes kec ns nodes = fold (\<lambda>n. AList.update (node_hash kec n) n) ns nodes"

lemma add_nodes_append: "add_nodes kec (xs @ ys) nodes = add_nodes kec ys (add_nodes kec xs nodes)"
  by (simp add: add_nodes_def)

lemma insert_node_add: "insert_node kec n nodes = (add_nodes kec [n] nodes, node_hash kec n)"
  by (simp add: insert_node_def add_nodes_def Let_def)

definition spec_children :: "trie_items \<Rightarrow> usize \<Rightarrow> u8 list \<Rightarrow> ptrie option list" where
  "spec_children items depth ns =
     map (\<lambda>n. if group_of items depth n = [] then None else Some (spec_trie (group_of items depth n) (depth + 1))) ns"

lemma common_prefix_take:
  "m \<le> common_prefix_len xs ys \<Longrightarrow> take m xs = take m ys \<and> m \<le> length xs \<and> m \<le> length ys"
proof (induction xs ys arbitrary: m rule: list_induct2')
  case (4 x xs y ys)
  then show ?case by (cases m) (auto simp: common_prefix_len_def split: if_splits)
qed (simp_all add: common_prefix_len_def)

lemma shared_prefix:
  assumes "1 < length items" and "(k, v) \<in> set items" and "depth \<le> length k" and "depth \<le> length (fst (hd items))"
  shows "take (shared_len items depth) (drop depth k) = take (shared_len items depth) (drop depth (fst (hd items)))"
    and "depth + shared_len items depth \<le> length k"
proof -
  obtain a rest where i: "items = a # rest" "rest \<noteq> []" using assms(1) by (cases items) auto
  have "take (shared_len items depth) (drop depth k) = take (shared_len items depth) (drop depth (fst (hd items))) \<and>
    shared_len items depth \<le> length (drop depth k)"
  proof (cases "(k, v) = a")
    case True
    obtain b where b: "b \<in> set rest" using i(2) by (cases rest) auto
    then have "shared_len items depth \<le> common_prefix_len (drop depth (fst b)) (drop depth (fst a))"
      unfolding shared_len_def i(1) by (intro min_list_le) (force simp: case_prod_unfold)
    then show ?thesis using common_prefix_take True i(1) by (metis fst_conv list.sel(1))
  next
    case False
    then have "(k, v) \<in> set rest" using assms(2) i(1) by simp
    then have "shared_len items depth \<le> common_prefix_len (drop depth k) (drop depth (fst a))"
      unfolding shared_len_def i(1) by (intro min_list_le) (force simp: case_prod_unfold)
    then show ?thesis using common_prefix_take i(1) by (metis list.sel(1))
  qed
  then show "take (shared_len items depth) (drop depth k) = take (shared_len items depth) (drop depth (fst (hd items)))"
    and "depth + shared_len items depth \<le> length k" using assms(3) by auto
qed

lemma build_refines:
  "items \<noteq> [] \<Longrightarrow> (\<forall>x \<in> set items. depth \<le> length (fst x)) \<Longrightarrow>
   build_node kec items depth nodes =
     Some (add_nodes kec (pt_nodes kec (spec_trie items depth)) nodes, pt_hash kec (spec_trie items depth))"
  "build_children kec items depth ns nodes =
     Some (add_nodes kec (concat (map (\<lambda>c. case c of None \<Rightarrow> [] | Some t \<Rightarrow> pt_nodes kec t) (spec_children items depth ns))) nodes,
       map (map_option (pt_hash kec)) (spec_children items depth ns))"
proof (induction kec items depth nodes and kec items depth ns nodes rule: build_node_build_children.induct)
  case (1 kec items depth nodes)
  have short: "\<not> list_ex (\<lambda>(k, _). length k < depth) items" using "1.prems" by (fastforce simp: list_ex_iff)
  consider "length items = 1" | "1 < length items" "0 < shared_len items depth" | "1 < length items" "shared_len items depth = 0"
    using "1.prems"(1) by (metis One_nat_def Suc_lessI length_greater_0_conv not_gr_zero)
  then show ?case
  proof cases
    case 1
    then have "spec_trie items depth = PtLeaf (drop depth (fst (hd items))) (snd (hd items))"
      by (subst spec_trie.simps) simp
    with 1 short "1.prems"(1) show ?thesis by (subst build_node.simps) (simp add: insert_node_add pt_hash_def)
  next
    case 2
    let ?d = "depth + shared_len items depth"
    have h0: "depth \<le> length (fst (hd items))" using "1.prems" by (cases items) auto
    have d: "\<forall>x \<in> set items. ?d \<le> length (fst x)"
    proof
      fix x assume "x \<in> set items"
      with "1.prems"(2) shared_prefix(2) [OF 2(1), of "fst x" "snd x" depth] h0 show "?d \<le> length (fst x)" by simp
    qed
    have s: "spec_trie items depth = PtExtension (take (shared_len items depth) (drop depth (fst (hd items)))) (spec_trie items ?d)"
      using 2 by (subst spec_trie.simps) simp
    have "build_node kec items ?d nodes = Some (add_nodes kec (pt_nodes kec (spec_trie items ?d)) nodes, pt_hash kec (spec_trie items ?d))"
      using "1.IH"(1) [OF "1.prems"(1) short _ 2(2) "1.prems"(1) d] 2(1) by simp
    with 2 short "1.prems"(1) show ?thesis unfolding s by (subst build_node.simps) (simp add: insert_node_add pt_hash_def add_nodes_append)
  next
    case 3
    have s: "spec_trie items depth = PtBranch (spec_children items depth all_nibbles) (value_at items depth)"
      using 3 by (subst spec_trie.simps) (simp add: spec_children_def)
    have "build_children kec items depth all_nibbles nodes =
        Some (add_nodes kec (concat (map (\<lambda>c. case c of None \<Rightarrow> [] | Some t \<Rightarrow> pt_nodes kec t) (spec_children items depth all_nibbles))) nodes,
          map (map_option (pt_hash kec)) (spec_children items depth all_nibbles))"
      using "1.IH"(2) [OF "1.prems"(1) short] 3 by simp
    with 3 short "1.prems"(1) show ?thesis unfolding s
      by (subst build_node.simps) (simp add: insert_node_add pt_hash_def [abs_def] add_nodes_append)
  qed
next
  case (2 kec items depth nodes)
  then show ?case by (simp add: spec_children_def add_nodes_def)
next
  case (3 kec items depth nibble rest nodes)
  show ?case
  proof (cases "group_of items depth nibble = []")
    case True
    then show ?thesis using "3.IH"(1) by (simp add: spec_children_def)
  next
    case False
    have "\<forall>x \<in> set (group_of items depth nibble). depth + 1 \<le> length (fst x)" by (auto simp: group_of_def)
    note n = "3.IH"(2) [OF False False this]
    show ?thesis using False n "3.IH"(3) [OF False n] by (simp add: spec_children_def add_nodes_append)
  qed
qed

section \<open>Lookup in the abstract trie\<close>

fun pt_find :: "ptrie \<Rightarrow> nibbles \<Rightarrow> u8 list option" where
  "pt_find (PtLeaf p v) key = (if key = p then Some v else None)"
| "pt_find (PtExtension p t) key = (if take (length p) key = p then pt_find t (drop (length p) key) else None)"
| "pt_find (PtBranch cs v) key =
     (case key of
        [] \<Rightarrow> v
      | x # rest \<Rightarrow> (if length cs \<le> unat x then None
                   else case cs ! unat x of None \<Rightarrow> None | Some t \<Rightarrow> pt_find t rest))"

definition key_ok :: "nat \<Rightarrow> nibbles \<Rightarrow> bool" where
  "key_ok len k \<longleftrightarrow> length k = len \<and> (\<forall>x \<in> set k. unat x < 16)"

lemma all_nibbles_nth: "unat x < 16 \<Longrightarrow> all_nibbles ! unat x = x"
  unfolding all_nibbles_def using nth_map_upt [of "unat x" 16 0 "of_nat :: nat \<Rightarrow> u8"] by (simp del: upt_rec_numeral)

lemma length_all_nibbles [simp]: "length all_nibbles = 16"
  by (simp add: all_nibbles_def)

lemma group_lookup: "hm_inv items \<Longrightarrow> depth < length key \<Longrightarrow> map_of (group_of items depth (key ! depth)) key = map_of items key"
  unfolding group_of_def
  by (subst hm_filter_lookup) (auto split: option.splits)

lemma eq_by_parts: "take d a = take d b \<Longrightarrow> drop d a = drop d b \<Longrightarrow> a = b"
  by (metis append_take_drop_id)

lemma find_spec:
  assumes "items \<noteq> []" and "hm_inv items" and "\<And>k v. (k, v) \<in> set items \<Longrightarrow> key_ok len k \<and> take depth k = take depth key"
    and "key_ok len key" and "depth \<le> len"
  shows "pt_find (spec_trie items depth) (drop depth key) = map_of items key"
  using assms
proof (induction items depth rule: spec_trie.induct)
  case (1 items depth)
  note prems = "1.prems"
  have len: "length k = len" if "(k, v) \<in> set items" for k v using prems(3) [OF that] by (simp add: key_ok_def)
  have keylen: "length key = len" using prems(4) by (simp add: key_ok_def)
  obtain k0 v0 rest where i: "items = (k0, v0) # rest" using prems(1) by (cases items) auto
  consider "length items = 1" | "1 < length items" "0 < shared_len items depth" | "1 < length items" "shared_len items depth = 0"
    using prems(1) by (metis One_nat_def Suc_lessI length_greater_0_conv not_gr_zero)
  then show ?case
  proof cases
    case 1
    then have "spec_trie items depth = PtLeaf (drop depth k0) v0" by (subst spec_trie.simps) (simp add: i)
    then show ?thesis using 1 prems(3) [of k0 v0] eq_by_parts [of depth key k0] by (auto simp: i)
  next
    case 2
    let ?s = "shared_len items depth" and ?d = "depth + shared_len items depth"
    let ?p = "take ?s (drop depth k0)"
    have sh: "take ?s (drop depth k) = ?p" "?d \<le> len" if "(k, v) \<in> set items" for k v
      using shared_prefix [OF 2(1) that] prems(5) len [OF that] len [of k0 v0] by (simp_all add: i)
    have d: "?d \<le> len" using sh(2) [of k0 v0] by (simp add: i)
    have st: "spec_trie items depth = PtExtension ?p (spec_trie items ?d)" using 2 by (subst spec_trie.simps) (simp add: i)
    have lp: "length ?p = ?s" using d len [of k0 v0] by (simp add: i)
    show ?thesis
    proof (cases "take ?s (drop depth key) = ?p")
      case True
      have "take ?d k = take ?d key" if "(k, v) \<in> set items" for k v
        unfolding take_add using prems(3) [OF that] sh(1) [OF that] True by simp
      then have "pt_find (spec_trie items ?d) (drop ?d key) = map_of items key"
        using "1.IH"(1) [OF _ 2(2) prems(1, 2) _ prems(4) d] 2(1) prems(3) by simp
      then show ?thesis unfolding st pt_find.simps lp using True by (simp add: add.commute)
    next
      case False
      have "map_of items key = None"
      proof (cases "map_of items key")
        case (Some v)
        from sh(1) [OF map_of_SomeD [OF this]] False show ?thesis by blast
      qed
      with False show ?thesis unfolding st pt_find.simps lp by simp
    qed
  next
    case 3
    obtain k1 v1 where "(k1, v1) \<in> set rest" using 3(1) by (cases rest) (auto simp: i)
    then have k1: "(k1, v1) \<in> set items" "k1 \<noteq> k0" using prems(2) by (auto simp: i image_iff)
    have "depth < len"
    proof (rule ccontr)
      assume "\<not> depth < len"
      then have "take depth k1 = k1" "take depth k0 = k0" using len [OF k1(1)] len [of k0 v0] by (simp_all add: i)
      then have "k1 = k0" using prems(3) [OF k1(1)] prems(3) [of k0 v0] by (simp add: i)
      then show False using k1(2) by simp
    qed
    then have dk: "drop depth key = key ! depth # drop (depth + 1) key" using keylen by (simp add: Cons_nth_drop_Suc)
    have x: "unat (key ! depth) < 16" using prems(4) \<open>depth < len\<close> keylen by (auto simp: key_ok_def)
    let ?g = "group_of items depth (key ! depth)"
    have st: "spec_trie items depth = PtBranch (spec_children items depth all_nibbles) (value_at items depth)"
      using 3 by (subst spec_trie.simps) (simp add: spec_children_def)
    have c: "spec_children items depth all_nibbles ! unat (key ! depth) = (if ?g = [] then None else Some (spec_trie ?g (depth + 1)))"
      using x by (simp add: spec_children_def all_nibbles_nth)
    have l: "length (spec_children items depth all_nibbles) = 16" by (simp add: spec_children_def)
    have g: "map_of ?g key = map_of items key" using group_lookup prems(2) \<open>depth < len\<close> keylen by blast
    show ?thesis
    proof (cases "?g = []")
      case True
      then show ?thesis using x g by (simp add: st dk c l)
    next
      case False
      have inv: "hm_inv ?g" using prems(2) unfolding group_of_def by (rule hm_filter_inv)
      have mem: "key_ok len k \<and> take (depth + 1) k = take (depth + 1) key" if "(k, v) \<in> set ?g" for k v
        using that prems(3) [of k v] keylen \<open>depth < len\<close> by (auto simp: group_of_def take_Suc_conv_app_nth)
      have "key ! depth \<in> set all_nibbles" using x all_nibbles_nth [OF x] by (metis length_all_nibbles nth_mem)
      then have "pt_find (spec_trie ?g (depth + 1)) (drop (depth + 1) key) = map_of ?g key"
        using "1.IH"(2) [OF _ _ _ False False inv mem prems(4)] 3 \<open>depth < len\<close> by simp
      then show ?thesis using x g False by (simp add: st dk c l)
    qed
  qed
qed

section \<open>The path of a proof\<close>

text \<open>Reference reading of a proof: the nodes are checked against the hashes that refer to them, starting
  from a root hash, and the value found for the key is returned; \<open>None\<close> is a proof that does not check.\<close>

fun path_value :: "(u8 list \<Rightarrow> hash) \<Rightarrow> hash \<Rightarrow> nibbles \<Rightarrow> trie_node list \<Rightarrow> u8 list option option" where
  "path_value kec h key [] = (if h = EMPTY_TRIE_ROOT then Some None else None)"
| "path_value kec h key (n # ns) =
     (if node_hash kec n \<noteq> h then None
      else case n of
        TnEmpty \<Rightarrow> None
      | TnLeaf p v \<Rightarrow> (if ns = [] then Some (if key = p then Some v else None) else None)
      | TnExtension p c \<Rightarrow>
          (if take (length p) key = p then path_value kec c (drop (length p) key) ns
           else if ns = [] then Some None else None)
      | TnBranch cs v \<Rightarrow>
          (case key of
             [] \<Rightarrow> if ns = [] then Some v else None
           | x # rest \<Rightarrow>
               if length cs \<le> unat x then None
               else (case cs ! unat x of
                       None \<Rightarrow> if ns = [] then Some None else None
                     | Some c \<Rightarrow> path_value kec c rest ns)))"

text \<open>A node map holds a trie if each of its nodes is found under its hash.\<close>

definition holds_trie :: "(u8 list \<Rightarrow> hash) \<Rightarrow> node_map \<Rightarrow> ptrie \<Rightarrow> bool" where
  "holds_trie kec nodes t \<longleftrightarrow>
     (\<forall>n \<in> set (pt_nodes kec t). map_of nodes (node_hash kec n) = Some n \<and> node_hash kec n \<noteq> EMPTY_TRIE_ROOT)"

fun sixteen :: "ptrie \<Rightarrow> bool" where
  "sixteen (PtLeaf _ _) = True"
| "sixteen (PtExtension _ t) = sixteen t"
| "sixteen (PtBranch cs _) = (length cs = 16 \<and> (\<forall>c \<in> set cs. case c of None \<Rightarrow> True | Some t \<Rightarrow> sixteen t))"

lemma pt_node_in: "pt_node kec t \<in> set (pt_nodes kec t)"
  by (cases t) (simp_all add: pt_hash_def [abs_def])

lemma holds_trie_root:
  "holds_trie kec nodes t \<Longrightarrow> map_of nodes (pt_hash kec t) = Some (pt_node kec t) \<and> pt_hash kec t \<noteq> EMPTY_TRIE_ROOT"
  using pt_node_in by (auto simp: holds_trie_def pt_hash_def)

lemma holds_trie_sub:
  "holds_trie kec nodes (PtExtension p t) \<Longrightarrow> holds_trie kec nodes t"
  "holds_trie kec nodes (PtBranch cs v) \<Longrightarrow> Some t \<in> set cs \<Longrightarrow> holds_trie kec nodes t"
  by (fastforce simp: holds_trie_def)+

lemma walk_correct:
  assumes "holds_trie kec nodes t" and "sixteen t" and "\<forall>x \<in> set key. unat x < 16" and "depth \<le> length key"
  shows "\<exists>ns. proof_walk nodes a key (pt_hash kec t) depth acc = Some (Ok (acc @ map node_rlp ns)) \<and>
    path_value kec (pt_hash kec t) (drop depth key) ns = Some (pt_find t (drop depth key))"
  using assms
proof (induction t arbitrary: depth acc)
  case (PtLeaf p v)
  note r = holds_trie_root [OF PtLeaf.prems(1)]
  then have "proof_walk nodes a key (pt_hash kec (PtLeaf p v)) depth acc = Some (Ok (acc @ map node_rlp [TnLeaf p v]))"
    by (subst proof_walk.simps) simp
  moreover have "path_value kec (pt_hash kec (PtLeaf p v)) (drop depth key) [TnLeaf p v] = Some (pt_find (PtLeaf p v) (drop depth key))"
    by (simp add: pt_hash_def)
  ultimately show ?case by blast
next
  case (PtExtension p t)
  note r = holds_trie_root [OF PtExtension.prems(1)]
  let ?n = "TnExtension p (pt_hash kec t)"
  have n: "pt_node kec (PtExtension p t) = ?n" by (simp add: pt_hash_def)
  have hn: "node_hash kec ?n = pt_hash kec (PtExtension p t)" by (simp add: pt_hash_def)
  show ?case
  proof (cases "take (length p) (drop depth key) = p")
    case True
    have l: "depth + length p \<le> length key" using True PtExtension.prems(4) by (metis add_le_cancel_left append_take_drop_id le_add_diff_inverse length_append length_drop nle_le take_all_iff)
    obtain ns where ns: "proof_walk nodes a key (pt_hash kec t) (depth + length p) (acc @ [node_rlp ?n]) = Some (Ok ((acc @ [node_rlp ?n]) @ map node_rlp ns))"
        "path_value kec (pt_hash kec t) (drop (depth + length p) key) ns = Some (pt_find t (drop (depth + length p) key))"
      using PtExtension.IH [OF holds_trie_sub(1) [OF PtExtension.prems(1)] _ PtExtension.prems(3) l, of "acc @ [node_rlp ?n]"]
        PtExtension.prems(2) unfolding sixteen.simps by blast
    have "proof_walk nodes a key (pt_hash kec (PtExtension p t)) depth acc = Some (Ok (acc @ map node_rlp (?n # ns)))"
      using r True PtExtension.prems(4) ns(1) by (subst proof_walk.simps) (simp add: n del: pt_node.simps)
    moreover have "path_value kec (pt_hash kec (PtExtension p t)) (drop depth key) (?n # ns) = Some (pt_find (PtExtension p t) (drop depth key))"
      using True ns(2) by (simp add: hn add.commute)
    ultimately show ?thesis by blast
  next
    case False
    have "proof_walk nodes a key (pt_hash kec (PtExtension p t)) depth acc = Some (Ok (acc @ map node_rlp [?n]))"
      using r False PtExtension.prems(4) by (subst proof_walk.simps) (simp add: n del: pt_node.simps)
    moreover have "path_value kec (pt_hash kec (PtExtension p t)) (drop depth key) [?n] = Some (pt_find (PtExtension p t) (drop depth key))"
      using False by (simp add: hn)
    ultimately show ?thesis by blast
  qed
next
  case (PtBranch cs v)
  note r = holds_trie_root [OF PtBranch.prems(1)]
  let ?cs = "map (map_option (pt_hash kec)) cs"
  let ?n = "TnBranch ?cs v"
  have n: "pt_node kec (PtBranch cs v) = ?n" by (simp add: pt_hash_def [abs_def])
  have hn: "node_hash kec ?n = pt_hash kec (PtBranch cs v)" unfolding n [symmetric] by (simp only: pt_hash_def)
  have one: "\<exists>ns. proof_walk nodes a key (pt_hash kec (PtBranch cs v)) depth acc = Some (Ok (acc @ map node_rlp ns)) \<and>
      path_value kec (pt_hash kec (PtBranch cs v)) (drop depth key) ns = Some (pt_find (PtBranch cs v) (drop depth key))"
    if "process_for_proof ?n key depth = Ok None" "path_value kec (pt_hash kec (PtBranch cs v)) (drop depth key) [?n] =
        Some (pt_find (PtBranch cs v) (drop depth key))"
    using that r by (intro exI [of _ "[?n]"] conjI, subst proof_walk.simps) (simp_all add: n del: pt_node.simps process_for_proof.simps)
  show ?case
  proof (cases "depth < length key")
    case False
    then show ?thesis using PtBranch.prems(4) by (intro one) (simp_all add: hn)
  next
    case True
    let ?x = "key ! depth"
    have x: "unat ?x < length cs" using True PtBranch.prems(2, 3) by simp
    have dk: "drop depth key = ?x # drop (depth + 1) key" using True by (simp add: Cons_nth_drop_Suc)
    show ?thesis
    proof (cases "cs ! unat ?x")
      case None
      then show ?thesis using True x by (intro one) (simp_all add: hn dk)
    next
      case (Some t)
      then have mem: "Some t \<in> set cs" using x by (metis nth_mem)
      then have h: "holds_trie kec nodes t" "sixteen t" using PtBranch.prems(1, 2) holds_trie_sub(2) by fastforce+
      obtain ns where ns: "proof_walk nodes a key (pt_hash kec t) (depth + 1) (acc @ [node_rlp ?n]) = Some (Ok ((acc @ [node_rlp ?n]) @ map node_rlp ns))"
          "path_value kec (pt_hash kec t) (drop (depth + 1) key) ns = Some (pt_find t (drop (depth + 1) key))"
        using PtBranch.IH [OF mem _ h PtBranch.prems(3), of "depth + 1" "acc @ [node_rlp ?n]"] True by fastforce
      have "proof_walk nodes a key (pt_hash kec (PtBranch cs v)) depth acc = Some (Ok (acc @ map node_rlp (?n # ns)))"
        using r True x ns(1) Some by (subst proof_walk.simps) (simp add: n del: pt_node.simps)
      moreover have "path_value kec (pt_hash kec (PtBranch cs v)) (drop depth key) (?n # ns) = Some (pt_find (PtBranch cs v) (drop depth key))"
        using x ns(2) Some by (simp add: hn dk)
      ultimately show ?thesis by blast
    qed
  qed
qed

section \<open>The trie of an account map\<close>

definition account_items :: "(u8 list \<Rightarrow> hash) \<Rightarrow> (address \<times> account_state) list \<Rightarrow> trie_items" where
  "account_items kec accounts = sort_key fst (map (account_item kec) accounts)"

definition built_trie :: "(u8 list \<Rightarrow> hash) \<Rightarrow> (address \<times> account_state) list \<Rightarrow> node_map \<times> hash" where
  "built_trie kec accounts =
     (if accounts = [] then ([(EMPTY_TRIE_ROOT, TnEmpty)], EMPTY_TRIE_ROOT)
      else let t = spec_trie (account_items kec accounts) 0 in
        (add_nodes kec (pt_nodes kec t) [(EMPTY_TRIE_ROOT, TnEmpty)], pt_hash kec t))"

lemma account_items_Nil: "account_items kec accounts = [] \<longleftrightarrow> accounts = []"
  by (metis account_items_def length_0_conv length_map length_sort)

lemma rebuild_built:
  "rebuild_trie kec t =
     (t\<lparr>tri_nodes := fst (built_trie kec (tri_accounts t)), tri_root := snd (built_trie kec (tri_accounts t))\<rparr>, Ok ())"
proof (cases "tri_accounts t = []")
  case False
  then have "account_items kec (tri_accounts t) \<noteq> []" by (simp add: account_items_Nil)
  from build_refines(1) [OF this, of 0] False show ?thesis
    by (simp add: rebuild_trie_def built_trie_def account_items_def Let_def)
qed (simp add: rebuild_trie_def built_trie_def)

definition address_path :: "(u8 list \<Rightarrow> hash) \<Rightarrow> address \<Rightarrow> nibbles" where
  "address_path kec a = nibbles_of (be_bytes 32 (kec (be_bytes 20 a)))"

lemma length_nibbles_of: "length (nibbles_of bs) = 2 * length bs"
  by (induction bs) (auto simp: nibbles_of_def)

lemma nibbles_small: "x \<in> set (nibbles_of bs) \<Longrightarrow> unat x < 16"
proof -
  have "unat (drop_bit 4 b) < 16" "unat (b AND 0x0F) < 16" for b :: u8
  proof -
    have "unat (drop_bit 4 b) = unat b div 16" by (simp add: drop_bit_eq_div unat_div_distrib)
    moreover have "unat b < 256" using unsigned_less [of b] by simp
    ultimately show "unat (drop_bit 4 b) < 16" by simp
    have "b AND 0x0F = take_bit 4 b" by (simp add: take_bit_eq_mask mask_eq_exp_minus_1)
    then show "unat (b AND 0x0F) < 16" by (simp add: take_bit_eq_mod unat_mod_distrib)
  qed
  then show "x \<in> set (nibbles_of bs) \<Longrightarrow> unat x < 16" by (auto simp: nibbles_of_def)
qed

lemma address_path_ok: "key_ok 64 (address_path kec a)"
  by (simp add: key_ok_def address_path_def length_nibbles_of nibbles_small)

lemma account_item_path: "account_item kec (a, st) = (address_path kec a, account_rlp st)"
  by (simp add: account_item_def address_path_def)

lemma spec_trie_sixteen: "sixteen (spec_trie items depth)"
proof (induction items depth rule: spec_trie.induct)
  case (1 items depth)
  show ?case
    by (subst spec_trie.simps) (use "1.IH" in \<open>auto simp: split: if_splits\<close>)
qed

text \<open>Distinct nodes of the trie have distinct hashes, none of them the hash of the empty trie, and
  distinct addresses, of the accounts and of the one asked for, have distinct paths.\<close>

definition no_collision :: "(u8 list \<Rightarrow> hash) \<Rightarrow> (address \<times> account_state) list \<Rightarrow> address \<Rightarrow> bool" where
  "no_collision kec accounts a \<longleftrightarrow>
     (let ns = pt_nodes kec (spec_trie (account_items kec accounts) 0) in
      distinct (map (node_hash kec) (remdups ns)) \<and> EMPTY_TRIE_ROOT \<notin> set (map (node_hash kec) ns) \<and>
      distinct (map (address_path kec) (List.insert a (map fst accounts))))"

lemma add_nodes_lookup:
  assumes "inj_on (node_hash kec) (set ns)" and "n \<in> set ns"
  shows "map_of (add_nodes kec ns nodes) (node_hash kec n) = Some n"
  using assms
proof (induction ns rule: rev_induct)
  case (snoc m ns)
  show ?case
  proof (cases "n = m")
    case True
    then show ?thesis by (simp add: add_nodes_def update_conv)
  next
    case False
    then have "n \<in> set ns" using snoc.prems(2) by simp
    moreover have "node_hash kec m \<noteq> node_hash kec n" using False snoc.prems by (auto dest: inj_onD)
    moreover have "inj_on (node_hash kec) (set ns)" using snoc.prems(1) by (simp add: inj_on_Un)
    ultimately show ?thesis using snoc.IH by (simp add: add_nodes_def update_conv)
  qed
qed simp

lemma items_inv:
  assumes "hm_inv accounts" and "inj_on (address_path kec) (fst ` set accounts)"
  shows "hm_inv (account_items kec accounts)"
proof -
  have "map fst (map (account_item kec) accounts) = map (address_path kec) (map fst accounts)" by (auto simp: account_item_path)
  then have "distinct (map fst (map (account_item kec) accounts))" using assms by (simp only: distinct_map set_map)
  then show ?thesis by (auto simp: account_items_def distinct_map intro: inj_on_imageI inj_on_imageI2)
qed

lemma items_lookup:
  assumes "hm_inv accounts" and "distinct (map (address_path kec) (List.insert a (map fst accounts)))"
  shows "hm_inv (account_items kec accounts)"
    and "map_of (account_items kec accounts) (address_path kec a) = map_option account_rlp (map_of accounts a)"
proof -
  have inj: "inj_on (address_path kec) (insert a (fst ` set accounts))" using assms(2) by (simp add: distinct_map)
  then show inv: "hm_inv (account_items kec accounts)" using assms(1) by (intro items_inv) (auto intro: inj_on_subset)
  have m: "map fst (map (account_item kec) accounts) = map (address_path kec) (map fst accounts)"
    by (auto simp: account_item_path)
  show "map_of (account_items kec accounts) (address_path kec a) = map_option account_rlp (map_of accounts a)"
  proof (cases "map_of accounts a")
    case None
    then have "a \<notin> fst ` set accounts" by (simp add: map_of_eq_None_iff)
    then have "address_path kec a \<notin> address_path kec ` fst ` set accounts" using inj by (simp add: inj_on_insert)
    moreover have "fst ` set (account_items kec accounts) = set (map fst (map (account_item kec) accounts))"
      by (simp only: account_items_def set_sort set_map)
    then have "fst ` set (account_items kec accounts) = address_path kec ` fst ` set accounts"
      unfolding m by (simp only: set_map)
    ultimately have "map_of (account_items kec accounts) (address_path kec a) = None" unfolding map_of_eq_None_iff by simp
    then show ?thesis using None by simp
  next
    case (Some st)
    from map_of_SomeD [OF this] have "account_item kec (a, st) \<in> set (account_items kec accounts)" by (simp add: account_items_def)
    then have "map_of (account_items kec accounts) (address_path kec a) = Some (account_rlp st)"
      using hm_mem_iff [OF inv] by (simp add: account_item_path)
    then show ?thesis using Some by simp
  qed
qed

lemma account_items_key_ok: "(k, v) \<in> set (account_items kec accounts) \<Longrightarrow> key_ok 64 k"
  by (auto simp: account_items_def account_item_path address_path_ok)

lemma proof_of_built:
  assumes inv: "hm_inv accounts" and ok: "no_collision kec accounts a"
  shows "\<exists>ns. proof_walk (fst (built_trie kec accounts)) a (address_path kec a) (snd (built_trie kec accounts)) 0 [] =
      Some (Ok (map node_rlp ns)) \<and>
    path_value kec (snd (built_trie kec accounts)) (address_path kec a) ns = Some (map_option account_rlp (map_of accounts a))"
proof (cases "accounts = []")
  case True
  then show ?thesis by (intro exI [of _ "[]"]) (simp add: built_trie_def proof_walk.simps)
next
  case False
  let ?items = "account_items kec accounts"
  let ?t = "spec_trie ?items 0" and ?nodes = "fst (built_trie kec accounts)"
  have b: "built_trie kec accounts = (add_nodes kec (pt_nodes kec ?t) [(EMPTY_TRIE_ROOT, TnEmpty)], pt_hash kec ?t)"
    using False by (simp add: built_trie_def Let_def)
  have d: "distinct (map (address_path kec) (List.insert a (map fst accounts)))"
    and i: "inj_on (node_hash kec) (set (pt_nodes kec ?t))" "\<And>n. n \<in> set (pt_nodes kec ?t) \<Longrightarrow> node_hash kec n \<noteq> EMPTY_TRIE_ROOT"
    using ok by (simp_all add: no_collision_def Let_def distinct_map [of "node_hash kec"]) (metis imageI)
  have h: "holds_trie kec ?nodes ?t" unfolding holds_trie_def b using add_nodes_lookup [OF i(1)] i(2) by auto
  have k: "key_ok 64 (address_path kec a)" by (rule address_path_ok)
  have "\<exists>ns. proof_walk ?nodes a (address_path kec a) (pt_hash kec ?t) 0 [] = Some (Ok ([] @ map node_rlp ns)) \<and>
      path_value kec (pt_hash kec ?t) (drop 0 (address_path kec a)) ns = Some (pt_find ?t (drop 0 (address_path kec a)))"
    using k by (intro walk_correct h spec_trie_sixteen) (auto simp: key_ok_def)
  moreover have "pt_find ?t (drop 0 (address_path kec a)) = map_of ?items (address_path kec a)"
    using items_lookup(1) [OF inv d] account_items_key_ok k False
    by (intro find_spec [where len = 64]) (auto simp: account_items_Nil)
  ultimately show ?thesis using items_lookup(2) [OF inv d] by (simp add: b)
qed

section \<open>Reachable tries\<close>

inductive trie_reachable :: "(u8 list \<Rightarrow> hash) \<Rightarrow> state_config \<Rightarrow> state_trie \<Rightarrow> bool" for kec cfg where
  tr_new: "trie_reachable kec cfg (trie_with_config cfg)"
| tr_insert: "trie_reachable kec cfg t \<Longrightarrow> insert_account kec a st t = (t', r) \<Longrightarrow> trie_reachable kec cfg t'"
| tr_balance: "trie_reachable kec cfg t \<Longrightarrow> set_balance kec a b t = (t', r) \<Longrightarrow> trie_reachable kec cfg t'"
| tr_increment: "trie_reachable kec cfg t \<Longrightarrow> increment_nonce kec a t = (t', r) \<Longrightarrow> trie_reachable kec cfg t'"
| tr_change: "trie_reachable kec cfg t \<Longrightarrow> apply_balance_change kec a delta t = (t', r) \<Longrightarrow> trie_reachable kec cfg t'"
| tr_nonce: "trie_reachable kec cfg t \<Longrightarrow> apply_nonce_increment kec a n t = (t', r) \<Longrightarrow> trie_reachable kec cfg t'"
| tr_store: "trie_reachable kec cfg t \<Longrightarrow> set_storage kec a key v t = (t', r) \<Longrightarrow> trie_reachable kec cfg t'"
| tr_delete: "trie_reachable kec cfg t \<Longrightarrow> delete_storage kec a key t = (t', r) \<Longrightarrow> trie_reachable kec cfg t'"

definition slots_of :: "((address \<times> storage_key) \<times> storage_value) list \<Rightarrow> address \<Rightarrow> storage_key set" where
  "slots_of slots contract = {key. map_of slots (contract, key) \<noteq> None}"

definition slot_count :: "(address \<times> usize) list \<Rightarrow> address \<Rightarrow> usize" where
  "slot_count counts contract = (case map_of counts contract of None \<Rightarrow> 0 | Some n \<Rightarrow> n)"

definition counts_ok :: "usize \<Rightarrow> ((address \<times> storage_key) \<times> storage_value) list \<Rightarrow> (address \<times> usize) list \<Rightarrow> bool" where
  "counts_ok limit slots counts \<longleftrightarrow> (\<forall>c. slot_count counts c = card (slots_of slots c) \<and> card (slots_of slots c) \<le> limit)"

definition maps_ok :: "state_config \<Rightarrow> state_trie \<Rightarrow> bool" where
  "maps_ok cfg t \<longleftrightarrow> hm_inv (tri_accounts t) \<and> hm_inv (tri_storage t) \<and> hm_inv (tri_storage_counts t) \<and> tri_config t = cfg \<and>
     counts_ok (stc_max_storage_slots_per_contract cfg) (tri_storage t) (tri_storage_counts t)"

lemma slots_of_update: "slots_of (AList.update (c, key) v slots) d = (if d = c then insert key (slots_of slots c) else slots_of slots d)"
  by (auto simp: slots_of_def update_conv)

lemma slots_of_delete: "slots_of (AList.delete (c, key) slots) d = (if d = c then slots_of slots c - {key} else slots_of slots d)"
  by (auto simp: slots_of_def delete_conv')

lemma slot_count_update: "slot_count (AList.update c n counts) d = (if d = c then n else slot_count counts d)"
  by (auto simp: slot_count_def update_conv)

lemma slots_finite: "finite (slots_of slots c)"
proof -
  have "slots_of slots c \<subseteq> snd ` fst ` set slots"
    unfolding slots_of_def by (force dest: map_of_SomeD)
  then show ?thesis by (rule finite_subset) simp
qed

lemma counts_ok_touch: "counts_ok limit slots counts \<Longrightarrow> counts_ok limit slots (AList.update c (slot_count counts c) counts)"
  by (simp add: counts_ok_def slot_count_update)

lemma counts_ok_insert:
  assumes "counts_ok limit slots counts" and "key \<notin> slots_of slots c" and "slot_count counts c < limit"
  shows "counts_ok limit (AList.update (c, key) v slots) (AList.update c (slot_count counts c + 1) (AList.update c (slot_count counts c) counts))"
  using assms slots_finite [of slots c] by (auto simp: counts_ok_def slots_of_update slot_count_update)

lemma counts_ok_overwrite:
  assumes "counts_ok limit slots counts" and "key \<in> slots_of slots c"
  shows "counts_ok limit (AList.update (c, key) v slots) (AList.update c (slot_count counts c) counts)"
  using assms by (auto simp: counts_ok_def slots_of_update slot_count_update insert_absorb)

lemma counts_ok_delete:
  assumes "counts_ok limit slots counts" and "key \<in> slots_of slots c"
  shows "counts_ok limit (AList.delete (c, key) slots) (AList.update c (slot_count counts c - 1) counts)"
  using assms slots_finite [of slots c] unfolding counts_ok_def
  by (auto simp: slots_of_delete slot_count_update le_diff_conv intro: le_SucI)

definition trie_wf :: "(u8 list \<Rightarrow> hash) \<Rightarrow> state_config \<Rightarrow> state_trie \<Rightarrow> bool" where
  "trie_wf kec cfg t \<longleftrightarrow> maps_ok cfg t \<and> (tri_nodes t, tri_root t) = built_trie kec (tri_accounts t)"

lemma maps_ok_put: "maps_ok cfg t \<Longrightarrow> maps_ok cfg (put_account a st t)"
  by (simp add: maps_ok_def put_account_def distinct_update)

lemma maps_ok_root: "maps_ok cfg t \<Longrightarrow> maps_ok cfg (update_storage_root kec c t)"
  by (simp add: update_storage_root_def maps_ok_put split: option.split)

lemma rebuild_wf: "maps_ok cfg t \<Longrightarrow> rebuild_trie kec t = (t', r) \<Longrightarrow> trie_wf kec cfg t' \<and> r = Ok ()"
  by (auto simp: rebuild_built trie_wf_def maps_ok_def)

lemma put_same: "map_of (tri_accounts t) a = Some st \<Longrightarrow> put_account a st t = t"
proof -
  have "map_of m a = Some st \<Longrightarrow> AList.update a st m = m" for m :: "(address \<times> account_state) list"
    by (induction m) (auto split: if_splits)
  then show "map_of (tri_accounts t) a = Some st \<Longrightarrow> put_account a st t = t" by (simp add: put_account_def)
qed

lemma balance_wf: "trie_wf kec cfg t \<Longrightarrow> set_balance kec a b t = (t', r) \<Longrightarrow> trie_wf kec cfg t'"
  using rebuild_wf maps_ok_put unfolding trie_wf_def set_balance_def by blast

lemma increment_wf:
  assumes "trie_wf kec cfg t" and "increment_nonce kec a t = (t', r)"
  shows "trie_wf kec cfg t'"
proof (cases "checked_add (as_nonce (account_entry a t)) 1")
  case None
  then have "map_of (tri_accounts t) a = Some (account_entry a t)"
    by (auto simp: account_entry_def default_account_def checked_add_def split: option.splits if_splits)
  from put_same [OF this] None assms show ?thesis by (simp add: increment_nonce_def)
next
  case (Some n)
  with assms rebuild_wf maps_ok_put show ?thesis unfolding trie_wf_def increment_nonce_def by (metis (no_types, lifting) option.simps(5))
qed

lemma change_wf:
  "trie_wf kec cfg t \<Longrightarrow> apply_balance_change kec a delta t = (t', r) \<Longrightarrow> trie_wf kec cfg t'"
  using balance_wf by (auto simp: apply_balance_change_def Let_def split: if_splits)

lemma nonce_wf:
  "trie_wf kec cfg t \<Longrightarrow> apply_nonce_increment kec a n t = (t', r) \<Longrightarrow> trie_wf kec cfg t'"
  using increment_wf by (auto simp: apply_nonce_increment_def Let_def split: if_splits option.splits)

lemma storage_wf:
  assumes "trie_wf kec cfg t" and "set_storage kec c key v t = (t', r)"
  shows "trie_wf kec cfg t'"
proof -
  have ok: "maps_ok cfg t" using assms(1) by (simp add: trie_wf_def)
  let ?lim = "stc_max_storage_slots_per_contract cfg"
  let ?n = "slot_count (tri_storage_counts t) c" and ?fresh = "map_of (tri_storage t) (c, key) = None"
  let ?counts = "AList.update c ?n (tri_storage_counts t)"
  have cnt: "counts_ok ?lim (tri_storage t) (tri_storage_counts t)" and lim: "stc_max_storage_slots_per_contract (tri_config t) = ?lim"
    using ok by (simp_all add: maps_ok_def)
  note def = assms(2) [unfolded set_storage_def slot_count_def [symmetric] Let_def lim]
  have fr: "?fresh \<longleftrightarrow> key \<notin> slots_of (tri_storage t) c" by (simp add: slots_of_def)
  show ?thesis
  proof (cases "?fresh \<and> ?lim \<le> ?n")
    case True
    then have "t' = t\<lparr>tri_storage_counts := ?counts\<rparr>" using def by simp
    then show ?thesis using assms(1) counts_ok_touch [OF cnt, of c] by (simp add: trie_wf_def maps_ok_def distinct_update)
  next
    case False
    let ?t2 = "t\<lparr>tri_storage_counts := (if ?fresh then AList.update c (?n + 1) ?counts else ?counts),
      tri_storage := AList.update (c, key) v (tri_storage t)\<rparr>"
    have "counts_ok ?lim (AList.update (c, key) v (tri_storage t)) (if ?fresh then AList.update c (?n + 1) ?counts else ?counts)"
      using False counts_ok_insert [OF cnt, of key c v] counts_ok_overwrite [OF cnt, of key c v] unfolding fr by (auto simp: not_le)
    then have m: "maps_ok cfg ?t2" using ok by (simp add: maps_ok_def distinct_update)
    have "rebuild_trie kec (update_storage_root kec c ?t2) = (t', r)"
      using def False by (cases "map_of (tri_storage t) (c, key)") simp_all
    from rebuild_wf [OF maps_ok_root [OF m] this] show ?thesis by blast
  qed
qed

lemma delete_wf:
  assumes "trie_wf kec cfg t" and "delete_storage kec c key t = (t', r)"
  shows "trie_wf kec cfg t'"
proof (cases "map_of (tri_storage t) (c, key)")
  case None
  with assms show ?thesis by (simp add: delete_storage_def)
next
  case (Some v)
  let ?counts = "tri_storage_counts t"
  have ok: "maps_ok cfg t" using assms(1) by (simp add: trie_wf_def)
  have cnt: "counts_ok (stc_max_storage_slots_per_contract cfg) (tri_storage t) ?counts" using ok by (simp add: maps_ok_def)
  have k: "key \<in> slots_of (tri_storage t) c" using Some by (simp add: slots_of_def)
  then have "0 < card (slots_of (tri_storage t) c)" using slots_finite card_gt_0_iff by blast
  then have "slot_count ?counts c \<noteq> 0" using cnt by (metis counts_ok_def less_numeral_extra(3))
  then obtain n where n: "map_of ?counts c = Some n" "slot_count ?counts c = n"
    by (cases "map_of ?counts c") (simp_all add: slot_count_def)
  let ?t2 = "t\<lparr>tri_storage := AList.delete (c, key) (tri_storage t), tri_storage_counts := AList.update c (n - 1) ?counts\<rparr>"
  have m: "maps_ok cfg ?t2" using ok counts_ok_delete [OF cnt k] n(2) by (simp add: maps_ok_def distinct_update distinct_delete)
  have "rebuild_trie kec (update_storage_root kec c ?t2) = (t', r)"
    using assms(2) Some n(1) by (simp add: delete_storage_def Let_def)
  from rebuild_wf [OF maps_ok_root [OF m] this] show ?thesis by blast
qed

lemma reachable_wf: "trie_reachable kec cfg t \<Longrightarrow> trie_wf kec cfg t"
proof (induction rule: trie_reachable.induct)
  case tr_new
  show ?case by (simp add: trie_wf_def maps_ok_def trie_with_config_def built_trie_def counts_ok_def slot_count_def slots_of_def)
next
  case (tr_insert t a st t' r)
  have "maps_ok cfg (put_account a st t)" using tr_insert.IH by (simp add: trie_wf_def maps_ok_put)
  from rebuild_wf [OF this tr_insert.hyps(2) [unfolded insert_account_def]] show ?case by blast
next
  case tr_balance
  show ?case by (rule balance_wf [OF tr_balance.IH tr_balance.hyps(2)])
next
  case tr_increment
  show ?case by (rule increment_wf [OF tr_increment.IH tr_increment.hyps(2)])
next
  case tr_change
  show ?case by (rule change_wf [OF tr_change.IH tr_change.hyps(2)])
next
  case tr_nonce
  show ?case by (rule nonce_wf [OF tr_nonce.IH tr_nonce.hyps(2)])
next
  case tr_store
  show ?case by (rule storage_wf [OF tr_store.IH tr_store.hyps(2)])
next
  case tr_delete
  show ?case by (rule delete_wf [OF tr_delete.IH tr_delete.hyps(2)])
qed

section \<open>Reading back what was written\<close>

lemma from_le_le: "LENGTH('a::len) = 8 * n \<Longrightarrow> from_be_bytes (rev (le_bytes n (w :: 'a word))) = w"
  by (simp add: le_bytes_def from_be_be)

lemma read_bytes_append: "length xs = n \<Longrightarrow> read_bytes n (xs @ ys) = Some (xs, ys)"
  by (simp add: read_bytes_def)

lemma read_account_record: "read_account (account_record (a, st) @ rest) = Some ((a, st), rest)"
  by (simp add: read_account_def account_record_def read_bytes_append from_be_be from_le_le)

lemma read_accounts_all:
  "read_accounts (length l) (concat (map account_record l) @ rest) accounts = Some (fold (\<lambda>(a, st). AList.update a st) l accounts, rest)"
proof (induction l arbitrary: accounts)
  case (Cons x l)
  obtain a st where x: "x = (a, st)" by fastforce
  show ?case using Cons.IH by (simp add: x read_account_record)
qed simp

lemma read_slots_all:
  "\<exists>counts'. read_slots (length l) (concat (map storage_record l) @ rest) slots counts =
     Some (fold (\<lambda>(k, v). AList.update k v) l slots, counts', rest) \<and>
   (\<forall>c. slot_count counts' c = slot_count counts c + length (filter (\<lambda>((a, _), _). a = c) l))"
proof (induction l arbitrary: slots counts)
  case (Cons x l)
  obtain a key v where x: "x = ((a, key), v)" by (metis surj_pair)
  let ?counts = "AList.update a (slot_count counts a + 1) counts"
  obtain counts' where c: "read_slots (length l) (concat (map storage_record l) @ rest) (AList.update (a, key) v slots) ?counts =
      Some (fold (\<lambda>(k, v). AList.update k v) l (AList.update (a, key) v slots), counts', rest)"
      "\<And>c. slot_count counts' c = slot_count ?counts c + length (filter (\<lambda>((a, _), _). a = c) l)"
    using Cons.IH by blast
  have "read_slots (length (x # l)) (concat (map storage_record (x # l)) @ rest) slots counts =
      read_slots (length l) (concat (map storage_record l) @ rest) (AList.update (a, key) v slots) ?counts"
    by (simp add: x storage_record_def read_bytes_append from_be_be Let_def slot_count_def)
  then show ?case using c by (intro exI [of _ counts']) (auto simp: x slot_count_update)
qed simp

lemma slots_counted:
  assumes "hm_inv slots"
  shows "length (filter (\<lambda>((a, _), _). a = c) slots) = card (slots_of slots c)"
proof -
  let ?l = "filter (\<lambda>((a, _), _). a = c) slots"
  have "distinct (map (snd \<circ> fst) ?l)"
    using assms by (induction slots) (auto simp: image_iff split: if_splits)
  then have "length ?l = card (set (map (snd \<circ> fst) ?l))" using distinct_card [of "map (snd \<circ> fst) ?l"] by simp
  also have "set (map (snd \<circ> fst) ?l) = slots_of slots c"
  proof (intro set_eqI)
    fix key
    have "key \<in> set (map (snd \<circ> fst) ?l) \<longleftrightarrow> (\<exists>v. ((c, key), v) \<in> set slots)" by force
    then show "key \<in> set (map (snd \<circ> fst) ?l) \<longleftrightarrow> key \<in> slots_of slots c" by (simp add: slots_of_def hm_mem_iff [OF assms])
  qed
  finally show ?thesis .
qed

lemma read_count: "n < 2 ^ 32 \<Longrightarrow> unat (from_be_bytes (rev (le_bytes 4 (of_nat n :: u32))) :: u32) = n"
  by (simp add: from_le_le unat_of_nat take_bit_nat_eq_self)

lemma deserialize_serialize:
  assumes wf: "trie_wf kec cfg t" and len: "length (tri_accounts t) < 2 ^ 32" "length (tri_storage t) < 2 ^ 32"
  shows "\<exists>counts. deserialize kec (serialize t) = Ok (t\<lparr>tri_storage_counts := counts, tri_config := default_state_config\<rparr>) \<and>
    (\<forall>c. slot_count counts c = slot_count (tri_storage_counts t) c)"
proof -
  have inv: "hm_inv (tri_accounts t)" "hm_inv (tri_storage t)" and cnt: "\<And>c. slot_count (tri_storage_counts t) c = card (slots_of (tri_storage t) c)"
    using wf by (auto simp: trie_wf_def maps_ok_def counts_ok_def)
  let ?sdata = "le_bytes 4 (of_nat (length (tri_storage t)) :: u32) @ concat (map storage_record (tri_storage t))"
  have acc: "deserialize_accounts (le_bytes 4 (of_nat (length (tri_accounts t)) :: u32) @ concat (map account_record (tri_accounts t)) @ ?sdata) =
      Some (tri_accounts t, ?sdata)"
    using hm_insert_all [of "[]" "tri_accounts t"] inv(1)
    by (simp add: deserialize_accounts_def read_bytes_append read_count [OF len(1)] read_accounts_all)
  obtain counts where counts: "deserialize_storage ?sdata = Some (tri_storage t, counts, [])"
      "\<And>c. slot_count counts c = card (slots_of (tri_storage t) c)"
  proof -
    obtain counts where "read_slots (length (tri_storage t)) (concat (map storage_record (tri_storage t)) @ []) [] [] =
        Some (fold (\<lambda>(k, v). AList.update k v) (tri_storage t) [], counts, [])"
        "\<forall>c. slot_count counts c = slot_count [] c + length (filter (\<lambda>((a, _), _). a = c) (tri_storage t))"
      using read_slots_all by blast
    with hm_insert_all [of "[]" "tri_storage t"] inv(2) slots_counted [OF inv(2)] that [of counts] show ?thesis
      by (simp add: deserialize_storage_def read_bytes_append read_count [OF len(2)] slot_count_def)
  qed
  have d: "serialize t \<noteq> []" "hd (serialize t) = 2"
    "drop 33 (serialize t) = le_bytes 4 (of_nat (length (tri_accounts t)) :: u32) @ concat (map account_record (tri_accounts t)) @ ?sdata"
    by (simp_all add: serialize_def)
  have "built_trie kec (tri_accounts t) = (tri_nodes t, tri_root t)" using wf by (simp add: trie_wf_def)
  then have "deserialize kec (serialize t) = Ok (t\<lparr>tri_storage_counts := counts, tri_config := default_state_config\<rparr>)"
    by (simp add: deserialize_def d acc counts(1) rebuild_built)
  then show ?thesis using counts(2) cnt by auto
qed

lemma account_items_unique:
  assumes "hm_inv accounts" and "hm_inv accounts'" and "map_of accounts = map_of accounts'"
    and "inj_on (address_path kec) {a. map_of accounts a \<noteq> None}"
  shows "account_items kec accounts = account_items kec accounts'"
proof -
  have keys: "{a. map_of l a \<noteq> None} = fst ` set l" for l :: "(address \<times> account_state) list"
    using dom_map_of_conv_image_fst [of l] by (simp add: dom_def)
  have "(k, v) \<in> set accounts \<longleftrightarrow> (k, v) \<in> set accounts'" for k v
    using hm_mem_iff [OF assms(1)] hm_mem_iff [OF assms(2)] assms(3) by simp
  then have set: "set accounts = set accounts'" by auto
  have "inj_on (address_path kec) (fst ` set accounts)" using assms(4) unfolding keys .
  then have inv: "hm_inv (account_items kec accounts)" "hm_inv (account_items kec accounts')"
    using assms(1, 2) items_inv set by metis+
  moreover have "set (account_items kec accounts) = set (account_items kec accounts')" by (simp add: account_items_def set)
  moreover have "sorted (map fst (account_items kec l))" for l by (simp add: account_items_def)
  moreover have "inj_on fst (set (account_items kec accounts))" using inv(1) by (simp add: distinct_map)
  ultimately show ?thesis by (intro map_sorted_distinct_set_unique [of fst]) auto
qed

section \<open>Properties\<close>

text \<open>The hash of the sample runs: the last byte.\<close>

definition sample_kec :: "u8 list \<Rightarrow> hash" where
  "sample_kec bs = ucast (last bs)"

definition sample_limits :: state_config where
  "sample_limits =
     \<lparr>stc_max_depth = 2, stc_cache_size_mb = 1, stc_enable_snapshots = False, stc_snapshot_interval = 1, stc_pruning_depth = 1,
      stc_max_storage_slots_per_contract = 1\<rparr>"

definition sample_state :: state_trie where
  "sample_state = fst (set_balance sample_kec 1 5 (trie_with_config sample_limits))"

lemma sample_state_reachable: "trie_reachable sample_kec sample_limits sample_state"
  unfolding sample_state_def by (rule tr_balance [OF tr_new prod.collapse [symmetric]])

lemma sample_accounts: "tri_accounts sample_state = [(1, new_account 5)]"
  by (simp add: sample_state_def set_balance_def rebuild_built put_account_def account_entry_def trie_with_config_def new_account_def)

lemma sample_kec_not_empty: "sample_kec bs \<noteq> EMPTY_TRIE_ROOT"
proof
  assume "sample_kec bs = EMPTY_TRIE_ROOT"
  then have "uint (ucast (last bs) :: hash) = uint EMPTY_TRIE_ROOT" by (simp add: sample_kec_def)
  moreover have "uint (ucast (last bs) :: hash) = uint (last bs)" by (simp add: uint_up_ucast is_up)
  moreover have "uint (last bs) < 256" using uint_bounded [of "last bs"] by simp
  ultimately show False by (simp add: EMPTY_TRIE_ROOT_def)
qed

lemma sample_no_collision: "no_collision sample_kec [(1, st)] 1" "no_collision sample_kec [(1, st)] 2"
proof -
  have d: "address_path sample_kec 1 \<noteq> address_path sample_kec 2" by code_simp
  have t: "spec_trie (account_items sample_kec [(1, st)]) 0 = PtLeaf (address_path sample_kec 1) (account_rlp st)"
    by (subst spec_trie.simps) (simp add: account_items_def account_item_path)
  show "no_collision sample_kec [(1, st)] 1" "no_collision sample_kec [(1, st)] 2"
    using d sample_kec_not_empty by (auto simp: no_collision_def t node_hash_def eq_commute)
qed

text \<open>
  C8. Every state proof the trie hands out is complete (INVARIANT-4): generation ends for every address, and its
  nodes, checked one by one against the hashes that refer to them starting from the state root, show
  the encoding of exactly the account stored under that address, or that there is none. The only
  hypothesis is that the nodes of this trie and the paths of these addresses do not collide.
\<close>

theorem state_proofs_are_complete:
  assumes "trie_reachable kec cfg t" and "no_collision kec (tri_accounts t) a"
  shows "\<exists>ns. generate_state_proof kec a t =
      Some (Ok \<lparr>spf_address = a, spf_account_state = get_account a t, spf_proof_nodes = map node_rlp ns, spf_state_root = tri_root t\<rparr>) \<and>
    path_value kec (tri_root t) (address_path kec a) ns = Some (map_option account_rlp (get_account a t))"
proof -
  have inv: "hm_inv (tri_accounts t)" and b: "built_trie kec (tri_accounts t) = (tri_nodes t, tri_root t)"
    using reachable_wf [OF assms(1)] by (simp_all add: trie_wf_def maps_ok_def)
  from proof_of_built [OF inv assms(2)] show ?thesis
    unfolding b by (auto simp: generate_state_proof_def address_path_def get_account_def)
qed

theorem state_proofs_are_complete_witness:
  "(\<exists>ns. path_value sample_kec (tri_root sample_state) (address_path sample_kec 1) ns = Some (Some (account_rlp (new_account 5)))) \<and>
   (\<exists>ns. path_value sample_kec (tri_root sample_state) (address_path sample_kec 2) ns = Some None)"
proof -
  have c: "no_collision sample_kec (tri_accounts sample_state) 1" "no_collision sample_kec (tri_accounts sample_state) 2"
    by (simp_all add: sample_accounts sample_no_collision)
  show ?thesis
    using state_proofs_are_complete [OF sample_state_reachable c(1)] state_proofs_are_complete [OF sample_state_reachable c(2)]
    by (auto simp: get_account_def sample_accounts)
qed

text \<open>
  C35. The state root depends on the accounts only (INVARIANT-3): two tries reached by any operations,
  in any order and under any configuration, that hold the same accounts have the same root and answer
  every proof request with the same nodes.
\<close>

theorem root_depends_on_accounts_only:
  assumes "trie_reachable kec cfg t" and "trie_reachable kec cfg' t'"
    and "\<And>a. get_account a t = get_account a t'"
    and "inj_on (address_path kec) {a. get_account a t \<noteq> None}"
  shows "tri_root t = tri_root t' \<and> generate_state_proof kec a t = generate_state_proof kec a t'"
proof -
  note wf = reachable_wf [OF assms(1)] reachable_wf [OF assms(2)]
  have inv: "hm_inv (tri_accounts t)" "hm_inv (tri_accounts t')" using wf by (simp_all add: trie_wf_def maps_ok_def)
  have m: "map_of (tri_accounts t) = map_of (tri_accounts t')" using assms(3) by (auto simp: get_account_def)
  have items: "account_items kec (tri_accounts t) = account_items kec (tri_accounts t')"
    using inv m assms(4) by (intro account_items_unique) (auto simp: get_account_def)
  have "tri_accounts t = [] \<longleftrightarrow> tri_accounts t' = []" using account_items_Nil items by metis
  then have "built_trie kec (tri_accounts t) = built_trie kec (tri_accounts t')" by (simp add: built_trie_def items)
  then have n: "tri_nodes t = tri_nodes t'" "tri_root t = tri_root t'" using wf unfolding trie_wf_def by (metis prod.inject)+
  show ?thesis unfolding generate_state_proof_def m n by simp
qed

definition sample_inserted :: state_trie where
  "sample_inserted = fst (insert_account sample_kec 1 (new_account 5) new_trie)"

lemma sample_inserted_reachable: "trie_reachable sample_kec default_state_config sample_inserted"
  unfolding sample_inserted_def new_trie_def by (rule tr_insert [OF tr_new prod.collapse [symmetric]])

theorem root_depends_on_accounts_only_witness:
  "tri_root sample_state = tri_root sample_inserted"
proof -
  have i: "tri_accounts sample_inserted = [(1, new_account 5)]"
    by (simp add: sample_inserted_def insert_account_def rebuild_built put_account_def new_trie_def trie_with_config_def)
  show ?thesis
    using root_depends_on_accounts_only [OF sample_state_reachable sample_inserted_reachable, of 1]
    by (simp add: get_account_def sample_accounts i)
qed




text \<open>
  A trie written out and read back holds the same accounts and storage under the same root, with the
  same nodes and slot counts; the configuration however is the default one again.
\<close>

theorem serialization_round_trip:
  assumes "trie_reachable kec cfg t" and "length (tri_accounts t) < 2 ^ 32" and "length (tri_storage t) < 2 ^ 32"
  shows "\<exists>t'. deserialize kec (serialize t) = Ok t' \<and> tri_accounts t' = tri_accounts t \<and> tri_storage t' = tri_storage t \<and>
    tri_nodes t' = tri_nodes t \<and> tri_root t' = tri_root t \<and>
    (\<forall>c. slot_count (tri_storage_counts t') c = slot_count (tri_storage_counts t) c) \<and> tri_config t' = default_state_config"
  using deserialize_serialize [OF reachable_wf [OF assms(1)] assms(2, 3)] by auto

theorem serialization_round_trip_witness:
  "\<exists>t'. deserialize sample_kec (serialize sample_state) = Ok t' \<and> tri_accounts t' = [(1, new_account 5)] \<and> tri_root t' = tri_root sample_state"
proof -
  have "tri_storage sample_state = []"
    by (simp add: sample_state_def set_balance_def rebuild_built put_account_def trie_with_config_def)
  then show ?thesis using serialization_round_trip [OF sample_state_reachable] by (auto simp: sample_accounts)
qed

text \<open>
  Both proof checks accept forgeries: for every root, address and account, \<^verbatim>\<open>verify_proof\<close> accepts a proof whose only node
  is arbitrary bytes, and \<^verbatim>\<open>verify_proof_iterative\<close> accepts a single leaf made up for the address,
  because the first node is never compared with the root.
\<close>

theorem forged_state_proof_accepted:
  "verify_state_proof_root kec \<lparr>spf_address = a, spf_account_state = Some st, spf_proof_nodes = [bytes], spf_state_root = root\<rparr> a root \<and>
   verify_proof_iterative kec \<lparr>spf_address = a, spf_account_state = Some st,
     spf_proof_nodes = [0 # 40 # nibbles_from_address a @ serialize_account st], spf_state_root = root\<rparr> (Some st) = Ok True"
proof -
  have l: "length (nibbles_from_address a) = 40" by (simp add: nibbles_from_address_def length_nibbles_of)
  then have "decode_proof_node (0 # 40 # nibbles_from_address a @ serialize_account st) = Ok (PnLeaf (nibbles_from_address a) (serialize_account st))"
    by (simp add: decode_proof_node_def Let_def)
  then show ?thesis by (simp add: verify_state_proof_root_def verify_proof_iterative_def MAX_PROOF_DEPTH_def)
qed

end
