(* ===== verification/StateIpc.thy ===== *)
theory StateIpc
  imports StateTrie IpcSecurity
begin

text \<open>
  The message handler of state management (\<^verbatim>\<open>qc-04-state-management/src/ipc/handler.rs\<close>) with its
  payloads (\<^verbatim>\<open>events/payloads.rs\<close>), and the detection of access conflicts (\<^verbatim>\<open>domain/conflicts.rs\<close>).

  The handler verifies each message with the shared message verifier, checks the sender and then reads or
  changes the trie. Its four locked fields are one record. A lock is poisoned by a panic of
  its holder, after which the handler is of no use; runs end at a panic. The measured duration of a
  block is a parameter.
\<close>

declare map_of_eq_Some_iff [simp del] Some_eq_map_of_iff [simp del]

section \<open>Payloads\<close>

record transaction_data =
  td_hash :: hash
  td_from :: address
  td_to :: "address option"
  td_value :: u128
  td_nonce :: u64

record state_block_payload =
  bvp_block_hash :: hash
  bvp_block_height :: u64
  bvp_transactions :: "transaction_data list"

record state_root_computed_payload =
  srp_block_hash :: hash
  srp_block_height :: u64
  srp_state_root :: hash
  srp_previous_state_root :: hash
  srp_accounts_modified :: u32
  srp_storage_slots_modified :: u32
  srp_computation_time_ms :: u64

record state_read_request =
  srq_address :: address
  srq_storage_key :: "storage_key option"
  srq_block_number :: "u64 option"

record state_read_response =
  srr_address :: address
  srr_storage_key :: "storage_key option"
  srr_value :: "u8 list option"
  srr_block_number :: u64

record state_write_request =
  swq_address :: address
  swq_storage_key :: storage_key
  swq_value :: storage_value
  swq_block_height :: u64
  swq_tx_hash :: hash

record balance_check_request =
  bcq_address :: address
  bcq_required_balance :: u128

record balance_check_response =
  bcr_address :: address
  bcr_has_sufficient_balance :: bool
  bcr_current_balance :: u128
  bcr_required_balance :: u128

section \<open>Conflicts\<close>

record access_pattern_of_tx =
  apt_tx_hash :: hash
  apt_reads :: "(address \<times> storage_key option) list"
  apt_writes :: "(address \<times> storage_key option) list"

datatype conflict_type = ReadWrite | WriteWrite | NonceConflict

record conflict_info =
  ci_tx1_index :: usize
  ci_tx2_index :: usize
  ci_conflict_type :: conflict_type
  ci_conflicting_address :: address
  ci_conflicting_key :: "storage_key option"

definition common_accesses :: "usize \<Rightarrow> usize \<Rightarrow> conflict_type \<Rightarrow> (address \<times> storage_key option) list \<Rightarrow>
    (address \<times> storage_key option) list \<Rightarrow> conflict_info list" where
  "common_accesses i j k xs ys =
     concat (map (\<lambda>x. map (\<lambda>y. \<lparr>ci_tx1_index = i, ci_tx2_index = j, ci_conflict_type = k,
         ci_conflicting_address = fst x, ci_conflicting_key = snd x\<rparr>) (filter (\<lambda>y. y = x) ys)) xs)"

definition check_write_write_conflicts :: "access_pattern_of_tx \<Rightarrow> access_pattern_of_tx \<Rightarrow> usize \<Rightarrow> usize \<Rightarrow> conflict_info list" where
  "check_write_write_conflicts p1 p2 i j = common_accesses i j WriteWrite (apt_writes p1) (apt_writes p2)"

definition check_read_write_conflicts :: "access_pattern_of_tx \<Rightarrow> access_pattern_of_tx \<Rightarrow> usize \<Rightarrow> usize \<Rightarrow> conflict_info list" where
  "check_read_write_conflicts p1 p2 i j =
     common_accesses i j ReadWrite (apt_reads p1) (apt_writes p2) @ common_accesses i j ReadWrite (apt_writes p1) (apt_reads p2)"

definition detect_state_conflicts :: "access_pattern_of_tx list \<Rightarrow> conflict_info list" where
  "detect_state_conflicts ps =
     concat (map (\<lambda>i. concat (map (\<lambda>j.
         check_write_write_conflicts (ps ! i) (ps ! j) i j @ check_read_write_conflicts (ps ! i) (ps ! j) i j)
       [i + 1..<length ps])) [0..<length ps])"

section \<open>Handler\<close>

definition STATE_CONSENSUS :: u8 where "STATE_CONSENSUS = 8"
definition STATE_MEMPOOL :: u8 where "STATE_MEMPOOL = 6"
definition STATE_SMART_CONTRACTS :: u8 where "STATE_SMART_CONTRACTS = 11"
definition STATE_TX_ORDERING :: u8 where "STATE_TX_ORDERING = 12"
definition STATE_SHARDING :: u8 where "STATE_SHARDING = 14"

definition static_keys :: "u8 list \<Rightarrow> u8 \<Rightarrow> u8 list option" where
  "static_keys secret sid = (if 1 \<le> sid \<and> sid \<le> 15 then Some secret else None)"

record state_handler =
  sh_nonce_cache :: nonce_cache
  sh_trie :: state_trie
  sh_current_height :: u64
  sh_state_roots :: "(u64 \<times> hash) list"

definition new_state_handler :: "nonce_cache \<Rightarrow> state_config \<Rightarrow> state_handler" where
  "new_state_handler cache cfg =
     \<lparr>sh_nonce_cache = cache, sh_trie = trie_with_config cfg, sh_current_height = 0, sh_state_roots = []\<rparr>"

text \<open>Verification and sender check, which every request starts with.\<close>

definition admitted :: "(u8 list \<Rightarrow> u8 list \<Rightarrow> u8 list) \<Rightarrow> (u8 \<Rightarrow> u8 list option) \<Rightarrow> u64 \<Rightarrow> instant \<Rightarrow> u8 list \<Rightarrow>
    'a authenticated_message \<Rightarrow> u8 list \<Rightarrow> state_handler \<Rightarrow> state_handler \<times> (unit, state_error) outcome" where
  "admitted hmac keys now inst allowed m bytes h =
     (case verify hmac keys now inst m bytes (sh_nonce_cache h) of
        (cache, None) \<Rightarrow> (h\<lparr>sh_nonce_cache := cache\<rparr>, Panic)
      | (cache, Some r) \<Rightarrow>
          (h\<lparr>sh_nonce_cache := cache\<rparr>,
           if r \<noteq> Valid then Err (StUnauthorizedSender (sender_id m))
           else if sender_id m \<notin> set allowed then Err (StUnauthorizedSender (sender_id m))
           else Ok ()))"

text \<open>Negation of a signed 128-bit number panics for the least one.\<close>

definition neg_i128 :: "128 word \<Rightarrow> 128 word option" where
  "neg_i128 w = (if sint w = - (2 ^ 127) then None else Some (- w))"

definition apply_transfer :: "(u8 list \<Rightarrow> hash) \<Rightarrow> transaction_data \<Rightarrow> state_trie \<Rightarrow> u32 \<Rightarrow>
    state_trie \<times> (u32, state_error) outcome" where
  "apply_transfer kec tx t n =
     (case neg_i128 (td_value tx) of
        None \<Rightarrow> (t, Panic)
      | Some debit \<Rightarrow>
          (case apply_balance_change kec (td_from tx) debit t of
             (t1, Err e) \<Rightarrow> (t1, Err e)
           | (t1, Panic) \<Rightarrow> (t1, Panic)
           | (t1, Ok _) \<Rightarrow>
               (case checked_add n 1 of
                  None \<Rightarrow> (t1, Panic)
                | Some n1 \<Rightarrow>
                    (case td_to tx of
                       None \<Rightarrow> (t1, Ok n1)
                     | Some to \<Rightarrow>
                         (case apply_balance_change kec to (td_value tx) t1 of
                            (t2, Err e) \<Rightarrow> (t2, Err e)
                          | (t2, Panic) \<Rightarrow> (t2, Panic)
                          | (t2, Ok _) \<Rightarrow>
                              (case checked_add n1 1 of None \<Rightarrow> (t2, Panic) | Some n2 \<Rightarrow> (t2, Ok n2)))))))"

definition apply_transaction :: "(u8 list \<Rightarrow> hash) \<Rightarrow> transaction_data \<Rightarrow> state_trie \<Rightarrow> u32 \<Rightarrow>
    state_trie \<times> (u32, state_error) outcome" where
  "apply_transaction kec tx t n =
     (case (if td_value tx = 0 then (t, Ok n) else apply_transfer kec tx t n) of
        (t1, Err e) \<Rightarrow> (t1, Err e)
      | (t1, Panic) \<Rightarrow> (t1, Panic)
      | (t1, Ok n1) \<Rightarrow>
          (case apply_nonce_increment kec (td_from tx) (td_nonce tx) t1 of
             (t2, Err e) \<Rightarrow> (t2, Err e)
           | (t2, Panic) \<Rightarrow> (t2, Panic)
           | (t2, Ok _) \<Rightarrow> (t2, Ok n1)))"

fun apply_transactions :: "(u8 list \<Rightarrow> hash) \<Rightarrow> transaction_data list \<Rightarrow> state_trie \<Rightarrow> u32 \<Rightarrow>
    state_trie \<times> (u32, state_error) outcome" where
  "apply_transactions kec [] t n = (t, Ok n)"
| "apply_transactions kec (tx # txs) t n =
     (case apply_transaction kec tx t n of
        (t1, Ok n1) \<Rightarrow> apply_transactions kec txs t1 n1
      | (t1, Err e) \<Rightarrow> (t1, Err e)
      | (t1, Panic) \<Rightarrow> (t1, Panic))"

definition handle_block_validated_state :: "(u8 list \<Rightarrow> hash) \<Rightarrow> (u8 list \<Rightarrow> u8 list \<Rightarrow> u8 list) \<Rightarrow> (u8 \<Rightarrow> u8 list option) \<Rightarrow> u64 \<Rightarrow>
    instant \<Rightarrow> u64 \<Rightarrow> state_block_payload authenticated_message \<Rightarrow> u8 list \<Rightarrow> state_handler \<Rightarrow>
    state_handler \<times> (state_root_computed_payload, state_error) outcome" where
  "handle_block_validated_state kec hmac keys now inst elapsed m bytes h =
     (case admitted hmac keys now inst [STATE_CONSENSUS] m bytes h of
        (h1, Err e) \<Rightarrow> (h1, Err e)
      | (h1, Panic) \<Rightarrow> (h1, Panic)
      | (h1, Ok _) \<Rightarrow>
          (let p = payload m; previous_root = tri_root (sh_trie h1) in
           case apply_transactions kec (bvp_transactions p) (sh_trie h1) 0 of
             (t, Err e) \<Rightarrow> (h1\<lparr>sh_trie := t\<rparr>, Err e)
           | (t, Panic) \<Rightarrow> (h1\<lparr>sh_trie := t\<rparr>, Panic)
           | (t, Ok n) \<Rightarrow>
               (h1\<lparr>sh_trie := t, sh_current_height := bvp_block_height p,
                  sh_state_roots := AList.update (bvp_block_height p) (tri_root t) (sh_state_roots h1)\<rparr>,
                Ok \<lparr>srp_block_hash = bvp_block_hash p, srp_block_height = bvp_block_height p, srp_state_root = tri_root t,
                    srp_previous_state_root = previous_root, srp_accounts_modified = n, srp_storage_slots_modified = 0,
                    srp_computation_time_ms = elapsed\<rparr>)))"

definition handle_state_read :: "(u8 list \<Rightarrow> u8 list \<Rightarrow> u8 list) \<Rightarrow> (u8 \<Rightarrow> u8 list option) \<Rightarrow> u64 \<Rightarrow> instant \<Rightarrow>
    state_read_request authenticated_message \<Rightarrow> u8 list \<Rightarrow> state_handler \<Rightarrow>
    state_handler \<times> (state_read_response, state_error) outcome" where
  "handle_state_read hmac keys now inst m bytes h =
     (case admitted hmac keys now inst [STATE_MEMPOOL, STATE_SMART_CONTRACTS, STATE_TX_ORDERING, STATE_SHARDING] m bytes h of
        (h1, Err e) \<Rightarrow> (h1, Err e)
      | (h1, Panic) \<Rightarrow> (h1, Panic)
      | (h1, Ok _) \<Rightarrow>
          (let p = payload m;
               v = (case srq_storage_key p of
                      Some key \<Rightarrow> map_option (be_bytes 32) (get_storage (srq_address p) key (sh_trie h1))
                    | None \<Rightarrow> map_option (\<lambda>a. be_bytes 16 (as_balance a) @ be_bytes 8 (as_nonce a))
                                (get_account (srq_address p) (sh_trie h1))) in
           (h1, Ok \<lparr>srr_address = srq_address p, srr_storage_key = srq_storage_key p, srr_value = v,
                    srr_block_number = sh_current_height h1\<rparr>)))"

definition handle_state_write :: "(u8 list \<Rightarrow> hash) \<Rightarrow> (u8 list \<Rightarrow> u8 list \<Rightarrow> u8 list) \<Rightarrow> (u8 \<Rightarrow> u8 list option) \<Rightarrow> u64 \<Rightarrow>
    instant \<Rightarrow> state_write_request authenticated_message \<Rightarrow> u8 list \<Rightarrow> state_handler \<Rightarrow>
    state_handler \<times> (unit, state_error) outcome" where
  "handle_state_write kec hmac keys now inst m bytes h =
     (case admitted hmac keys now inst [STATE_SMART_CONTRACTS] m bytes h of
        (h1, Err e) \<Rightarrow> (h1, Err e)
      | (h1, Panic) \<Rightarrow> (h1, Panic)
      | (h1, Ok _) \<Rightarrow>
          (let p = payload m in
           case set_storage kec (swq_address p) (swq_storage_key p) (swq_value p) (sh_trie h1) of
             (t, r) \<Rightarrow> (h1\<lparr>sh_trie := t\<rparr>, r)))"

definition handle_balance_check :: "(u8 list \<Rightarrow> u8 list \<Rightarrow> u8 list) \<Rightarrow> (u8 \<Rightarrow> u8 list option) \<Rightarrow> u64 \<Rightarrow> instant \<Rightarrow>
    balance_check_request authenticated_message \<Rightarrow> u8 list \<Rightarrow> state_handler \<Rightarrow>
    state_handler \<times> (balance_check_response, state_error) outcome" where
  "handle_balance_check hmac keys now inst m bytes h =
     (case admitted hmac keys now inst [STATE_MEMPOOL] m bytes h of
        (h1, Err e) \<Rightarrow> (h1, Err e)
      | (h1, Panic) \<Rightarrow> (h1, Panic)
      | (h1, Ok _) \<Rightarrow>
          (let p = payload m; current = get_balance (bcq_address p) (sh_trie h1) in
           (h1, Ok \<lparr>bcr_address = bcq_address p, bcr_has_sufficient_balance = (bcq_required_balance p \<le> current),
                    bcr_current_balance = current, bcr_required_balance = bcq_required_balance p\<rparr>)))"

definition handle_conflict_detection :: "(u8 list \<Rightarrow> u8 list \<Rightarrow> u8 list) \<Rightarrow> (u8 \<Rightarrow> u8 list option) \<Rightarrow> u64 \<Rightarrow> instant \<Rightarrow>
    access_pattern_of_tx list authenticated_message \<Rightarrow> u8 list \<Rightarrow> state_handler \<Rightarrow>
    state_handler \<times> (conflict_info list \<times> usize \<times> usize, state_error) outcome" where
  "handle_conflict_detection hmac keys now inst m bytes h =
     (case admitted hmac keys now inst [STATE_TX_ORDERING] m bytes h of
        (h1, Err e) \<Rightarrow> (h1, Err e)
      | (h1, Panic) \<Rightarrow> (h1, Panic)
      | (h1, Ok _) \<Rightarrow>
          (let conflicts = detect_state_conflicts (payload m) in
           (h1, Ok (conflicts, length (payload m), length conflicts))))"

section \<open>Balances\<close>

lemma uint_small:
  fixes v :: "128 word"
  assumes "unat v < 2 ^ 127"
  shows "0 \<le> uint v" and "uint v < 2 ^ 127"
proof -
  have "int (unat v) < int (2 ^ 127)" using assms by (simp only: of_nat_less_iff)
  then show "uint v < 2 ^ 127" by simp
qed simp

lemma sint_small:
  fixes v :: "128 word"
  assumes "unat v < 2 ^ 127"
  shows "sint v = uint v" and "sint (- v) = - uint v"
proof -
  have st: "signed_take_bit 127 i = i" "signed_take_bit 127 (- i) = - i" if "0 \<le> i" "i < 2 ^ 127" for i :: int
    using that by (auto intro!: signed_take_bit_int_eq_self)
  show v: "sint v = uint v" using st(1) [OF uint_small [OF assms]] by (simp add: sint_uint)
  show "sint (- v) = - uint v" using st(2) [OF uint_small [OF assms]] by (simp add: sint_word_minus v)
qed

definition total_supply :: "state_trie \<Rightarrow> nat" where
  "total_supply t = sum_list (map (\<lambda>(_, st). unat (as_balance st)) (tri_accounts t))"



lemma account_entry_fields: "as_balance (account_entry a t) = get_balance a t" "as_nonce (account_entry a t) = get_nonce a t"
  by (simp_all add: account_entry_def get_balance_def get_nonce_def default_account_def split: option.split)


lemma credit_eq:
  assumes "unat v < 2 ^ 127"
  shows "apply_balance_change kec a v t = set_balance kec a (saturating_add (get_balance a t) v) t"
  using sint_small(1) [OF assms] by (simp add: apply_balance_change_def Let_def)

lemma debit_eq:
  assumes "unat v < 2 ^ 127" and "v \<noteq> 0"
  shows "apply_balance_change kec a (- v) t =
    (if get_balance a t < v then (t, Err (InsufficientBalance v (get_balance a t))) else set_balance kec a (get_balance a t - v) t)"
proof -
  have "0 < uint v" "uint v < 2 ^ 127" using uint_small [OF assms(1)] assms(2) by (simp_all add: order_less_le uint_0_iff)
  then have "\<not> 0 \<le> sint (- v)" "sint (- v) \<noteq> - (2 ^ 127)" unfolding sint_small(2) [OF assms(1)] by auto
  then show ?thesis by (simp add: apply_balance_change_def Let_def)
qed

lemma neg_small: "unat v < 2 ^ 127 \<Longrightarrow> neg_i128 v = Some (- v)"
  using sint_small(1) [of v] order_trans [OF _ uint_small(1), of "- (2 ^ 127) + 1" v] by (auto simp: neg_i128_def)








lemma set_balance_ok: "\<exists>t'. set_balance kec a b t = (t', Ok ())"
  by (simp add: set_balance_def rebuild_built)

lemma set_balance_reads:
  assumes "set_balance kec a b t = (t', r)"
  shows "get_balance x t' = (if x = a then b else get_balance x t)" and "get_nonce x t' = get_nonce x t"
proof -
  have acc: "tri_accounts t' = AList.update a ((account_entry a t)\<lparr>as_balance := b\<rparr>) (tri_accounts t)"
    using assms by (auto simp: set_balance_def rebuild_built put_account_def)
  show "get_balance x t' = (if x = a then b else get_balance x t)" by (simp add: get_balance_def acc update_conv)
  show "get_nonce x t' = get_nonce x t"
    using account_entry_fields(2) [of a t] by (cases "x = a") (simp_all add: get_nonce_def acc update_conv)
qed

lemma increment_reads:
  assumes "unat (get_nonce a t) + 1 < 2 ^ 64"
  shows "\<exists>t'. apply_nonce_increment kec a (get_nonce a t) t = (t', Ok ()) \<and> (\<forall>x. get_balance x t' = get_balance x t)"
proof -
  let ?st = "(account_entry a t)\<lparr>as_nonce := get_nonce a t + 1\<rparr>"
  have "\<forall>x. get_balance x (put_account a ?st t) = get_balance x t"
    using account_entry_fields(1) [of a t] by (simp add: get_balance_def put_account_def update_conv)
  then show ?thesis
    using assms account_entry_fields(2) [of a t]
    by (simp add: apply_nonce_increment_def increment_nonce_def Let_def checked_add_def rebuild_built get_balance_def)
qed

lemma transfer_pays:
  assumes v: "unat (td_value tx) < 2 ^ 127" "td_value tx \<noteq> 0" and to: "td_to tx = Some to" "to \<noteq> td_from tx"
    and le: "td_value tx \<le> get_balance (td_from tx) t" and fits: "unat (get_balance to t) + unat (td_value tx) < 2 ^ 128"
  shows "\<exists>t'. apply_transfer kec tx t 0 = (t', Ok 2)
    \<and> get_balance (td_from tx) t' = get_balance (td_from tx) t - td_value tx
    \<and> get_balance to t' = get_balance to t + td_value tx \<and> (\<forall>x. get_nonce x t' = get_nonce x t)"
proof -
  let ?v = "td_value tx" and ?a = "td_from tx"
  obtain t1 where t1: "set_balance kec ?a (get_balance ?a t - ?v) t = (t1, Ok ())" using set_balance_ok by metis
  note r1 = set_balance_reads [OF t1]
  have "saturating_add (get_balance to t1) ?v = get_balance to t + ?v"
    using fits to(2) by (simp add: r1(1) saturating_add_def)
  with credit_eq [OF v(1)] set_balance_ok obtain t2 where t2: "apply_balance_change kec to ?v t1 = (t2, Ok ())"
    and b: "set_balance kec to (get_balance to t + ?v) t1 = (t2, Ok ())" by metis
  note r2 = set_balance_reads [OF b]
  have "apply_transfer kec tx t 0 = (t2, Ok 2)"
    using le by (simp add: apply_transfer_def neg_small [OF v(1)] debit_eq [OF v] t1 t2 to(1) checked_add_def)
  then show ?thesis using to(2) by (simp add: r1 r2)
qed

lemma unat_large_neg:
  fixes v :: "128 word"
  assumes "2 ^ 127 < unat v"
  shows "unat (- v) = 2 ^ 128 - unat v" and "unat (- v) < 2 ^ 127"
proof -
  have le: "unat v < 2 ^ 128" using unsigned_less [of v] by simp
  then have "of_nat (2 ^ 128 - unat v) = (of_nat (2 ^ 128) :: 128 word) - of_nat (unat v)" by (intro of_nat_diff) simp
  also have "\<dots> = - v" by simp
  finally have "- v = of_nat (2 ^ 128 - unat v)" ..
  then show u: "unat (- v) = 2 ^ 128 - unat v" using assms by (simp add: unat_of_nat)
  then show "unat (- v) < 2 ^ 127" using assms by simp
qed

lemma large_transfer:
  assumes v: "2 ^ 127 < unat (td_value tx)" and to: "td_to tx = Some to" "to \<noteq> td_from tx"
    and le: "- td_value tx \<le> get_balance to t" and fits: "unat (get_balance (td_from tx) t) + unat (- td_value tx) < 2 ^ 128"
  shows "\<exists>t'. apply_transfer kec tx t 0 = (t', Ok 2)
    \<and> get_balance (td_from tx) t' = get_balance (td_from tx) t + - td_value tx
    \<and> get_balance to t' = get_balance to t - - td_value tx \<and> (\<forall>x. get_nonce x t' = get_nonce x t)"
proof -
  let ?v = "td_value tx" and ?a = "td_from tx" let ?w = "- ?v"
  have w: "unat ?w < 2 ^ 127" and w0: "?w \<noteq> 0" using unat_large_neg(2) [OF v] v by auto
  have neg: "neg_i128 ?v = Some ?w"
    using sint_small(2) [OF w] uint_small [OF w] by (simp add: neg_i128_def)
  have "saturating_add (get_balance ?a t) ?w = get_balance ?a t + ?w" using fits by (simp add: saturating_add_def)
  with credit_eq [OF w] set_balance_ok obtain t1 where t1: "apply_balance_change kec ?a ?w t = (t1, Ok ())"
    and b: "set_balance kec ?a (get_balance ?a t + ?w) t = (t1, Ok ())" by metis
  note r1 = set_balance_reads [OF b]
  obtain t2 where b2: "set_balance kec to (get_balance to t - ?w) t1 = (t2, Ok ())" using set_balance_ok by metis
  note r2 = set_balance_reads [OF b2]
  have "apply_balance_change kec to ?v t1 = (t2, Ok ())"
    using debit_eq [OF w w0, of kec to t1] le b2 to(2) by (simp add: r1(1))
  then have "apply_transfer kec tx t 0 = (t2, Ok 2)" by (simp add: apply_transfer_def neg t1 to(1) checked_add_def)
  then show ?thesis using to(2) by (simp add: r1 r2)
qed

lemma admitted_state:
  assumes "admitted hmac keys now inst allowed m bytes h = (h1, r)"
  shows "sh_trie h1 = sh_trie h" and "sh_current_height h1 = sh_current_height h" and "sh_state_roots h1 = sh_state_roots h"
  using assms by (cases "verify hmac keys now inst m bytes (sh_nonce_cache h)"; cases "snd (verify hmac keys now inst m bytes (sh_nonce_cache h))";
    auto simp: admitted_def)+

lemma admitted_authentic:
  assumes "admitted hmac keys now inst allowed m bytes h = (h1, Ok u)"
  shows "snd (verify hmac keys now inst m bytes (sh_nonce_cache h)) = Some Valid \<and> sender_id m \<in> set allowed"
  using assms by (cases "verify hmac keys now inst m bytes (sh_nonce_cache h)"; cases "snd (verify hmac keys now inst m bytes (sh_nonce_cache h))";
    auto simp: admitted_def split: if_splits)

lemma block_trie_authentic:
  "sh_trie (fst (handle_block_validated_state kec hmac keys now inst el m bytes h)) = sh_trie h
   \<or> snd (verify hmac keys now inst m bytes (sh_nonce_cache h)) = Some Valid \<and> sender_id m = STATE_CONSENSUS"
proof (cases "admitted hmac keys now inst [STATE_CONSENSUS] m bytes h")
  case (Pair h1 r)
  note t = admitted_state(1) [OF Pair]
  show ?thesis
  proof (cases r)
    case (Ok u)
    then show ?thesis using admitted_authentic [OF Pair [unfolded Ok]] by simp
  qed (use t in \<open>simp_all add: handle_block_validated_state_def Pair\<close>)
qed

lemma write_trie_authentic:
  "sh_trie (fst (handle_state_write kec hmac keys now inst m bytes h)) = sh_trie h
   \<or> snd (verify hmac keys now inst m bytes (sh_nonce_cache h)) = Some Valid \<and> sender_id m = STATE_SMART_CONTRACTS"
proof (cases "admitted hmac keys now inst [STATE_SMART_CONTRACTS] m bytes h")
  case (Pair h1 r)
  note t = admitted_state(1) [OF Pair]
  show ?thesis
  proof (cases r)
    case (Ok u)
    then show ?thesis using admitted_authentic [OF Pair [unfolded Ok]] by simp
  qed (use t in \<open>simp_all add: handle_state_write_def Pair\<close>)
qed

lemma fst_outcome_case:
  "fst (case r of (h1, Ok u) \<Rightarrow> (h1, f h1 u) | (h1, Err e) \<Rightarrow> (h1, Err e) | (h1, Panic) \<Rightarrow> (h1, Panic)) = fst r"
  by (simp split: prod.splits outcome.splits)

lemma admitted_fst_trie: "sh_trie (fst (admitted hmac keys now inst allowed m bytes h)) = sh_trie h"
  using admitted_state(1) by (metis prod.collapse)

lemma reads_keep_trie:
  "sh_trie (fst (handle_state_read hmac keys now inst m1 bytes h)) = sh_trie h"
  "sh_trie (fst (handle_balance_check hmac keys now inst m2 bytes h)) = sh_trie h"
  "sh_trie (fst (handle_conflict_detection hmac keys now inst m3 bytes h)) = sh_trie h"
  unfolding handle_state_read_def handle_balance_check_def handle_conflict_detection_def Let_def
  by (simp_all add: fst_outcome_case admitted_fst_trie)

section \<open>Properties\<close>

definition signed_block :: "transaction_data list \<Rightarrow> state_block_payload authenticated_message" where
  "signed_block txs =
     \<lparr>version = 1, sender_id = 8, recipient_id = 4, correlation_id = 5, reply_to_field = None,
      msg_timestamp = 1000, msg_nonce = 7, msg_signature = sign_message sample_hmac [1, 2, 3] [9, 8],
      payload = \<lparr>bvp_block_hash = 1, bvp_block_height = 1, bvp_transactions = txs\<rparr>\<rparr>"

definition funded_handler :: "(u8 list \<Rightarrow> hash) \<Rightarrow> (address \<times> u128) list \<Rightarrow> state_handler" where
  "funded_handler kec bs =
     (new_state_handler [] default_state_config)\<lparr>sh_trie := fold (\<lambda>(a, b) t. fst (set_balance kec a b t)) bs (trie_with_config default_state_config)\<rparr>"

definition sample_payment :: "u128 \<Rightarrow> u64 \<Rightarrow> transaction_data" where
  "sample_payment v n = \<lparr>td_hash = 0, td_from = 1, td_to = Some 2, td_value = v, td_nonce = n\<rparr>"

lemma sample_admitted:
  "\<exists>h1. admitted sample_hmac (\<lambda>_. Some [9, 8]) 1000 t [STATE_CONSENSUS] (signed_block txs) [1, 2, 3] (funded_handler kec bs) = (h1, Ok ())"
  by (simp add: admitted_def funded_handler_def new_state_handler_def STATE_CONSENSUS_def verify_def signed_block_def CURRENT_VERSION_def
    validate_timestamp_def MAX_AGE_def MAX_FUTURE_SKEW_def checked_add_def check_and_insert_def MAX_NONCE_CACHE_SIZE_def
    validate_hmac_signature_def sign_message_def sample_hmac_def)

lemma sample_balances:
  "hm_inv (tri_accounts (sh_trie (funded_handler kec [(1, 50), (2, b)])))"
  "get_balance 1 (sh_trie (funded_handler kec [(1, 50), (2, b)])) = 50"
  "get_balance 2 (sh_trie (funded_handler kec [(1, 50), (2, b)])) = b"
  "get_nonce x (sh_trie (funded_handler kec [(1, 50), (2, b)])) = 0"
  "total_supply (sh_trie (funded_handler kec [(1, 50), (2, b)])) = 50 + unat b"
  by (simp_all add: funded_handler_def set_balance_def rebuild_built put_account_def account_entry_def trie_with_config_def
    new_account_def default_account_def get_balance_def get_nonce_def total_supply_def)

lemma block_effect:
  assumes "admitted hmac keys now inst [STATE_CONSENSUS] m bytes h = (h1, Ok ())"
  shows "handle_block_validated_state kec hmac keys now inst el m bytes h = (h', Ok r) \<Longrightarrow>
      \<exists>n. apply_transactions kec (bvp_transactions (payload m)) (sh_trie h) 0 = (sh_trie h', Ok n)"
    and "apply_transactions kec (bvp_transactions (payload m)) (sh_trie h) 0 = (t, Err e) \<Longrightarrow>
      handle_block_validated_state kec hmac keys now inst el m bytes h = (h1\<lparr>sh_trie := t\<rparr>, Err e)"
    and "apply_transactions kec (bvp_transactions (payload m)) (sh_trie h) 0 = (t, Ok n) \<Longrightarrow>
      \<exists>h' r. handle_block_validated_state kec hmac keys now inst el m bytes h = (h', Ok r) \<and> sh_trie h' = t"
  unfolding handle_block_validated_state_def assms prod.case outcome.case Let_def
  by (auto simp: admitted_state(1) [OF assms] split: prod.splits outcome.splits)





text \<open>
  A payment of more than \<open>2\<^sup>127\<close> units runs backwards. The handler negates the amount as a signed
  number, so the sender is credited with \<open>2\<^sup>128 - value\<close> and the recipient, who signed nothing, is
  debited by the same amount; no balance of the sender is needed.
\<close>

theorem large_value_drains_recipient:
  assumes "2 ^ 127 < unat (td_value tx)" and "td_to tx = Some to" and "to \<noteq> td_from tx"
    and "2 ^ 128 - unat (td_value tx) \<le> unat (get_balance to t)"
    and "unat (get_balance (td_from tx) t) + (2 ^ 128 - unat (td_value tx)) < 2 ^ 128"
    and "td_nonce tx = get_nonce (td_from tx) t" and "unat (td_nonce tx) + 1 < 2 ^ 64"
  shows "\<exists>t'. apply_transaction kec tx t 0 = (t', Ok 2)
    \<and> unat (get_balance (td_from tx) t') = unat (get_balance (td_from tx) t) + (2 ^ 128 - unat (td_value tx))
    \<and> unat (get_balance to t') = unat (get_balance to t) - (2 ^ 128 - unat (td_value tx))"
proof -
  note u = unat_large_neg(1) [OF assms(1)]
  have w: "- td_value tx \<le> get_balance to t" using assms(4) by (simp only: word_le_nat_alt u)
  have f: "unat (get_balance (td_from tx) t) + unat (- td_value tx) < 2 ^ 128" using assms(5) by (simp only: u)
  from large_transfer [OF assms(1-3) w f, of kec] obtain t1 where t1: "apply_transfer kec tx t 0 = (t1, Ok 2)"
    and b: "get_balance (td_from tx) t1 = get_balance (td_from tx) t + - td_value tx"
      "get_balance to t1 = get_balance to t - - td_value tx" and n: "get_nonce (td_from tx) t1 = td_nonce tx"
    using assms(6) by auto
  from increment_reads [of "td_from tx" t1 kec] n assms(7) obtain t2
    where t2: "apply_nonce_increment kec (td_from tx) (td_nonce tx) t1 = (t2, Ok ())" "\<forall>x. get_balance x t2 = get_balance x t1" by auto
  have "td_value tx \<noteq> 0" using assms(1) by auto
  then have "apply_transaction kec tx t 0 = (t2, Ok 2)" by (simp add: apply_transaction_def t1 t2(1))
  moreover have "unat (get_balance (td_from tx) t + - td_value tx) = unat (get_balance (td_from tx) t) + unat (- td_value tx)"
    using f by (subst unat_add_lem [THEN iffD1]) auto
  moreover have "unat (get_balance to t - - td_value tx) = unat (get_balance to t) - unat (- td_value tx)" by (rule unat_sub [OF w])
  ultimately show ?thesis using t2(2) b by (simp only: u) auto
qed

theorem large_value_drains_recipient_witness:
  "\<exists>t'. apply_transaction (\<lambda>_. 0) (sample_payment (- 30) 0) (sh_trie (funded_handler (\<lambda>_. 0) [(1, 50), (2, 45)])) 0 = (t', Ok 2)
     \<and> unat (get_balance 1 t') = 80 \<and> unat (get_balance 2 t') = 15"
  using large_value_drains_recipient [of "sample_payment (- 30) 0" 2 "sh_trie (funded_handler (\<lambda>_. 0) [(1, 50), (2, 45)])" "\<lambda>_. 0"]
  by (simp add: sample_balances sample_payment_def)

text \<open>
  A refused block still pays. When the nonce of a payment is wrong the handler answers with an
  error and neither the height nor the table of state roots changes, but the payment itself,
  made before the nonce is looked at, stays in the state: the application of a block is not atomic.
\<close>

theorem refused_block_still_pays:
  assumes "admitted hmac keys now inst [STATE_CONSENSUS] m bytes h = (h1, Ok ())"
    and "bvp_transactions (payload m) = [tx]" and "unat (td_value tx) < 2 ^ 127" and "td_value tx \<noteq> 0"
    and "td_to tx = Some to" and "to \<noteq> td_from tx"
    and "td_value tx \<le> get_balance (td_from tx) (sh_trie h)" and "unat (get_balance to (sh_trie h)) + unat (td_value tx) < 2 ^ 128"
    and "get_nonce (td_from tx) (sh_trie h) \<noteq> td_nonce tx" and "unat (get_nonce (td_from tx) (sh_trie h)) + 1 < 2 ^ 64"
  shows "\<exists>h' e. handle_block_validated_state kec hmac keys now inst el m bytes h = (h', Err e)
    \<and> get_balance (td_from tx) (sh_trie h') = get_balance (td_from tx) (sh_trie h) - td_value tx
    \<and> get_balance to (sh_trie h') = get_balance to (sh_trie h) + td_value tx
    \<and> sh_current_height h' = sh_current_height h \<and> sh_state_roots h' = sh_state_roots h"
proof -
  from transfer_pays [OF assms(3-8), of kec] obtain t1 where t1: "apply_transfer kec tx (sh_trie h) 0 = (t1, Ok 2)"
    and b: "get_balance (td_from tx) t1 = get_balance (td_from tx) (sh_trie h) - td_value tx"
      "get_balance to t1 = get_balance to (sh_trie h) + td_value tx" and n: "get_nonce (td_from tx) t1 = get_nonce (td_from tx) (sh_trie h)"
    by auto
  have "\<exists>e. apply_nonce_increment kec (td_from tx) (td_nonce tx) t1 = (t1, Err e)"
    using assms(9, 10) n by (simp add: apply_nonce_increment_def Let_def checked_add_def)
  then obtain e where "apply_nonce_increment kec (td_from tx) (td_nonce tx) t1 = (t1, Err e)" by blast
  then have "apply_transactions kec (bvp_transactions (payload m)) (sh_trie h) 0 = (t1, Err e)"
    using assms(4) by (simp add: assms(2) apply_transaction_def t1)
  from block_effect(2) [OF assms(1) this] admitted_state(2, 3) [OF assms(1)] b show ?thesis by simp
qed

theorem refused_block_still_pays_witness:
  "\<exists>h' e. handle_block_validated_state (\<lambda>_. 0) sample_hmac (\<lambda>_. Some [9, 8]) 1000 0 0 (signed_block [sample_payment 20 7]) [1, 2, 3]
     (funded_handler (\<lambda>_. 0) [(1, 50), (2, 5)]) = (h', Err e)
     \<and> get_balance 1 (sh_trie h') = 30 \<and> get_balance 2 (sh_trie h') = 25"
proof -
  let ?h = "funded_handler (\<lambda>_. 0) [(1, 50), (2, 5)]" and ?m = "signed_block [sample_payment 20 7]"
  obtain h1 where adm: "admitted sample_hmac (\<lambda>_. Some [9, 8]) 1000 0 [STATE_CONSENSUS] ?m [1, 2, 3] ?h = (h1, Ok ())"
    using sample_admitted by blast
  have txs: "bvp_transactions (payload ?m) = [sample_payment 20 7]" by (simp add: signed_block_def)
  show ?thesis
    using refused_block_still_pays [OF adm txs, of 2 "\<lambda>_. 0" 0] by (simp add: sample_payment_def sample_balances) blast
qed

text \<open>
  C34. Only consensus and the contract engine change the state. Whatever request the handler of the
  state subsystem is given, either the trie stays as it was, or the request was a block or a
  storage write whose message the shared verifier found valid and whose sender was subsystem 8,
  respectively 11; reads, balance checks and conflict detection never change it.
\<close>

theorem state_changes_are_authentic:
  "(sh_trie (fst (handle_block_validated_state kec hmac keys now inst el mb bytes h)) = sh_trie h
    \<or> snd (verify hmac keys now inst mb bytes (sh_nonce_cache h)) = Some Valid \<and> sender_id mb = 8)
   \<and> (sh_trie (fst (handle_state_write kec hmac keys now inst mw bytes h)) = sh_trie h
    \<or> snd (verify hmac keys now inst mw bytes (sh_nonce_cache h)) = Some Valid \<and> sender_id mw = 11)
   \<and> sh_trie (fst (handle_state_read hmac keys now inst mr bytes h)) = sh_trie h
   \<and> sh_trie (fst (handle_balance_check hmac keys now inst mc bytes h)) = sh_trie h
   \<and> sh_trie (fst (handle_conflict_detection hmac keys now inst md bytes h)) = sh_trie h"
  using block_trie_authentic [unfolded STATE_CONSENSUS_def] write_trie_authentic [unfolded STATE_SMART_CONTRACTS_def]
  by (intro conjI reads_keep_trie)

end
