(* ===== verification/CrossChain.thy ===== *)
theory CrossChain
  imports Containers SharedTypes
begin

unbundle bit_operations_syntax

text \<open>
  Cross-chain swaps: \<^verbatim>\<open>qc-15-cross-chain/src\<close>. The hash time-locked contract and the atomic swap
  with their state machines (\<^verbatim>\<open>domain/\<close>), secrets and timelocks (\<^verbatim>\<open>algorithms/\<close>), the contract that
  holds the locked funds, the finality checker and the client of the foreign chains (\<^verbatim>\<open>adapters/\<close>).

  SHA-256 is the parameter \<open>sha256\<close>; the random secret of a new swap is an argument. A secret is the
  32-byte array read as a big-endian number. The locale \<open>htlc_ledger\<close> is the contract that a swap
  relies on; the in-memory contract of \<^verbatim>\<open>adapters/htlc_contract.rs\<close> is shown to meet it.
\<close>

section \<open>Data\<close>

type_synonym secret = "256 word"

datatype chain_id = QuantumChain | Ethereum | Bitcoin | Polygon | Arbitrum

fun chain_text :: "chain_id \<Rightarrow> string" where
  "chain_text QuantumChain = ''QuantumChain''"
| "chain_text Ethereum = ''Ethereum''"
| "chain_text Bitcoin = ''Bitcoin''"
| "chain_text Polygon = ''Polygon''"
| "chain_text Arbitrum = ''Arbitrum''"


fun required_confirmations :: "chain_id \<Rightarrow> u64" where
  "required_confirmations QuantumChain = 6"
| "required_confirmations Ethereum = 12"
| "required_confirmations Bitcoin = 6"
| "required_confirmations Polygon = 128"
| "required_confirmations Arbitrum = 1"

fun block_time_secs :: "chain_id \<Rightarrow> u64" where
  "block_time_secs QuantumChain = 10"
| "block_time_secs Ethereum = 12"
| "block_time_secs Bitcoin = 600"
| "block_time_secs Polygon = 2"
| "block_time_secs Arbitrum = 1"

datatype htlc_state = HtlcPending | HtlcLocked | HtlcClaimed | HtlcExpired | HtlcRefunded

fun htlc_state_text :: "htlc_state \<Rightarrow> string" where
  "htlc_state_text HtlcPending = ''Pending''"
| "htlc_state_text HtlcLocked = ''Locked''"
| "htlc_state_text HtlcClaimed = ''Claimed''"
| "htlc_state_text HtlcExpired = ''Expired''"
| "htlc_state_text HtlcRefunded = ''Refunded''"

fun htlc_can_transition :: "htlc_state \<Rightarrow> htlc_state \<Rightarrow> u64 \<Rightarrow> u64 \<Rightarrow> bool" where
  "htlc_can_transition HtlcPending HtlcLocked now timelock = True"
| "htlc_can_transition HtlcLocked HtlcClaimed now timelock = (now \<le> timelock)"
| "htlc_can_transition HtlcLocked HtlcExpired now timelock = (timelock < now)"
| "htlc_can_transition HtlcExpired HtlcRefunded now timelock = True"
| "htlc_can_transition _ _ now timelock = False"

fun htlc_is_terminal :: "htlc_state \<Rightarrow> bool" where
  "htlc_is_terminal HtlcClaimed = True"
| "htlc_is_terminal HtlcRefunded = True"
| "htlc_is_terminal _ = False"

datatype swap_state = SwapInitiated | SwapSourceLocked | SwapTargetLocked | SwapCompleted | SwapRefunded

fun swap_state_text :: "swap_state \<Rightarrow> string" where
  "swap_state_text SwapInitiated = ''Initiated''"
| "swap_state_text SwapSourceLocked = ''SourceLocked''"
| "swap_state_text SwapTargetLocked = ''TargetLocked''"
| "swap_state_text SwapCompleted = ''Completed''"
| "swap_state_text SwapRefunded = ''Refunded''"

fun swap_can_transition :: "swap_state \<Rightarrow> swap_state \<Rightarrow> bool" where
  "swap_can_transition SwapInitiated SwapSourceLocked = True"
| "swap_can_transition SwapInitiated SwapRefunded = True"
| "swap_can_transition SwapSourceLocked SwapTargetLocked = True"
| "swap_can_transition SwapSourceLocked SwapRefunded = True"
| "swap_can_transition SwapTargetLocked SwapCompleted = True"
| "swap_can_transition SwapTargetLocked SwapRefunded = True"
| "swap_can_transition _ _ = False"

fun swap_is_terminal :: "swap_state \<Rightarrow> bool" where
  "swap_is_terminal SwapCompleted = True"
| "swap_is_terminal SwapRefunded = True"
| "swap_is_terminal _ = False"

record chain_address =
  ca_chain :: chain_id
  ca_address :: address

datatype cross_chain_error =
    UnsupportedChain string
  | HTLCNotFound hash
  | InvalidSecret
  | HTLCExpired
  | HTLCNotExpired
  | InvalidTimelockMargin u64 u64 u64
  | NotFinalized u64 u64
  | UnauthorizedClaimer
  | InvalidSwapTransition string string
  | InvalidHTLCTransition string string
  | InvalidCrossProof
  | SwapNotFound hash
  | NetworkError string
  | AlreadyClaimed
  | AlreadyRefunded

section \<open>Hash time-locked contracts\<close>

record htlc =
  htlc_id :: hash
  htlc_hash_lock :: hash
  htlc_time_lock :: u64
  htlc_amount :: u64
  htlc_sender :: chain_address
  htlc_recipient :: chain_address
  htlc_status :: htlc_state
  htlc_secret :: "secret option"
  htlc_created_at :: u64

record htlc_params =
  hp_id :: hash
  hp_hash_lock :: hash
  hp_time_lock :: u64
  hp_amount :: u64
  hp_sender :: chain_address
  hp_recipient :: chain_address
  hp_created_at :: u64

definition new_htlc :: "htlc_params \<Rightarrow> htlc" where
  "new_htlc p =
     \<lparr>htlc_id = hp_id p, htlc_hash_lock = hp_hash_lock p, htlc_time_lock = hp_time_lock p, htlc_amount = hp_amount p,
      htlc_sender = hp_sender p, htlc_recipient = hp_recipient p, htlc_status = HtlcPending, htlc_secret = None,
      htlc_created_at = hp_created_at p\<rparr>"

definition htlc_is_expired :: "u64 \<Rightarrow> htlc \<Rightarrow> bool" where
  "htlc_is_expired now h = (htlc_time_lock h < now)"

definition can_claim :: "u64 \<Rightarrow> htlc \<Rightarrow> bool" where
  "can_claim now h = (htlc_status h = HtlcLocked \<and> \<not> htlc_is_expired now h)"

definition can_refund :: "u64 \<Rightarrow> htlc \<Rightarrow> bool" where
  "can_refund now h = ((htlc_status h = HtlcLocked \<or> htlc_status h = HtlcExpired) \<and> htlc_is_expired now h)"

definition htlc_transition_to :: "htlc_state \<Rightarrow> u64 \<Rightarrow> htlc \<Rightarrow> htlc \<times> (unit, cross_chain_error) outcome" where
  "htlc_transition_to new_state now h =
     (if \<not> htlc_can_transition (htlc_status h) new_state now (htlc_time_lock h)
      then (h, Err (InvalidHTLCTransition (htlc_state_text (htlc_status h)) (htlc_state_text new_state)))
      else (h\<lparr>htlc_status := new_state\<rparr>, Ok ()))"

definition htlc_claim :: "secret \<Rightarrow> u64 \<Rightarrow> htlc \<Rightarrow> htlc \<times> (unit, cross_chain_error) outcome" where
  "htlc_claim s now h =
     (if htlc_is_expired now h then (h, Err HTLCExpired)
      else (h\<lparr>htlc_secret := Some s, htlc_status := HtlcClaimed\<rparr>, Ok ()))"

definition htlc_refund :: "u64 \<Rightarrow> htlc \<Rightarrow> htlc \<times> (unit, cross_chain_error) outcome" where
  "htlc_refund now h =
     (if \<not> htlc_is_expired now h then (h, Err HTLCNotExpired)
      else (h\<lparr>htlc_status := HtlcRefunded\<rparr>, Ok ()))"

section \<open>Atomic swaps\<close>

record atomic_swap =
  sw_id :: hash
  sw_source_chain :: chain_id
  sw_target_chain :: chain_id
  sw_initiator :: address
  sw_counterparty :: address
  sw_source_htlc_id :: "hash option"
  sw_target_htlc_id :: "hash option"
  sw_state :: swap_state
  sw_hash_lock :: hash
  sw_source_amount :: u64
  sw_target_amount :: u64
  sw_created_at :: u64

definition new_swap :: "hash \<Rightarrow> chain_id \<Rightarrow> chain_id \<Rightarrow> address \<Rightarrow> address \<Rightarrow> hash \<Rightarrow> u64 \<Rightarrow> u64 \<Rightarrow> u64 \<Rightarrow> atomic_swap" where
  "new_swap i source_chain target_chain initiator counterparty hash_lock source_amount target_amount created_at =
     \<lparr>sw_id = i, sw_source_chain = source_chain, sw_target_chain = target_chain, sw_initiator = initiator,
      sw_counterparty = counterparty, sw_source_htlc_id = None, sw_target_htlc_id = None, sw_state = SwapInitiated,
      sw_hash_lock = hash_lock, sw_source_amount = source_amount, sw_target_amount = target_amount,
      sw_created_at = created_at\<rparr>"

definition swap_transition_to :: "swap_state \<Rightarrow> atomic_swap \<Rightarrow> atomic_swap \<times> (unit, cross_chain_error) outcome" where
  "swap_transition_to new_state w =
     (if \<not> swap_can_transition (sw_state w) new_state
      then (w, Err (InvalidSwapTransition (swap_state_text (sw_state w)) (swap_state_text new_state)))
      else (w\<lparr>sw_state := new_state\<rparr>, Ok ()))"

definition set_source_htlc :: "hash \<Rightarrow> atomic_swap \<Rightarrow> atomic_swap \<times> (unit, cross_chain_error) outcome" where
  "set_source_htlc i w = swap_transition_to SwapSourceLocked (w\<lparr>sw_source_htlc_id := Some i\<rparr>)"

definition set_target_htlc :: "hash \<Rightarrow> atomic_swap \<Rightarrow> atomic_swap \<times> (unit, cross_chain_error) outcome" where
  "set_target_htlc i w = swap_transition_to SwapTargetLocked (w\<lparr>sw_target_htlc_id := Some i\<rparr>)"

record swap_builder =
  sb_id :: hash
  sb_source_chain :: chain_id
  sb_target_chain :: chain_id
  sb_initiator :: address
  sb_counterparty :: address
  sb_hash_lock :: hash
  sb_source_amount :: u64
  sb_target_amount :: u64
  sb_created_at :: u64

definition new_swap_builder :: "hash \<Rightarrow> hash \<Rightarrow> u64 \<Rightarrow> swap_builder" where
  "new_swap_builder i hash_lock created_at =
     \<lparr>sb_id = i, sb_source_chain = QuantumChain, sb_target_chain = Ethereum, sb_initiator = 0, sb_counterparty = 0,
      sb_hash_lock = hash_lock, sb_source_amount = 0, sb_target_amount = 0, sb_created_at = created_at\<rparr>"

definition build_swap :: "swap_builder \<Rightarrow> atomic_swap" where
  "build_swap b =
     \<lparr>sw_id = sb_id b, sw_source_chain = sb_source_chain b, sw_target_chain = sb_target_chain b, sw_initiator = sb_initiator b,
      sw_counterparty = sb_counterparty b, sw_source_htlc_id = None, sw_target_htlc_id = None, sw_state = SwapInitiated,
      sw_hash_lock = sb_hash_lock b, sw_source_amount = sb_source_amount b, sw_target_amount = sb_target_amount b,
      sw_created_at = sb_created_at b\<rparr>"

record cross_chain_proof =
  cp_chain :: chain_id
  cp_block_hash :: hash
  cp_block_height :: u64
  cp_tx_hash :: hash
  cp_merkle_proof :: "hash list"
  cp_confirmations :: u64

record cross_chain_config =
  cc_min_timelock_margin_secs :: u64
  cc_default_source_timeout_secs :: u64
  cc_default_target_timeout_secs :: u64
  cc_supported_chains :: "chain_id list"

definition default_cross_chain_config :: cross_chain_config where
  "default_cross_chain_config =
     \<lparr>cc_min_timelock_margin_secs = 6 * 3600, cc_default_source_timeout_secs = 24 * 3600,
      cc_default_target_timeout_secs = 18 * 3600,
      cc_supported_chains = [QuantumChain, Ethereum, Bitcoin, Polygon, Arbitrum]\<rparr>"

section \<open>Invariants\<close>

definition MIN_TIMELOCK_MARGIN_SECS :: u64 where "MIN_TIMELOCK_MARGIN_SECS = 6 * 3600"

definition invariant_timelock_ordering :: "u64 \<Rightarrow> u64 \<Rightarrow> u64 \<Rightarrow> (unit, cross_chain_error) outcome" where
  "invariant_timelock_ordering source_timelock target_timelock margin =
     (case checked_add target_timelock margin of
        None \<Rightarrow> Panic
      | Some limit \<Rightarrow>
          if source_timelock \<le> limit then Err (InvalidTimelockMargin source_timelock target_timelock margin)
          else Ok ())"

definition invariant_hashlock_match :: "hash \<Rightarrow> hash \<Rightarrow> bool" where
  "invariant_hashlock_match source_hashlock target_hashlock = (source_hashlock = target_hashlock)"

definition invariant_secret_matches :: "(u8 list \<Rightarrow> hash) \<Rightarrow> secret \<Rightarrow> hash \<Rightarrow> bool" where
  "invariant_secret_matches sha256 s hashlock = (sha256 (be_bytes 32 s) = hashlock)"

definition invariant_authorized_claimer :: "htlc \<Rightarrow> address \<Rightarrow> bool" where
  "invariant_authorized_claimer h claimer = (ca_address (htlc_recipient h) = claimer)"

definition invariant_sufficient_confirmations :: "u64 \<Rightarrow> u64 \<Rightarrow> (unit, cross_chain_error) outcome" where
  "invariant_sufficient_confirmations confirmations required =
     (if confirmations < required then Err (NotFinalized confirmations required) else Ok ())"

section \<open>Secrets and timelocks\<close>

definition create_hash_lock :: "(u8 list \<Rightarrow> hash) \<Rightarrow> secret \<Rightarrow> hash" where
  "create_hash_lock sha256 s = sha256 (be_bytes 32 s)"

definition constant_time_eq :: "hash \<Rightarrow> hash \<Rightarrow> bool" where
  "constant_time_eq a b = (foldl (\<lambda>result (x, y). result OR (x XOR y)) 0 (zip (be_bytes 32 a) (be_bytes 32 b)) = 0)"

definition verify_secret :: "(u8 list \<Rightarrow> hash) \<Rightarrow> secret \<Rightarrow> hash \<Rightarrow> bool" where
  "verify_secret sha256 s hash_lock = constant_time_eq (create_hash_lock sha256 s) hash_lock"

definition verify_claim :: "(u8 list \<Rightarrow> hash) \<Rightarrow> secret \<Rightarrow> hash \<Rightarrow> address \<Rightarrow> address \<Rightarrow> u64 \<Rightarrow> u64 \<Rightarrow> (unit, cross_chain_error) outcome" where
  "verify_claim sha256 s hash_lock claimer authorized_recipient now time_lock =
     (if time_lock < now then Err HTLCExpired
      else if \<not> verify_secret sha256 s hash_lock then Err InvalidSecret
      else if claimer \<noteq> authorized_recipient then Err UnauthorizedClaimer
      else Ok ())"

definition verify_refund :: "u64 \<Rightarrow> u64 \<Rightarrow> (unit, cross_chain_error) outcome" where
  "verify_refund now time_lock = (if now \<le> time_lock then Err HTLCNotExpired else Ok ())"

record atomic_swap_params =
  ap_source_chain :: chain_id
  ap_target_chain :: chain_id
  ap_initiator :: address
  ap_counterparty :: address
  ap_source_amount :: u64
  ap_target_amount :: u64
  ap_current_time :: u64

definition create_atomic_swap :: "(u8 list \<Rightarrow> hash) \<Rightarrow> secret \<Rightarrow> atomic_swap_params \<Rightarrow> atomic_swap \<times> secret" where
  "create_atomic_swap sha256 s p =
     (let hash_lock = create_hash_lock sha256 s;
          bytes = be_bytes 32 hash_lock;
          swap_id = from_be_bytes (bytes[0 := bytes ! 0 XOR 0xFF]) in
      (new_swap swap_id (ap_source_chain p) (ap_target_chain p) (ap_initiator p) (ap_counterparty p) hash_lock
         (ap_source_amount p) (ap_target_amount p) (ap_current_time p), s))"

definition validate_swap_timelocks :: "u64 \<Rightarrow> u64 \<Rightarrow> (unit, cross_chain_error) outcome" where
  "validate_swap_timelocks source_timelock target_timelock =
     invariant_timelock_ordering source_timelock target_timelock MIN_TIMELOCK_MARGIN_SECS"

text \<open>The product for the source chain is computed and not used; for no chain does it overflow.\<close>

definition calculate_timelocks :: "chain_id \<Rightarrow> chain_id \<Rightarrow> u64 \<Rightarrow> (u64 \<times> u64) option" where
  "calculate_timelocks source_chain target_chain now =
     (case checked_mul (required_confirmations source_chain) (block_time_secs source_chain) of
        None \<Rightarrow> None
      | Some _ \<Rightarrow>
     (case checked_mul (required_confirmations target_chain) (block_time_secs target_chain) of
        None \<Rightarrow> None
      | Some target_finality \<Rightarrow>
     (case checked_add now target_finality of
        None \<Rightarrow> None
      | Some t0 \<Rightarrow>
     (case checked_add t0 (6 * 3600) of
        None \<Rightarrow> None
      | Some target_timeout \<Rightarrow>
     (case checked_add target_timeout MIN_TIMELOCK_MARGIN_SECS of
        None \<Rightarrow> None
      | Some source_timeout \<Rightarrow> Some (source_timeout, target_timeout))))))"

definition is_swap_complete :: "atomic_swap \<Rightarrow> bool" where
  "is_swap_complete w = (sw_state w = SwapCompleted)"

definition is_swap_refunded :: "atomic_swap \<Rightarrow> bool" where
  "is_swap_refunded w = (sw_state w = SwapRefunded)"

section \<open>The contract that holds the funds\<close>

record htlc_deploy_params =
  dp_chain :: chain_id
  dp_hash_lock :: hash
  dp_time_lock :: u64
  dp_amount :: u64
  dp_sender :: address
  dp_recipient :: address

datatype internal_state = InLocked | InClaimed | InRefunded

fun internal_state_text :: "internal_state \<Rightarrow> string" where
  "internal_state_text InLocked = ''Locked''"
| "internal_state_text InClaimed = ''Claimed''"
| "internal_state_text InRefunded = ''Refunded''"

record htlc_data =
  hd_params :: htlc_deploy_params
  hd_state :: internal_state
  hd_claim_tx :: "hash option"

record htlc_contract =
  hc_htlcs :: "((chain_id \<times> hash) \<times> htlc_data) list"
  hc_current_time :: u64

definition new_htlc_contract :: htlc_contract where
  "new_htlc_contract = \<lparr>hc_htlcs = [], hc_current_time = 1700000000\<rparr>"

definition set_time :: "u64 \<Rightarrow> htlc_contract \<Rightarrow> htlc_contract" where
  "set_time t c = c\<lparr>hc_current_time := t\<rparr>"

definition advance_time :: "u64 \<Rightarrow> htlc_contract \<Rightarrow> htlc_contract option" where
  "advance_time secs c = map_option (\<lambda>t. c\<lparr>hc_current_time := t\<rparr>) (checked_add (hc_current_time c) secs)"



definition claim_tx_of :: "u64 \<Rightarrow> hash \<Rightarrow> hash" where
  "claim_tx_of now i = from_be_bytes (le_bytes 8 now @ take 24 (be_bytes 32 i))"

definition contract_claim :: "(u8 list \<Rightarrow> hash) \<Rightarrow> chain_id \<Rightarrow> hash \<Rightarrow> secret \<Rightarrow> htlc_contract \<Rightarrow>
    htlc_contract \<times> (unit, cross_chain_error) outcome" where
  "contract_claim sha256 ch i s c =
     (case map_of (hc_htlcs c) (ch, i) of
        None \<Rightarrow> (c, Err (HTLCNotFound i))
      | Some d \<Rightarrow>
          if hd_state d \<noteq> InLocked
          then (c, Err (InvalidHTLCTransition (internal_state_text (hd_state d)) ''Claimed''))
          else if sha256 (be_bytes 32 s) \<noteq> dp_hash_lock (hd_params d) then (c, Err InvalidSecret)
          else if dp_time_lock (hd_params d) < hc_current_time c then (c, Err HTLCExpired)
          else (c\<lparr>hc_htlcs := AList.update (ch, i)
                    (d\<lparr>hd_state := InClaimed, hd_claim_tx := Some (claim_tx_of (hc_current_time c) i)\<rparr>) (hc_htlcs c)\<rparr>, Ok ()))"

definition contract_refund :: "chain_id \<Rightarrow> hash \<Rightarrow> htlc_contract \<Rightarrow> htlc_contract \<times> (unit, cross_chain_error) outcome" where
  "contract_refund ch i c =
     (case map_of (hc_htlcs c) (ch, i) of
        None \<Rightarrow> (c, Err (HTLCNotFound i))
      | Some d \<Rightarrow>
          if hd_state d \<noteq> InLocked
          then (c, Err (InvalidHTLCTransition (internal_state_text (hd_state d)) ''Refunded''))
          else if hc_current_time c \<le> dp_time_lock (hd_params d) then (c, Err HTLCNotExpired)
          else (c\<lparr>hc_htlcs := AList.update (ch, i) (d\<lparr>hd_state := InRefunded\<rparr>) (hc_htlcs c)\<rparr>, Ok ()))"

definition get_proof :: "chain_id \<Rightarrow> hash \<Rightarrow> htlc_contract \<Rightarrow> (cross_chain_proof, cross_chain_error) outcome" where
  "get_proof ch i c =
     (case map_of (hc_htlcs c) (ch, i) of
        None \<Rightarrow> Err (HTLCNotFound i)
      | Some d \<Rightarrow>
          Ok \<lparr>cp_chain = ch, cp_block_hash = from_be_bytes (le_bytes 8 (1000 :: u64) @ replicate 24 0), cp_block_height = 1000,
              cp_tx_hash = (case hd_claim_tx d of Some tx \<Rightarrow> tx | None \<Rightarrow> i),
              cp_merkle_proof = [from_be_bytes (replicate 32 1), from_be_bytes (replicate 32 2)], cp_confirmations = 10\<rparr>)"

section \<open>Finality checker\<close>

type_synonym finality_checker = "(chain_id \<times> u64) list"

definition new_finality_checker :: finality_checker where
  "new_finality_checker = []"

definition with_custom :: "chain_id \<Rightarrow> u64 \<Rightarrow> finality_checker \<Rightarrow> finality_checker" where
  "with_custom ch n f = AList.update ch n f"

definition for_testing :: finality_checker where
  "for_testing =
     with_custom Arbitrum 1 (with_custom Polygon 2 (with_custom Bitcoin 2 (with_custom Ethereum 2 (with_custom QuantumChain 2 new_finality_checker))))"

definition checker_confirmations :: "chain_id \<Rightarrow> finality_checker \<Rightarrow> u64" where
  "checker_confirmations ch f = (case map_of f ch of Some n \<Rightarrow> n | None \<Rightarrow> required_confirmations ch)"

definition is_proof_final :: "cross_chain_proof \<Rightarrow> finality_checker \<Rightarrow> bool" where
  "is_proof_final p f = (checker_confirmations (cp_chain p) f \<le> cp_confirmations p)"

section \<open>Chain client\<close>

record chain_block_header =
  cbh_hash :: hash
  cbh_height :: u64
  cbh_parent_hash :: hash
  cbh_timestamp :: u64

record chain_client =
  cl_headers :: "(chain_id \<times> (u64 \<times> chain_block_header) list) list"
  cl_heights :: "(chain_id \<times> u64) list"

definition new_chain_client :: chain_client where
  "new_chain_client = \<lparr>cl_headers = [], cl_heights = []\<rparr>"

definition client_get_height :: "chain_id \<Rightarrow> chain_client \<Rightarrow> (u64, cross_chain_error) outcome" where
  "client_get_height ch c =
     (case map_of (cl_heights c) ch of Some n \<Rightarrow> Ok n | None \<Rightarrow> Err (UnsupportedChain (chain_text ch)))"

definition client_get_header :: "chain_id \<Rightarrow> u64 \<Rightarrow> chain_client \<Rightarrow> (chain_block_header, cross_chain_error) outcome" where
  "client_get_header ch height c =
     (case map_of (cl_headers c) ch of
        None \<Rightarrow> Err (UnsupportedChain (chain_text ch))
      | Some headers \<Rightarrow> (case map_of headers height of Some h \<Rightarrow> Ok h | None \<Rightarrow> Err (NotFinalized 0 1)))"

definition client_verify_proof :: "chain_id \<Rightarrow> cross_chain_proof \<Rightarrow> chain_client \<Rightarrow> (bool, cross_chain_error) outcome" where
  "client_verify_proof ch p c =
     (if cp_chain p \<noteq> ch then Ok False
      else case map_of (cl_headers c) ch of
        None \<Rightarrow> Err (UnsupportedChain (chain_text ch))
      | Some headers \<Rightarrow>
          (case map_of headers (cp_block_height p) of
             None \<Rightarrow> Ok False
           | Some h \<Rightarrow>
               if cbh_hash h \<noteq> cp_block_hash p then Ok False
               else if cp_merkle_proof p = [] then Ok False
               else Ok True))"

definition client_is_finalized :: "chain_id \<Rightarrow> hash \<Rightarrow> chain_client \<Rightarrow> (bool, cross_chain_error) outcome" where
  "client_is_finalized ch block_hash c =
     (case client_get_height ch c of
        Err e \<Rightarrow> Err e
      | Panic \<Rightarrow> Panic
      | Ok current \<Rightarrow>
          (case map_of (cl_headers c) ch of
             None \<Rightarrow> Err (UnsupportedChain (chain_text ch))
           | Some headers \<Rightarrow>
               (case List.find (\<lambda>(_, h). cbh_hash h = block_hash) headers of
                  None \<Rightarrow> Ok False
                | Some (height, _) \<Rightarrow> Ok (required_confirmations ch \<le> saturating_sub current height))))"

section \<open>Secrets\<close>

lemma xor_eq_0: "x XOR y = 0 \<longleftrightarrow> x = y" for x y :: "'a::len word"
  by (metis xor.right_neutral xor_self_eq xor.assoc xor.left_neutral)

lemma fold_difference_0:
  fixes xs ys :: "'a::len word list"
  assumes "length xs = length ys"
  shows "foldl (\<lambda>r (x, y). r OR (x XOR y)) r (zip xs ys) = 0 \<longleftrightarrow> r = 0 \<and> xs = ys"
  using assms by (induction xs ys arbitrary: r rule: list_induct2) (auto simp: or_eq_0_iff xor_eq_0)

lemma constant_time_eq_iff: "constant_time_eq a b \<longleftrightarrow> a = b"
  by (simp add: constant_time_eq_def fold_difference_0 be_bytes_eq_iff)

lemma verify_claim_iff:
  "verify_claim sha256 s l claimer recipient now time_lock = Ok () \<longleftrightarrow>
     now \<le> time_lock \<and> create_hash_lock sha256 s = l \<and> claimer = recipient"
  by (auto simp: verify_claim_def verify_secret_def constant_time_eq_iff)

section \<open>The interface of the contract\<close>

text \<open>
  What a swap relies on. \<open>lock_of c k\<close> is the hash lock and the time lock of the contract \<open>k\<close> while it
  holds funds. A claim succeeds exactly with the secret and in time, a refund exactly after it,
  and each of them releases the funds of the contract it names and of no other.
\<close>

locale htlc_ledger =
  fixes lock_of :: "'c \<Rightarrow> 'k \<Rightarrow> (hash \<times> u64) option"
    and clock :: "'c \<Rightarrow> u64"
    and wait_until :: "u64 \<Rightarrow> 'c \<Rightarrow> 'c"
    and claim :: "'k \<Rightarrow> secret \<Rightarrow> 'c \<Rightarrow> 'c"
    and claims :: "'k \<Rightarrow> secret \<Rightarrow> 'c \<Rightarrow> bool"
    and refund :: "'k \<Rightarrow> 'c \<Rightarrow> 'c"
    and refunds :: "'k \<Rightarrow> 'c \<Rightarrow> bool"
    and opens :: "secret \<Rightarrow> hash \<Rightarrow> bool"
  assumes claims_iff: "claims k s c \<longleftrightarrow> (\<exists>l t. lock_of c k = Some (l, t) \<and> opens s l \<and> clock c \<le> t)"
    and refunds_iff: "refunds k c \<longleftrightarrow> (\<exists>l t. lock_of c k = Some (l, t) \<and> t < clock c)"
    and lock_claim: "lock_of (claim k s c) k' = (if k' = k \<and> claims k s c then None else lock_of c k')"
    and lock_refund: "lock_of (refund k c) k' = (if k' = k \<and> refunds k c then None else lock_of c k')"
    and lock_wait: "lock_of (wait_until t c) k = lock_of c k"
    and clock_wait: "clock (wait_until t c) = t"
begin

lemma never_both: "\<not> (claims k s c \<and> refunds k c)"
  by (auto simp: claims_iff refunds_iff)

lemma settled_stays:
  assumes "lock_of c k = None"
  shows "\<not> claims k s c" and "\<not> refunds k c" and "lock_of (claim k' s c) k = None" and "lock_of (refund k' c) k = None"
  using assms by (auto simp: claims_iff refunds_iff lock_claim lock_refund)

lemma refund_after_expiry:
  assumes "lock_of c k = Some (l, t)" and "t < t'"
  shows "refunds k (wait_until t' c)"
  using assms by (simp add: refunds_iff lock_wait clock_wait)

lemma second_leg:
  assumes source: "lock_of c ks = Some (l, ts)" and target: "lock_of c kt = Some (l, tt)" and "ks \<noteq> kt"
    and first: "claims kt s c" and "t \<le> ts"
  shows "claims ks s (wait_until t (claim kt s c))"
proof -
  have "opens s l" using first target by (auto simp: claims_iff)
  then show ?thesis using assms by (simp add: claims_iff lock_wait clock_wait lock_claim)
qed

end

definition lock_of :: "htlc_contract \<Rightarrow> chain_id \<times> hash \<Rightarrow> (hash \<times> u64) option" where
  "lock_of c k =
     (case map_of (hc_htlcs c) k of
        Some d \<Rightarrow> if hd_state d = InLocked then Some (dp_hash_lock (hd_params d), dp_time_lock (hd_params d)) else None
      | None \<Rightarrow> None)"

definition claim_succeeds :: "(u8 list \<Rightarrow> hash) \<Rightarrow> chain_id \<times> hash \<Rightarrow> secret \<Rightarrow> htlc_contract \<Rightarrow> bool" where
  "claim_succeeds sha256 k s c = (snd (contract_claim sha256 (fst k) (snd k) s c) = Ok ())"

definition refund_succeeds :: "chain_id \<times> hash \<Rightarrow> htlc_contract \<Rightarrow> bool" where
  "refund_succeeds k c = (snd (contract_refund (fst k) (snd k) c) = Ok ())"

lemmas contract_defs = lock_of_def claim_succeeds_def refund_succeeds_def contract_claim_def contract_refund_def

lemma claim_succeeds_iff:
  "claim_succeeds sha256 k s c \<longleftrightarrow>
     (\<exists>l t. lock_of c k = Some (l, t) \<and> sha256 (be_bytes 32 s) = l \<and> hc_current_time c \<le> t)"
  by (cases k) (auto simp: contract_defs split: option.splits)

lemma refund_succeeds_iff:
  "refund_succeeds k c \<longleftrightarrow> (\<exists>l t. lock_of c k = Some (l, t) \<and> t < hc_current_time c)"
  by (cases k) (auto simp: contract_defs split: option.splits)

lemma lock_contract_claim:
  "lock_of (fst (contract_claim sha256 (fst k) (snd k) s c)) k' = (if k' = k \<and> claim_succeeds sha256 k s c then None else lock_of c k')"
  by (cases k; cases k') (auto simp: contract_defs update_conv split: option.splits)

lemma lock_contract_refund:
  "lock_of (fst (contract_refund (fst k) (snd k) c)) k' = (if k' = k \<and> refund_succeeds k c then None else lock_of c k')"
  by (cases k; cases k') (auto simp: contract_defs update_conv split: option.splits)

interpretation memory: htlc_ledger lock_of hc_current_time set_time
  "\<lambda>k s c. fst (contract_claim sha256 (fst k) (snd k) s c)" "claim_succeeds sha256"
  "\<lambda>k c. fst (contract_refund (fst k) (snd k) c)" refund_succeeds "\<lambda>s l. sha256 (be_bytes 32 s) = l" for sha256
  by unfold_locales
    (auto simp: claim_succeeds_iff refund_succeeds_iff lock_contract_claim lock_contract_refund, auto simp: set_time_def lock_of_def)

section \<open>Runs of the contract\<close>






section \<open>Timelocks\<close>

lemma valid_timelocks:
  assumes "validate_swap_timelocks ts tt = Ok ()"
  shows "unat tt + 21600 < unat ts"
  using assms
  by (auto simp: validate_swap_timelocks_def invariant_timelock_ordering_def MIN_TIMELOCK_MARGIN_SECS_def checked_add_def
    word_less_nat_alt word_le_nat_alt unat_add_no_overflow split: if_splits)

lemma finality_products: "checked_mul (required_confirmations ch) (block_time_secs ch) \<noteq> None"
  by (cases ch) (simp_all add: checked_mul_def)

section \<open>Properties\<close>

text \<open>
  C25. A swap is atomic. Both contracts of a swap hold funds under one hash lock and their time locks pass
  \<open>validate_swap_timelocks\<close>. If the target contract can be claimed with a secret, then for the six
  hours after its time lock the source contract can still be claimed with that same secret, so
  who reveals the secret does not take both sides; and if nobody claims, both parties get their
  funds back once the source time lock is over.
\<close>

theorem swap_is_atomic:
  assumes source: "map_of (hc_htlcs c) (cs, is) = Some ds" "hd_state ds = InLocked"
    and target: "map_of (hc_htlcs c) (ct, it) = Some dt" "hd_state dt = InLocked"
    and two: "(cs, is) \<noteq> (ct, it)" and lock: "invariant_hashlock_match (dp_hash_lock (hd_params ds)) (dp_hash_lock (hd_params dt))"
    and locks: "validate_swap_timelocks (dp_time_lock (hd_params ds)) (dp_time_lock (hd_params dt)) = Ok ()"
  shows "(snd (contract_claim sha256 ct it s c) = Ok () \<and> unat t \<le> unat (dp_time_lock (hd_params dt)) + 21600 \<longrightarrow>
      snd (contract_claim sha256 cs is s (set_time t (fst (contract_claim sha256 ct it s c)))) = Ok ()) \<and>
    (dp_time_lock (hd_params ds) < t' \<longrightarrow>
      snd (contract_refund ct it (set_time t' c)) = Ok () \<and>
      snd (contract_refund cs is (fst (contract_refund ct it (set_time t' c)))) = Ok ())"
proof (intro conjI impI)
  let ?l = "dp_hash_lock (hd_params ds)" and ?ts = "dp_time_lock (hd_params ds)" and ?tt = "dp_time_lock (hd_params dt)"
  have ls: "lock_of c (cs, is) = Some (?l, ?ts)" and lt: "lock_of c (ct, it) = Some (?l, ?tt)"
    using source target lock by (simp_all add: lock_of_def invariant_hashlock_match_def)
  note margin = valid_timelocks [OF locks]
  {
    assume a: "snd (contract_claim sha256 ct it s c) = Ok () \<and> unat t \<le> unat ?tt + 21600"
    then have "t \<le> ?ts" using margin by (simp add: word_le_nat_alt)
    moreover have "claim_succeeds sha256 (ct, it) s c" using a by (simp add: claim_succeeds_def)
    ultimately have "claim_succeeds sha256 (cs, is) s (set_time t (fst (contract_claim sha256 ct it s c)))"
      using memory.second_leg [OF ls lt two] by fastforce
    then
    show "snd (contract_claim sha256 cs is s (set_time t (fst (contract_claim sha256 ct it s c)))) = Ok ()"
      by (simp add: claim_succeeds_def)
  }
  assume late: "?ts < t'"
  then have "?tt < t'" using margin by (simp add: word_less_nat_alt)
  from memory.refund_after_expiry [OF lt this] show "snd (contract_refund ct it (set_time t' c)) = Ok ()"
    by (simp add: refund_succeeds_def)
  have "lock_of (fst (contract_refund ct it (set_time t' c))) (cs, is) = Some (?l, ?ts)"
    using two ls memory.lock_refund [of "(ct, it)" "set_time t' c" "(cs, is)"] by (auto simp: memory.lock_wait)
  moreover have "hc_current_time (fst (contract_refund ct it (set_time t' c))) = t'"
    by (auto simp: contract_refund_def set_time_def split: option.splits)
  ultimately show "snd (contract_refund cs is (fst (contract_refund ct it (set_time t' c)))) = Ok ()"
    using late refund_succeeds_iff [of "(cs, is)"] by (simp add: refund_succeeds_def)
qed

definition sample_deposit :: "chain_id \<Rightarrow> u64 \<Rightarrow> htlc_deploy_params" where
  "sample_deposit ch t = \<lparr>dp_chain = ch, dp_hash_lock = 7, dp_time_lock = t, dp_amount = 5, dp_sender = 1, dp_recipient = 2\<rparr>"

definition locked_deposit :: "chain_id \<Rightarrow> u64 \<Rightarrow> htlc_data" where
  "locked_deposit ch t = \<lparr>hd_params = sample_deposit ch t, hd_state = InLocked, hd_claim_tx = None\<rparr>"

definition sample_ledger :: htlc_contract where
  "sample_ledger = \<lparr>hc_htlcs = [((Bitcoin, 1), locked_deposit Bitcoin 100000), ((Ethereum, 2), locked_deposit Ethereum 50000)], hc_current_time = 40000\<rparr>"

theorem swap_is_atomic_witness:
  "snd (contract_claim (\<lambda>_. 7) Bitcoin 1 9 (set_time 70000 (fst (contract_claim (\<lambda>_. 7) Ethereum 2 9 sample_ledger)))) = Ok () \<and>
   snd (contract_refund Bitcoin 1 (fst (contract_refund Ethereum 2 (set_time 100001 sample_ledger)))) = Ok ()"
  using swap_is_atomic [of sample_ledger Bitcoin 1 "locked_deposit Bitcoin 100000" Ethereum 2 "locked_deposit Ethereum 50000" "\<lambda>_. 7" 9 70000 100001]
  by (simp add: sample_ledger_def locked_deposit_def sample_deposit_def invariant_hashlock_match_def validate_swap_timelocks_def
    invariant_timelock_ordering_def MIN_TIMELOCK_MARGIN_SECS_def checked_add_def contract_claim_def)



text \<open>
  The recommended time locks are refused. For every pair of chains and every time, the pair that
  \<open>calculate_timelocks\<close> returns has exactly the margin that \<open>validate_swap_timelocks\<close> demands
  to be exceeded, so the validation fails on it.
\<close>

theorem recommended_timelocks_refused:
  assumes "calculate_timelocks source_chain target_chain now = Some (ts, tt)"
  shows "validate_swap_timelocks ts tt = Err (InvalidTimelockMargin ts tt 21600)"
  using assms
  by (auto simp: calculate_timelocks_def validate_swap_timelocks_def invariant_timelock_ordering_def MIN_TIMELOCK_MARGIN_SECS_def
    split: option.splits)

theorem recommended_timelocks_refused_witness:
  "\<exists>ts tt. calculate_timelocks Bitcoin Ethereum 1000 = Some (ts, tt) \<and> validate_swap_timelocks ts tt \<noteq> Ok ()"
  using recommended_timelocks_refused [of Bitcoin Ethereum 1000]
  by (simp add: calculate_timelocks_def checked_mul_def checked_add_def MIN_TIMELOCK_MARGIN_SECS_def)

text \<open>
  A swap record can be paid out twice. \<open>HTLC::claim\<close> looks at the time only: it takes any secret, in any
  state, and a claimed HTLC is refunded after its time lock as if it had not been claimed, although
  \<open>can_refund\<close> says no.
\<close>

theorem claimed_htlc_is_refunded:
  assumes "now \<le> htlc_time_lock h" and "htlc_time_lock h < later"
  shows "\<exists>h1 h2. htlc_claim s now h = (h1, Ok ()) \<and> \<not> can_refund later h1 \<and> htlc_refund later h1 = (h2, Ok ()) \<and> htlc_status h2 = HtlcRefunded"
  using assms by (simp add: htlc_claim_def htlc_refund_def htlc_is_expired_def can_refund_def not_less)

theorem claimed_htlc_is_refunded_witness:
  "\<exists>h1 h2. htlc_claim 0 5 (new_htlc \<lparr>hp_id = 1, hp_hash_lock = 7, hp_time_lock = 10, hp_amount = 3, hp_sender = \<lparr>ca_chain = Bitcoin, ca_address = 1\<rparr>,
       hp_recipient = \<lparr>ca_chain = Bitcoin, ca_address = 2\<rparr>, hp_created_at = 0\<rparr>) = (h1, Ok ()) \<and> htlc_refund 11 h1 = (h2, Ok ())"
  using claimed_htlc_is_refunded [of 5 "new_htlc \<lparr>hp_id = 1, hp_hash_lock = 7, hp_time_lock = 10, hp_amount = 3, hp_sender = \<lparr>ca_chain = Bitcoin, ca_address = 1\<rparr>,
       hp_recipient = \<lparr>ca_chain = Bitcoin, ca_address = 2\<rparr>, hp_created_at = 0\<rparr>" 11 0]
  by (auto simp: new_htlc_def)

end
