(* ===== verification/Evm.thy ===== *)
theory Evm
  imports Containers SharedTypes
begin

unbundle bit_operations_syntax

text \<open>
  The virtual machine of the smart contract subsystem: \<^verbatim>\<open>qc-11-smart-contracts/src/evm\<close> with the
  entities of \<^verbatim>\<open>domain/entities.rs\<close> and the errors of \<^verbatim>\<open>errors.rs\<close>.

  An opcode is a constructor of the family that \<open>execute_opcode\<close> dispatches to, so that the arms
  marked \<open>unreachable\<close> in the source do not arise; \<open>OpPush n\<close>, \<open>OpDup n\<close>, \<open>OpSwap n\<close> and
  \<open>OpLog n\<close> stand for the numbered opcodes. The stack is a list with its top at the head, the
  memory a list of bytes, the program counter and all sizes are natural numbers; a \<open>usize\<close> that
  would pass \<open>2\<^sup>64\<close> is a panic, as is a conversion of a larger 256-bit number to \<open>usize\<close> and overflow
  of \<open>u64\<close> and \<open>U256\<close> arithmetic. The state of the chain and the access list are reached through the
  ports in \<open>vm_ports\<close>; Keccak-256 is one of them. Every step returns the machine it leaves behind,
  also when it fails.
\<close>

section \<open>Opcodes\<close>

datatype arithmetic_op =
  OpAdd | OpMul | OpSub | OpDiv | OpSDiv | OpMod | OpSMod | OpAddMod | OpMulMod | OpExp | OpSignExtend

datatype comparison_op = OpLt | OpGt | OpSLt | OpSGt | OpEq | OpIsZero

datatype bitwise_op = OpAnd | OpOr | OpXor | OpNot | OpByte | OpShl | OpShr | OpSar

datatype environmental_op =
  OpAddress | OpBalance | OpOrigin | OpCaller | OpCallValue | OpCallDataLoad | OpCallDataSize | OpCallDataCopy |
  OpCodeSize | OpCodeCopy | OpGasPrice | OpExtCodeSize | OpExtCodeCopy | OpReturnDataSize | OpReturnDataCopy | OpExtCodeHash

datatype block_op =
  OpBlockHash | OpCoinbase | OpTimestamp | OpNumber | OpPrevRandao | OpGasLimit | OpChainId | OpSelfBalance | OpBaseFee

datatype memory_op = OpMLoad | OpMStore | OpMStore8 | OpMSize | OpMCopy

datatype storage_op = OpSLoad | OpSStore | OpTLoad | OpTStore

datatype flow_op = OpJump | OpJumpI | OpPc | OpJumpDest

datatype stack_op = OpPop | OpGas | OpPush nat | OpDup nat | OpSwap nat

datatype system_op =
  OpCreate | OpCall | OpCallCode | OpReturn | OpDelegateCall | OpCreate2 | OpStaticCall | OpRevert | OpInvalid |
  OpSelfDestruct | OpStop

datatype opcode =
    Arithmetic arithmetic_op
  | Comparison comparison_op
  | Bitwise bitwise_op
  | OpKeccak256
  | Environmental environmental_op
  | BlockInfo block_op
  | MemoryOp memory_op
  | StorageOp storage_op
  | Flow flow_op
  | StackOp stack_op
  | OpLog nat
  | System system_op

definition opcode_table :: "(u8 \<times> opcode) list" where
  "opcode_table =
     [(0x00, System OpStop), (0x01, Arithmetic OpAdd), (0x02, Arithmetic OpMul), (0x03, Arithmetic OpSub),
      (0x04, Arithmetic OpDiv), (0x05, Arithmetic OpSDiv), (0x06, Arithmetic OpMod), (0x07, Arithmetic OpSMod),
      (0x08, Arithmetic OpAddMod), (0x09, Arithmetic OpMulMod), (0x0A, Arithmetic OpExp), (0x0B, Arithmetic OpSignExtend),
      (0x10, Comparison OpLt), (0x11, Comparison OpGt), (0x12, Comparison OpSLt), (0x13, Comparison OpSGt),
      (0x14, Comparison OpEq), (0x15, Comparison OpIsZero), (0x16, Bitwise OpAnd), (0x17, Bitwise OpOr),
      (0x18, Bitwise OpXor), (0x19, Bitwise OpNot), (0x1A, Bitwise OpByte), (0x1B, Bitwise OpShl),
      (0x1C, Bitwise OpShr), (0x1D, Bitwise OpSar), (0x20, OpKeccak256),
      (0x30, Environmental OpAddress), (0x31, Environmental OpBalance), (0x32, Environmental OpOrigin),
      (0x33, Environmental OpCaller), (0x34, Environmental OpCallValue), (0x35, Environmental OpCallDataLoad),
      (0x36, Environmental OpCallDataSize), (0x37, Environmental OpCallDataCopy), (0x38, Environmental OpCodeSize),
      (0x39, Environmental OpCodeCopy), (0x3A, Environmental OpGasPrice), (0x3B, Environmental OpExtCodeSize),
      (0x3C, Environmental OpExtCodeCopy), (0x3D, Environmental OpReturnDataSize), (0x3E, Environmental OpReturnDataCopy),
      (0x3F, Environmental OpExtCodeHash),
      (0x40, BlockInfo OpBlockHash), (0x41, BlockInfo OpCoinbase), (0x42, BlockInfo OpTimestamp), (0x43, BlockInfo OpNumber),
      (0x44, BlockInfo OpPrevRandao), (0x45, BlockInfo OpGasLimit), (0x46, BlockInfo OpChainId),
      (0x47, BlockInfo OpSelfBalance), (0x48, BlockInfo OpBaseFee),
      (0x50, StackOp OpPop), (0x51, MemoryOp OpMLoad), (0x52, MemoryOp OpMStore), (0x53, MemoryOp OpMStore8),
      (0x54, StorageOp OpSLoad), (0x55, StorageOp OpSStore), (0x56, Flow OpJump), (0x57, Flow OpJumpI), (0x58, Flow OpPc),
      (0x59, MemoryOp OpMSize), (0x5A, StackOp OpGas), (0x5B, Flow OpJumpDest), (0x5C, StorageOp OpTLoad),
      (0x5D, StorageOp OpTStore), (0x5E, MemoryOp OpMCopy), (0x5F, StackOp (OpPush 0)),
      (0xA0, OpLog 0), (0xA1, OpLog 1), (0xA2, OpLog 2), (0xA3, OpLog 3), (0xA4, OpLog 4),
      (0xF0, System OpCreate), (0xF1, System OpCall), (0xF2, System OpCallCode), (0xF3, System OpReturn),
      (0xF4, System OpDelegateCall), (0xF5, System OpCreate2), (0xFA, System OpStaticCall), (0xFD, System OpRevert),
      (0xFE, System OpInvalid), (0xFF, System OpSelfDestruct)]"

definition from_byte :: "u8 \<Rightarrow> opcode option" where
  "from_byte b =
     (if 0x60 \<le> b \<and> b \<le> 0x7F then Some (StackOp (OpPush (unat (b - 0x60) + 1)))
      else if 0x80 \<le> b \<and> b \<le> 0x8F then Some (StackOp (OpDup (unat (b - 0x80) + 1)))
      else if 0x90 \<le> b \<and> b \<le> 0x9F then Some (StackOp (OpSwap (unat (b - 0x90) + 1)))
      else map_of opcode_table b)"

definition opcode_byte :: "opcode \<Rightarrow> u8" where
  "opcode_byte op =
     (case op of
        StackOp (OpPush n) \<Rightarrow> 0x5F + of_nat n
      | StackOp (OpDup n) \<Rightarrow> 0x7F + of_nat n
      | StackOp (OpSwap n) \<Rightarrow> 0x8F + of_nat n
      | OpLog n \<Rightarrow> 0xA0 + of_nat n
      | _ \<Rightarrow> (case List.find (\<lambda>(_, op'). op' = op) opcode_table of Some (b, _) \<Rightarrow> b | None \<Rightarrow> 0xFE))"

fun push_size :: "opcode \<Rightarrow> usize option" where
  "push_size (StackOp (OpPush n)) = Some n"
| "push_size _ = None"

fun is_terminating :: "opcode \<Rightarrow> bool" where
  "is_terminating (System op) = (op \<in> {OpStop, OpReturn, OpRevert, OpInvalid, OpSelfDestruct})"
| "is_terminating _ = False"

fun is_push :: "opcode \<Rightarrow> bool" where
  "is_push (StackOp (OpPush n)) = True"
| "is_push _ = False"

fun is_state_modifying :: "opcode \<Rightarrow> bool" where
  "is_state_modifying (StorageOp op) = (op \<in> {OpSStore, OpTStore})"
| "is_state_modifying (OpLog n) = True"
| "is_state_modifying (System op) = (op \<in> {OpCreate, OpCreate2, OpCall, OpCallCode, OpDelegateCall, OpSelfDestruct})"
| "is_state_modifying _ = False"

section \<open>Gas\<close>

definition COST_BASE :: u64 where "COST_BASE = 2"
definition COST_VERY_LOW :: u64 where "COST_VERY_LOW = 3"
definition COST_LOW :: u64 where "COST_LOW = 5"
definition COST_MID :: u64 where "COST_MID = 8"
definition COST_HIGH :: u64 where "COST_HIGH = 10"
definition COST_JUMPDEST :: u64 where "COST_JUMPDEST = 1"
definition COST_COPY :: u64 where "COST_COPY = 3"
definition COLD_SLOAD :: u64 where "COLD_SLOAD = 2100"
definition WARM_SLOAD :: u64 where "WARM_SLOAD = 100"
definition COLD_ACCOUNT_ACCESS :: u64 where "COLD_ACCOUNT_ACCESS = 2600"
definition WARM_ACCOUNT_ACCESS :: u64 where "WARM_ACCOUNT_ACCESS = 100"
definition SSTORE_SET :: u64 where "SSTORE_SET = 20000"
definition CALL_VALUE :: u64 where "CALL_VALUE = 9000"
definition CALL_NEW_ACCOUNT :: u64 where "CALL_NEW_ACCOUNT = 25000"
definition CALL_STIPEND :: u64 where "CALL_STIPEND = 2300"
definition COST_CREATE :: u64 where "COST_CREATE = 32000"
definition KECCAK256_WORD :: u64 where "KECCAK256_WORD = 6"
definition COST_LOG :: u64 where "COST_LOG = 375"
definition LOG_TOPIC :: u64 where "LOG_TOPIC = 375"
definition LOG_DATA :: u64 where "LOG_DATA = 8"
definition COST_KECCAK256 :: u64 where "COST_KECCAK256 = 30"
definition COST_EXP :: u64 where "COST_EXP = 10"
definition EXP_BYTE :: u64 where "EXP_BYTE = 50"
definition COST_SELFDESTRUCT :: u64 where "COST_SELFDESTRUCT = 5000"
definition BALANCE_COLD :: u64 where "BALANCE_COLD = 2600"
definition BALANCE_WARM :: u64 where "BALANCE_WARM = 100"
definition COST_BLOCKHASH :: u64 where "COST_BLOCKHASH = 20"

lemmas cost_defs = COST_BASE_def COST_VERY_LOW_def COST_LOW_def COST_MID_def COST_HIGH_def COST_JUMPDEST_def COST_COPY_def
  COLD_SLOAD_def WARM_SLOAD_def COLD_ACCOUNT_ACCESS_def WARM_ACCOUNT_ACCESS_def SSTORE_SET_def CALL_VALUE_def
  CALL_NEW_ACCOUNT_def CALL_STIPEND_def COST_CREATE_def KECCAK256_WORD_def COST_LOG_def LOG_TOPIC_def LOG_DATA_def
  COST_KECCAK256_def COST_EXP_def EXP_BYTE_def COST_SELFDESTRUCT_def BALANCE_COLD_def BALANCE_WARM_def COST_BLOCKHASH_def

definition gas_table :: "(u8 \<times> u64) list" where
  "gas_table =
     [(0x01, COST_VERY_LOW), (0x02, COST_LOW), (0x03, COST_VERY_LOW), (0x04, COST_LOW), (0x05, COST_LOW), (0x06, COST_LOW),
      (0x07, COST_LOW), (0x08, COST_MID), (0x09, COST_MID), (0x0A, COST_EXP), (0x0B, COST_LOW),
      (0x10, COST_VERY_LOW), (0x11, COST_VERY_LOW), (0x12, COST_VERY_LOW), (0x13, COST_VERY_LOW), (0x14, COST_VERY_LOW),
      (0x15, COST_VERY_LOW), (0x16, COST_VERY_LOW), (0x17, COST_VERY_LOW), (0x18, COST_VERY_LOW), (0x19, COST_VERY_LOW),
      (0x1A, COST_VERY_LOW), (0x1B, COST_VERY_LOW), (0x1C, COST_VERY_LOW), (0x1D, COST_VERY_LOW),
      (0x20, COST_KECCAK256),
      (0x30, COST_BASE), (0x31, 0), (0x32, COST_BASE), (0x33, COST_BASE), (0x34, COST_BASE), (0x35, COST_VERY_LOW),
      (0x36, COST_BASE), (0x37, COST_VERY_LOW), (0x38, COST_BASE), (0x39, COST_VERY_LOW), (0x3A, COST_BASE), (0x3B, 0),
      (0x3C, 0), (0x3D, COST_BASE), (0x3E, COST_VERY_LOW), (0x3F, 0),
      (0x40, COST_BLOCKHASH), (0x41, COST_BASE), (0x42, COST_BASE), (0x43, COST_BASE), (0x44, COST_BASE), (0x45, COST_BASE),
      (0x46, COST_BASE), (0x47, COST_LOW), (0x48, COST_BASE),
      (0x50, COST_BASE), (0x51, COST_VERY_LOW), (0x52, COST_VERY_LOW), (0x53, COST_VERY_LOW), (0x54, 0), (0x55, 0),
      (0x56, COST_MID), (0x57, COST_HIGH), (0x58, COST_BASE), (0x59, COST_BASE), (0x5A, COST_BASE), (0x5B, COST_JUMPDEST),
      (0x5C, WARM_SLOAD), (0x5D, WARM_SLOAD), (0x5E, COST_VERY_LOW), (0x5F, COST_BASE),
      (0xA0, COST_LOG), (0xA1, COST_LOG), (0xA2, COST_LOG), (0xA3, COST_LOG), (0xA4, COST_LOG),
      (0xF0, COST_CREATE), (0xF5, COST_CREATE), (0xFF, COST_SELFDESTRUCT)]"

definition OPCODE_GAS :: "u8 \<Rightarrow> u64" where
  "OPCODE_GAS b =
     (if 0x60 \<le> b \<and> b \<le> 0x9F then COST_VERY_LOW else case map_of gas_table b of Some g \<Rightarrow> g | None \<Rightarrow> 0)"

definition div_ceil :: "usize \<Rightarrow> usize \<Rightarrow> usize" where
  "div_ceil a b = (a + b - 1) div b"

definition bit_length :: "u256 \<Rightarrow> nat" where
  "bit_length w = length (dropWhile (\<lambda>i. \<not> bit w i) (rev [0..<256]))"

definition exp_gas_cost :: "u256 \<Rightarrow> u64" where
  "exp_gas_cost exponent = (if exponent = 0 then COST_EXP else COST_EXP + EXP_BYTE * of_nat (div_ceil (bit_length exponent) 8))"

definition keccak256_gas_cost :: "usize \<Rightarrow> u64" where
  "keccak256_gas_cost data_size = COST_KECCAK256 + KECCAK256_WORD * of_nat (div_ceil data_size 32)"

definition log_gas_cost :: "usize \<Rightarrow> usize \<Rightarrow> u64 option" where
  "log_gas_cost data_size topic_count =
     (let cost = 375 + 375 * topic_count + 8 * data_size in if cost < 2 ^ 64 then Some (of_nat cost) else None)"

definition copy_gas_cost :: "usize \<Rightarrow> u64" where
  "copy_gas_cost n = COST_COPY * of_nat (div_ceil n 32)"

definition create_gas_cost :: "usize \<Rightarrow> u64" where
  "create_gas_cost init_code_size = COST_CREATE + KECCAK256_WORD * of_nat (div_ceil init_code_size 32)"

record call_gas_params =
  cg_is_cold :: bool
  cg_has_value :: bool
  cg_is_empty :: bool

definition call_gas_cost :: "call_gas_params \<Rightarrow> u64" where
  "call_gas_cost p =
     (if cg_is_cold p then COLD_ACCOUNT_ACCESS else WARM_ACCOUNT_ACCESS) +
     (if cg_has_value p then CALL_VALUE + (if cg_is_empty p then CALL_NEW_ACCOUNT else 0) else 0)"

definition calculate_call_gas :: "u64 \<Rightarrow> u64 \<Rightarrow> bool \<Rightarrow> u64" where
  "calculate_call_gas available_gas requested_gas has_value =
     (let gas = min requested_gas (available_gas - available_gas div 64) in
      if has_value then saturating_add gas CALL_STIPEND else gas)"

definition calculate_refund :: "u64 \<Rightarrow> u64 \<Rightarrow> u64" where
  "calculate_refund gas_used refund = min refund (gas_used div 2)"

section \<open>Errors\<close>

datatype evm_state_error =
    EvmNotFound address
  | EvmCorrupted
  | EvmStateTimeout
  | EvmAccessDenied
  | EvmUnavailable
  | EvmInvalidStateRoot
  | EvmOther string

datatype vm_error =
    OutOfGas
  | StackOverflow
  | StackUnderflow
  | InvalidOpcode u8
  | InvalidJump usize
  | CallDepthExceeded u16 u16
  | CodeSizeExceeded usize usize
  | InitCodeSizeExceeded usize usize
  | WriteInStaticContext
  | VmInsufficientBalance u256 u256
  | VmStateError evm_state_error
  | Revert string
  | MemoryOutOfBounds usize usize
  | MemoryLimitExceeded usize usize
  | ReturnDataOutOfBounds usize usize usize
  | ContractAlreadyExists address
  | InvalidContractCreation
  | InvalidCodePrefix
  | VmTimeout u64 u64
  | Internal string

fun is_recoverable :: "vm_error \<Rightarrow> bool" where
  "is_recoverable (Revert _) = True"
| "is_recoverable _ = False"

definition consumes_all_gas :: "vm_error \<Rightarrow> bool" where
  "consumes_all_gas e = (\<not> is_recoverable e)"

section \<open>Stack\<close>

definition MAX_STACK_SIZE :: usize where "MAX_STACK_SIZE = 1024"

definition stack_push :: "u256 \<Rightarrow> u256 list \<Rightarrow> (u256 list, vm_error) outcome" where
  "stack_push v st = (if MAX_STACK_SIZE \<le> length st then Err StackOverflow else Ok (v # st))"

fun stack_pop :: "u256 list \<Rightarrow> (u256 \<times> u256 list, vm_error) outcome" where
  "stack_pop [] = Err StackUnderflow"
| "stack_pop (v # st) = Ok (v, st)"

fun stack_peek :: "u256 list \<Rightarrow> (u256, vm_error) outcome" where
  "stack_peek [] = Err StackUnderflow"
| "stack_peek (v # st) = Ok v"

definition stack_peek_at :: "usize \<Rightarrow> u256 list \<Rightarrow> (u256, vm_error) outcome" where
  "stack_peek_at depth st = (if length st \<le> depth then Err StackUnderflow else Ok (st ! depth))"

definition stack_swap :: "usize \<Rightarrow> u256 list \<Rightarrow> (u256 list, vm_error) outcome" where
  "stack_swap n st = (if n = 0 \<or> length st \<le> n then Err StackUnderflow else Ok (st[0 := st ! n, n := st ! 0]))"

definition stack_dup :: "usize \<Rightarrow> u256 list \<Rightarrow> (u256 list, vm_error) outcome" where
  "stack_dup n st =
     (if length st \<le> n then Err StackUnderflow
      else if MAX_STACK_SIZE \<le> length st then Err StackOverflow
      else Ok (st ! n # st))"

section \<open>Memory\<close>

definition MAX_MEMORY_SIZE :: usize where "MAX_MEMORY_SIZE = 16 * 1024 * 1024"
definition WORD_SIZE :: usize where "WORD_SIZE = 32"

definition word_size :: "u8 list \<Rightarrow> usize" where
  "word_size mem = div_ceil (length mem) WORD_SIZE"

definition mem_expand :: "usize \<Rightarrow> u8 list \<Rightarrow> u8 list \<times> (usize, vm_error) outcome" where
  "mem_expand n mem =
     (if n \<le> length mem then (mem, Ok 0)
      else if MAX_MEMORY_SIZE < n then (mem, Err (MemoryLimitExceeded n MAX_MEMORY_SIZE))
      else let new_words = div_ceil n WORD_SIZE in
        (mem @ replicate (new_words * WORD_SIZE - length mem) 0, Ok (new_words - word_size mem)))"

definition mem_read_byte :: "usize \<Rightarrow> u8 list \<Rightarrow> (u8, vm_error) outcome" where
  "mem_read_byte offset mem = (if length mem \<le> offset then Err (MemoryOutOfBounds offset 1) else Ok (mem ! offset))"

text \<open>The positions read past the end saturate and read as zero, like all positions outside the memory.\<close>

definition mem_read_bytes :: "usize \<Rightarrow> usize \<Rightarrow> u8 list \<Rightarrow> u8 list" where
  "mem_read_bytes offset n mem = take n (drop offset mem) @ replicate (n - (length mem - offset)) 0"

definition mem_read_word :: "usize \<Rightarrow> u8 list \<Rightarrow> u8 list" where
  "mem_read_word offset mem = mem_read_bytes offset 32 mem"

definition mem_write_bytes :: "usize \<Rightarrow> u8 list \<Rightarrow> u8 list \<Rightarrow> u8 list \<times> (usize, vm_error) outcome" where
  "mem_write_bytes offset data mem =
     (if data = [] then (mem, Ok 0)
      else if 2 ^ 64 \<le> offset + length data then (mem, Panic)
      else case mem_expand (offset + length data) mem of
        (mem', Ok words) \<Rightarrow> (take offset mem' @ data @ drop (offset + length data) mem', Ok words)
      | (mem', r) \<Rightarrow> (mem', r))"

definition mem_write_byte :: "usize \<Rightarrow> u8 \<Rightarrow> u8 list \<Rightarrow> u8 list \<times> (usize, vm_error) outcome" where
  "mem_write_byte offset v mem = mem_write_bytes offset [v] mem"

definition mem_write_word :: "usize \<Rightarrow> u8 list \<Rightarrow> u8 list \<Rightarrow> u8 list \<times> (usize, vm_error) outcome" where
  "mem_write_word offset v mem = mem_write_bytes offset v mem"

text \<open>Both directions of the overlapping copy have the same effect: the old bytes are moved as a block.\<close>

definition mem_copy :: "usize \<Rightarrow> usize \<Rightarrow> usize \<Rightarrow> u8 list \<Rightarrow> u8 list \<times> (usize, vm_error) outcome" where
  "mem_copy dest src n mem =
     (if n = 0 then (mem, Ok 0)
      else if 2 ^ 64 \<le> max dest src + n then (mem, Panic)
      else case mem_expand (max dest src + n) mem of
        (mem', Ok words) \<Rightarrow> (take dest mem' @ take n (drop src mem') @ drop (dest + n) mem', Ok words)
      | (mem', r) \<Rightarrow> (mem', r))"

definition memory_gas_cost :: "usize \<Rightarrow> u64 option" where
  "memory_gas_cost words =
     (if 2 ^ 64 \<le> words * words then None else Some (of_nat (words * words div 512 + 3 * words)))"

definition memory_expansion_cost :: "usize \<Rightarrow> usize \<Rightarrow> u64 option" where
  "memory_expansion_cost old_words new_words =
     (if new_words \<le> old_words then Some 0
      else case (memory_gas_cost new_words, memory_gas_cost old_words) of
        (Some new_cost, Some old_cost) \<Rightarrow> Some (new_cost - old_cost)
      | _ \<Rightarrow> None)"

section \<open>Execution context and results\<close>

record evm_block_context =
  bc_number :: u64
  bc_timestamp :: u64
  bc_coinbase :: address
  bc_difficulty :: u256
  bc_gas_limit :: u64
  bc_base_fee :: u256
  bc_chain_id :: u64

definition default_block_context :: evm_block_context where
  "default_block_context =
     \<lparr>bc_number = 0, bc_timestamp = 0, bc_coinbase = 0, bc_difficulty = 0, bc_gas_limit = 30000000, bc_base_fee = 0, bc_chain_id = 1\<rparr>"

record execution_context =
  ctx_origin :: address
  ctx_caller :: address
  ctx_address :: address
  ctx_value :: u256
  ctx_data :: "u8 list"
  ctx_gas_limit :: u64
  ctx_gas_price :: u256
  ctx_block :: evm_block_context
  ctx_depth :: u16
  ctx_is_static :: bool

datatype state_change =
    BalanceTransfer address address u256
  | StorageWrite address u256 u256
  | StorageDelete address u256
  | ContractCreate address "u8 list"
  | ContractDestroy address address
  | NonceIncrement address

record evm_log =
  lg_address :: address
  lg_topics :: "hash list"
  lg_data :: "u8 list"

record execution_result =
  er_success :: bool
  er_output :: "u8 list"
  er_gas_used :: u64
  er_gas_refund :: u64
  er_state_changes :: "state_change list"
  er_logs :: "evm_log list"
  er_revert_reason :: "string option"

section \<open>The machine\<close>

datatype access_status = Warm | Cold

record ('w, 'a) vm_ports =
  vp_keccak256 :: "u8 list \<Rightarrow> hash"
  vp_get_balance :: "address \<Rightarrow> 'w \<Rightarrow> (u256, evm_state_error) outcome"
  vp_get_storage :: "address \<Rightarrow> u256 \<Rightarrow> 'w \<Rightarrow> (u256, evm_state_error) outcome"
  vp_set_storage :: "address \<Rightarrow> u256 \<Rightarrow> u256 \<Rightarrow> 'w \<Rightarrow> 'w \<times> (unit, evm_state_error) outcome"
  vp_touch_account :: "address \<Rightarrow> 'a \<Rightarrow> 'a \<times> access_status"
  vp_touch_storage :: "address \<Rightarrow> u256 \<Rightarrow> 'a \<Rightarrow> 'a \<times> access_status"

record ('w, 'a) interpreter =
  in_state :: 'w
  in_context :: execution_context
  in_code :: "u8 list"
  in_stack :: "u256 list"
  in_memory :: "u8 list"
  in_pc :: usize
  in_gas_remaining :: u64
  in_stopped :: bool
  in_reverted :: bool
  in_return_data :: "u8 list"
  in_logs :: "evm_log list"
  in_state_changes :: "state_change list"
  in_access_list :: 'a
  in_jump_dests :: "usize list"
  in_gas_refund :: u64

type_synonym ('w, 'a, 'r) vm = "('w, 'a) interpreter \<Rightarrow> ('w, 'a) interpreter \<times> ('r, vm_error) outcome"

fun opcode_at :: "u8 list \<Rightarrow> usize \<Rightarrow> opcode" where
  "opcode_at code i = (case from_byte (code ! i) of Some op \<Rightarrow> op | None \<Rightarrow> System OpInvalid)"

definition instr_len :: "opcode \<Rightarrow> usize" where
  "instr_len op = (case push_size op of Some n \<Rightarrow> n + 1 | None \<Rightarrow> 1)"

function analyze_from :: "u8 list \<Rightarrow> usize \<Rightarrow> usize list \<Rightarrow> usize list" where
  "analyze_from code i dests =
     (if i < length code
      then analyze_from code (i + instr_len (opcode_at code i)) (if opcode_at code i = Flow OpJumpDest then i # dests else dests)
      else dests)"
  by pat_completeness auto
termination
  by (relation "measure (\<lambda>(code, i, _). length code - i)") (auto simp: instr_len_def split: option.splits)

declare analyze_from.simps [simp del]

definition analyze_jump_dests :: "u8 list \<Rightarrow> usize list" where
  "analyze_jump_dests code = analyze_from code 0 []"

definition new_interpreter :: "execution_context \<Rightarrow> u8 list \<Rightarrow> 'w \<Rightarrow> 'a \<Rightarrow> ('w, 'a) interpreter" where
  "new_interpreter ctx code w a =
     \<lparr>in_state = w, in_context = ctx, in_code = code, in_stack = [], in_memory = [], in_pc = 0,
      in_gas_remaining = ctx_gas_limit ctx, in_stopped = False, in_reverted = False, in_return_data = [], in_logs = [],
      in_state_changes = [], in_access_list = a, in_jump_dests = analyze_jump_dests code, in_gas_refund = 0\<rparr>"

subsection \<open>Steps every opcode is made of\<close>

definition vm_pop :: "(u256 \<Rightarrow> ('w, 'a, 'r) vm) \<Rightarrow> ('w, 'a, 'r) vm" where
  "vm_pop k m =
     (case stack_pop (in_stack m) of
        Ok (v, st) \<Rightarrow> k v (m\<lparr>in_stack := st\<rparr>)
      | Err e \<Rightarrow> (m, Err e)
      | Panic \<Rightarrow> (m, Panic))"

definition set_stack :: "(u256 list, vm_error) outcome \<Rightarrow> ('w, 'a, unit) vm" where
  "set_stack r m = (case r of Ok st \<Rightarrow> (m\<lparr>in_stack := st\<rparr>, Ok ()) | Err e \<Rightarrow> (m, Err e) | Panic \<Rightarrow> (m, Panic))"

definition vm_push :: "u256 \<Rightarrow> ('w, 'a, unit) vm" where
  "vm_push v m = set_stack (stack_push v (in_stack m)) m"

text \<open>\<open>as_usize\<close> of a 256-bit number and the addition of two sizes.\<close>

definition vm_usize :: "u256 \<Rightarrow> (usize \<Rightarrow> ('w, 'a, 'r) vm) \<Rightarrow> ('w, 'a, 'r) vm" where
  "vm_usize w k m = (if unat w < 2 ^ 64 then k (unat w) m else (m, Panic))"

definition vm_add :: "usize \<Rightarrow> usize \<Rightarrow> (usize \<Rightarrow> ('w, 'a, 'r) vm) \<Rightarrow> ('w, 'a, 'r) vm" where
  "vm_add a b k m = (if a + b < 2 ^ 64 then k (a + b) m else (m, Panic))"

definition vm_of_option :: "'x option \<Rightarrow> ('x \<Rightarrow> ('w, 'a, 'r) vm) \<Rightarrow> ('w, 'a, 'r) vm" where
  "vm_of_option v k m = (case v of Some x \<Rightarrow> k x m | None \<Rightarrow> (m, Panic))"

definition consume_gas :: "u64 \<Rightarrow> ('w, 'a) interpreter \<Rightarrow> ('w, 'a) interpreter \<times> bool" where
  "consume_gas amount m =
     (if amount \<le> in_gas_remaining m then (m\<lparr>in_gas_remaining := in_gas_remaining m - amount\<rparr>, True) else (m, False))"

definition vm_charge :: "u64 \<Rightarrow> ('w, 'a, 'r) vm \<Rightarrow> ('w, 'a, 'r) vm" where
  "vm_charge amount k m = (case consume_gas amount m of (m', True) \<Rightarrow> k m' | (m', False) \<Rightarrow> (m', Err OutOfGas))"

definition vm_memory :: "(u8 list \<Rightarrow> u8 list \<times> ('x, vm_error) outcome) \<Rightarrow> ('w, 'a, 'r) vm \<Rightarrow> ('w, 'a, 'r) vm" where
  "vm_memory f k m =
     (case f (in_memory m) of
        (mem, Ok _) \<Rightarrow> k (m\<lparr>in_memory := mem\<rparr>)
      | (mem, Err e) \<Rightarrow> (m\<lparr>in_memory := mem\<rparr>, Err e)
      | (mem, Panic) \<Rightarrow> (m\<lparr>in_memory := mem\<rparr>, Panic))"

definition vm_query :: "(('w, 'a) interpreter \<Rightarrow> ('x, evm_state_error) outcome) \<Rightarrow> ('x \<Rightarrow> ('w, 'a, 'r) vm) \<Rightarrow> ('w, 'a, 'r) vm" where
  "vm_query q k m = (case q m of Ok x \<Rightarrow> k x m | Err e \<Rightarrow> (m, Err (VmStateError e)) | Panic \<Rightarrow> (m, Panic))"

definition vm_read :: "(('w, 'a) interpreter \<Rightarrow> 'x) \<Rightarrow> ('x \<Rightarrow> ('w, 'a, 'r) vm) \<Rightarrow> ('w, 'a, 'r) vm" where
  "vm_read f k m = k (f m) m"

definition vm_touch :: "('a \<Rightarrow> 'a \<times> access_status) \<Rightarrow> (access_status \<Rightarrow> ('w, 'a, 'r) vm) \<Rightarrow> ('w, 'a, 'r) vm" where
  "vm_touch f k m = (case f (in_access_list m) of (access, status) \<Rightarrow> k status (m\<lparr>in_access_list := access\<rparr>))"

definition vm_done :: "('w, 'a, unit) vm" where
  "vm_done m = (m, Ok ())"

definition vm_fail :: "vm_error \<Rightarrow> ('w, 'a, 'r) vm" where
  "vm_fail e m = (m, Err e)"

subsection \<open>Arithmetic, comparison, bits\<close>

definition sdiv :: "u256 \<Rightarrow> u256 \<Rightarrow> u256" where
  "sdiv a b = (if b = 0 then 0 else a div b)"

definition smod :: "u256 \<Rightarrow> u256 \<Rightarrow> u256" where
  "smod a b = (if b = 0 then 0 else a mod b)"

definition addmod :: "u256 \<Rightarrow> u256 \<Rightarrow> u256 \<Rightarrow> u256 option" where
  "addmod a b c = (if c = 0 then Some 0 else map_option (\<lambda>s. s mod c) (checked_add a b))"

definition mulmod :: "u256 \<Rightarrow> u256 \<Rightarrow> u256 \<Rightarrow> u256 option" where
  "mulmod a b c = (if c = 0 then Some 0 else map_option (\<lambda>s. s mod c) (checked_mul a b))"

definition sign_extend :: "usize \<Rightarrow> u256 \<Rightarrow> u256 option" where
  "sign_extend k x =
     (if 2 ^ 64 \<le> k * 8 + 7 then None
      else let b = k * 8 + 7 in
        if 256 \<le> b then Some x
        else case checked_sub (push_bit (b + 1) 1) 1 of
          None \<Rightarrow> None
        | Some low \<Rightarrow> Some (if bit x b then x OR NOT low else x AND low))"

definition slt :: "u256 \<Rightarrow> u256 \<Rightarrow> bool" where
  "slt a b = (if bit a 255 \<and> \<not> bit b 255 then True else if \<not> bit a 255 \<and> bit b 255 then False else a < b)"

definition sgt :: "u256 \<Rightarrow> u256 \<Rightarrow> bool" where
  "sgt a b = slt b a"

definition sar :: "u256 \<Rightarrow> u256 \<Rightarrow> u256" where
  "sar v shift =
     (if 256 \<le> shift then (if bit v 255 then NOT 0 else 0)
      else let n = unat shift; result = drop_bit n v in
        if bit v 255 then result OR push_bit (256 - n) (NOT 0) else result)"

definition exec_arithmetic :: "arithmetic_op \<Rightarrow> ('w, 'a, unit) vm" where
  "exec_arithmetic op =
     (case op of
        OpAdd \<Rightarrow> vm_pop (\<lambda>a. vm_pop (\<lambda>b. vm_push (a + b)))
      | OpMul \<Rightarrow> vm_pop (\<lambda>a. vm_pop (\<lambda>b. vm_push (a * b)))
      | OpSub \<Rightarrow> vm_pop (\<lambda>a. vm_pop (\<lambda>b. vm_push (a - b)))
      | OpDiv \<Rightarrow> vm_pop (\<lambda>a. vm_pop (\<lambda>b. vm_push (if b = 0 then 0 else a div b)))
      | OpSDiv \<Rightarrow> vm_pop (\<lambda>a. vm_pop (\<lambda>b. vm_push (sdiv a b)))
      | OpMod \<Rightarrow> vm_pop (\<lambda>a. vm_pop (\<lambda>b. vm_push (if b = 0 then 0 else a mod b)))
      | OpSMod \<Rightarrow> vm_pop (\<lambda>a. vm_pop (\<lambda>b. vm_push (smod a b)))
      | OpAddMod \<Rightarrow> vm_pop (\<lambda>a. vm_pop (\<lambda>b. vm_pop (\<lambda>c. vm_of_option (addmod a b c) vm_push)))
      | OpMulMod \<Rightarrow> vm_pop (\<lambda>a. vm_pop (\<lambda>b. vm_pop (\<lambda>c. vm_of_option (mulmod a b c) vm_push)))
      | OpExp \<Rightarrow> vm_pop (\<lambda>base. vm_pop (\<lambda>exponent.
          vm_charge (exp_gas_cost exponent - COST_EXP) (vm_push (base ^ unat exponent))))
      | OpSignExtend \<Rightarrow> vm_pop (\<lambda>k. vm_pop (\<lambda>x. vm_usize k (\<lambda>n. vm_of_option (sign_extend n x) vm_push))))"

definition exec_comparison :: "comparison_op \<Rightarrow> ('w, 'a, unit) vm" where
  "exec_comparison op =
     (let truth = (\<lambda>b. vm_push (if b then 1 else 0)) in
      case op of
        OpLt \<Rightarrow> vm_pop (\<lambda>a. vm_pop (\<lambda>b. truth (a < b)))
      | OpGt \<Rightarrow> vm_pop (\<lambda>a. vm_pop (\<lambda>b. truth (b < a)))
      | OpSLt \<Rightarrow> vm_pop (\<lambda>a. vm_pop (\<lambda>b. truth (slt a b)))
      | OpSGt \<Rightarrow> vm_pop (\<lambda>a. vm_pop (\<lambda>b. truth (sgt a b)))
      | OpEq \<Rightarrow> vm_pop (\<lambda>a. vm_pop (\<lambda>b. truth (a = b)))
      | OpIsZero \<Rightarrow> vm_pop (\<lambda>a. truth (a = 0)))"

definition exec_bitwise :: "bitwise_op \<Rightarrow> ('w, 'a, unit) vm" where
  "exec_bitwise op =
     (case op of
        OpAnd \<Rightarrow> vm_pop (\<lambda>a. vm_pop (\<lambda>b. vm_push (a AND b)))
      | OpOr \<Rightarrow> vm_pop (\<lambda>a. vm_pop (\<lambda>b. vm_push (a OR b)))
      | OpXor \<Rightarrow> vm_pop (\<lambda>a. vm_pop (\<lambda>b. vm_push (a XOR b)))
      | OpNot \<Rightarrow> vm_pop (\<lambda>a. vm_push (NOT a))
      | OpByte \<Rightarrow> vm_pop (\<lambda>i. vm_pop (\<lambda>x.
          vm_push (if 31 < i then 0 else take_bit 8 (drop_bit (8 * (31 - unat i)) x))))
      | OpShl \<Rightarrow> vm_pop (\<lambda>shift. vm_pop (\<lambda>v. vm_usize shift (\<lambda>n. vm_push (push_bit n v))))
      | OpShr \<Rightarrow> vm_pop (\<lambda>shift. vm_pop (\<lambda>v. vm_usize shift (\<lambda>n. vm_push (drop_bit n v))))
      | OpSar \<Rightarrow> vm_pop (\<lambda>shift. vm_pop (\<lambda>v. vm_push (sar v shift))))"

subsection \<open>Hashing and environment\<close>

definition exec_keccak256 :: "('w, 'a) vm_ports \<Rightarrow> ('w, 'a, unit) vm" where
  "exec_keccak256 P =
     vm_pop (\<lambda>offset. vm_pop (\<lambda>n. vm_usize offset (\<lambda>off. vm_usize n (\<lambda>len. vm_add off len (\<lambda>limit.
       vm_read (\<lambda>m. memory_expansion_cost (word_size (in_memory m)) (div_ceil limit 32)) (\<lambda>expansion.
       vm_of_option expansion (\<lambda>mem_cost.
       vm_of_option (checked_add (keccak256_gas_cost len) mem_cost) (\<lambda>cost.
       vm_charge cost (vm_memory (mem_expand limit)
         (vm_read (\<lambda>m. vp_keccak256 P (mem_read_bytes off len (in_memory m))) vm_push))))))))))"

definition address_from_u256 :: "u256 \<Rightarrow> address" where
  "address_from_u256 w = ucast w"

definition call_data_load :: "u8 list \<Rightarrow> u256 \<Rightarrow> u256" where
  "call_data_load data offset =
     (if length data < unat offset then 0
      else from_be_bytes (take 32 (drop (unat offset) data) @ replicate (32 - (length data - unat offset)) 0))"

fun copy_loop :: "u8 list \<Rightarrow> usize \<Rightarrow> usize \<Rightarrow> usize \<Rightarrow> nat \<Rightarrow> u8 list \<Rightarrow> u8 list \<times> (unit, vm_error) outcome" where
  "copy_loop source src dest i 0 mem = (mem, Ok ())"
| "copy_loop source src dest i (Suc n) mem =
     (if 2 ^ 64 \<le> src + i \<or> 2 ^ 64 \<le> dest + i then (mem, Panic)
      else case mem_write_byte (dest + i) (if src + i < length source then source ! (src + i) else 0) mem of
        (mem', Ok _) \<Rightarrow> copy_loop source src dest (Suc i) n mem'
      | (mem', Err e) \<Rightarrow> (mem', Err e)
      | (mem', Panic) \<Rightarrow> (mem', Panic))"

definition exec_copy :: "(('w, 'a) interpreter \<Rightarrow> u8 list) \<Rightarrow> ('w, 'a, unit) vm" where
  "exec_copy source =
     vm_pop (\<lambda>d. vm_usize d (\<lambda>dest. vm_pop (\<lambda>s. vm_usize s (\<lambda>src. vm_pop (\<lambda>l. vm_usize l (\<lambda>len.
       vm_add dest len (\<lambda>limit. vm_memory (mem_expand limit) (vm_read source (\<lambda>bytes. vm_memory (copy_loop bytes src dest 0 len) vm_done)))))))))"

definition exec_environmental :: "('w, 'a) vm_ports \<Rightarrow> environmental_op \<Rightarrow> ('w, 'a, unit) vm" where
  "exec_environmental P op =
     (case op of
        OpAddress \<Rightarrow> vm_read (\<lambda>m. ucast (ctx_address (in_context m))) vm_push
      | OpBalance \<Rightarrow> vm_pop (\<lambda>w.
          vm_touch (vp_touch_account P (address_from_u256 w)) (\<lambda>status.
          vm_charge (if status = Cold then BALANCE_COLD else BALANCE_WARM)
            (vm_query (\<lambda>m. vp_get_balance P (address_from_u256 w) (in_state m)) vm_push)))
      | OpOrigin \<Rightarrow> vm_read (\<lambda>m. ucast (ctx_origin (in_context m))) vm_push
      | OpCaller \<Rightarrow> vm_read (\<lambda>m. ucast (ctx_caller (in_context m))) vm_push
      | OpCallValue \<Rightarrow> vm_read (\<lambda>m. ctx_value (in_context m)) vm_push
      | OpCallDataLoad \<Rightarrow> vm_pop (\<lambda>offset. vm_read (\<lambda>m. call_data_load (ctx_data (in_context m)) offset) vm_push)
      | OpCallDataSize \<Rightarrow> vm_read (\<lambda>m. of_nat (length (ctx_data (in_context m)))) vm_push
      | OpCallDataCopy \<Rightarrow> exec_copy (\<lambda>m. ctx_data (in_context m))
      | OpCodeSize \<Rightarrow> vm_read (\<lambda>m. of_nat (length (in_code m))) vm_push
      | OpCodeCopy \<Rightarrow> exec_copy in_code
      | OpGasPrice \<Rightarrow> vm_read (\<lambda>m. ctx_gas_price (in_context m)) vm_push
      | _ \<Rightarrow> vm_fail (Internal ''Not implemented''))"

definition exec_block_info :: "block_op \<Rightarrow> ('w, 'a, unit) vm" where
  "exec_block_info op =
     (case op of
        OpCoinbase \<Rightarrow> vm_read (\<lambda>m. ucast (bc_coinbase (ctx_block (in_context m)))) vm_push
      | OpTimestamp \<Rightarrow> vm_read (\<lambda>m. ucast (bc_timestamp (ctx_block (in_context m)))) vm_push
      | OpNumber \<Rightarrow> vm_read (\<lambda>m. ucast (bc_number (ctx_block (in_context m)))) vm_push
      | OpGasLimit \<Rightarrow> vm_read (\<lambda>m. ucast (bc_gas_limit (ctx_block (in_context m)))) vm_push
      | OpChainId \<Rightarrow> vm_read (\<lambda>m. ucast (bc_chain_id (ctx_block (in_context m)))) vm_push
      | OpBaseFee \<Rightarrow> vm_read (\<lambda>m. bc_base_fee (ctx_block (in_context m))) vm_push
      | OpBlockHash \<Rightarrow> vm_pop (\<lambda>_. vm_push 0)
      | _ \<Rightarrow> vm_fail (Internal ''Not implemented''))"

subsection \<open>Memory and storage\<close>

definition exec_memory_ops :: "memory_op \<Rightarrow> ('w, 'a, unit) vm" where
  "exec_memory_ops op =
     (case op of
        OpMLoad \<Rightarrow> vm_pop (\<lambda>w. vm_usize w (\<lambda>offset. vm_add offset 32 (\<lambda>limit. vm_memory (mem_expand limit)
          (vm_read (\<lambda>m. from_be_bytes (mem_read_word offset (in_memory m))) vm_push))))
      | OpMStore \<Rightarrow> vm_pop (\<lambda>w. vm_usize w (\<lambda>offset. vm_pop (\<lambda>v. vm_add offset 32 (\<lambda>limit. vm_memory (mem_expand limit)
          (vm_memory (mem_write_word offset (be_bytes 32 v)) vm_done)))))
      | OpMStore8 \<Rightarrow> vm_pop (\<lambda>w. vm_usize w (\<lambda>offset. vm_pop (\<lambda>v. vm_add offset 1 (\<lambda>limit. vm_memory (mem_expand limit)
          (vm_memory (mem_write_byte offset (ucast v)) vm_done)))))
      | OpMSize \<Rightarrow> vm_read (\<lambda>m. of_nat (length (in_memory m))) vm_push
      | OpMCopy \<Rightarrow> vm_fail (Internal ''MCOPY not implemented''))"

definition exec_sload :: "('w, 'a) vm_ports \<Rightarrow> ('w, 'a, unit) vm" where
  "exec_sload P =
     vm_pop (\<lambda>key. vm_read (\<lambda>m. ctx_address (in_context m)) (\<lambda>addr.
       vm_touch (vp_touch_storage P addr key) (\<lambda>status.
       vm_charge (if status = Cold then COLD_SLOAD else WARM_SLOAD)
         (vm_query (\<lambda>m. vp_get_storage P addr key (in_state m)) vm_push))))"

definition record_write :: "u256 \<Rightarrow> u256 \<Rightarrow> ('w, 'a) interpreter \<Rightarrow> ('w, 'a) interpreter" where
  "record_write key v m =
     (let addr = ctx_address (in_context m) in
      m\<lparr>in_state_changes := in_state_changes m @ [if v = 0 then StorageDelete addr key else StorageWrite addr key v]\<rparr>)"

definition store_value :: "('w, 'a) vm_ports \<Rightarrow> u256 \<Rightarrow> u256 \<Rightarrow> ('w, 'a, unit) vm" where
  "store_value P key v m =
     (case vp_set_storage P (ctx_address (in_context m)) key v (in_state m) of
        (w, Ok _) \<Rightarrow> (record_write key v (m\<lparr>in_state := w\<rparr>), Ok ())
      | (w, Err e) \<Rightarrow> (m\<lparr>in_state := w\<rparr>, Err (VmStateError e))
      | (w, Panic) \<Rightarrow> (m\<lparr>in_state := w\<rparr>, Panic))"

definition exec_sstore :: "('w, 'a) vm_ports \<Rightarrow> ('w, 'a, unit) vm" where
  "exec_sstore P m =
     (if ctx_is_static (in_context m) then (m, Err WriteInStaticContext)
      else vm_pop (\<lambda>key. vm_pop (\<lambda>v. vm_touch (vp_touch_storage P (ctx_address (in_context m)) key) (\<lambda>status.
        vm_charge ((if status = Cold then COLD_SLOAD else WARM_SLOAD) + SSTORE_SET) (store_value P key v)))) m)"

definition exec_storage_ops :: "('w, 'a) vm_ports \<Rightarrow> storage_op \<Rightarrow> ('w, 'a, unit) vm" where
  "exec_storage_ops P op =
     (case op of
        OpSLoad \<Rightarrow> exec_sload P
      | OpSStore \<Rightarrow> exec_sstore P
      | OpTLoad \<Rightarrow> vm_fail (Internal ''Transient storage not implemented'')
      | OpTStore \<Rightarrow> vm_fail (Internal ''Transient storage not implemented''))"

subsection \<open>Control flow and stack\<close>

definition jump :: "usize \<Rightarrow> ('w, 'a, unit) vm" where
  "jump dest m = (if dest \<notin> set (in_jump_dests m) then (m, Err (InvalidJump dest)) else (m\<lparr>in_pc := dest\<rparr>, Ok ()))"

definition exec_flow_control :: "flow_op \<Rightarrow> ('w, 'a, unit) vm" where
  "exec_flow_control op =
     (case op of
        OpJump \<Rightarrow> vm_pop (\<lambda>w. vm_usize w jump)
      | OpJumpI \<Rightarrow> vm_pop (\<lambda>w. vm_usize w (\<lambda>dest. vm_pop (\<lambda>cond. if cond \<noteq> 0 then jump dest else vm_done)))
      | OpPc \<Rightarrow> vm_read (\<lambda>m. of_nat (in_pc m - 1)) vm_push
      | OpJumpDest \<Rightarrow> vm_done)"

definition push_value :: "u8 list \<Rightarrow> usize \<Rightarrow> usize \<Rightarrow> u256" where
  "push_value code pc n =
     (let data = take n (drop pc code) in from_be_bytes (replicate (32 - n) 0 @ data @ replicate (n - length data) 0))"

definition exec_push :: "usize \<Rightarrow> ('w, 'a, unit) vm" where
  "exec_push n m =
     (case vm_push (push_value (in_code m) (in_pc m) n) m of
        (m', Ok _) \<Rightarrow> (m'\<lparr>in_pc := in_pc m' + n\<rparr>, Ok ())
      | (m', r) \<Rightarrow> (m', r))"

definition exec_stack_ops :: "stack_op \<Rightarrow> ('w, 'a, unit) vm" where
  "exec_stack_ops op =
     (case op of
        OpPop \<Rightarrow> vm_pop (\<lambda>_. vm_done)
      | OpGas \<Rightarrow> vm_read (\<lambda>m. ucast (in_gas_remaining m)) vm_push
      | OpPush n \<Rightarrow> exec_push n
      | OpDup n \<Rightarrow> (\<lambda>m. set_stack (stack_dup (n - 1) (in_stack m)) m)
      | OpSwap n \<Rightarrow> (\<lambda>m. set_stack (stack_swap n (in_stack m)) m))"

fun pop_topics :: "nat \<Rightarrow> (hash list \<Rightarrow> ('w, 'a, 'r) vm) \<Rightarrow> ('w, 'a, 'r) vm" where
  "pop_topics 0 k = k []"
| "pop_topics (Suc n) k = vm_pop (\<lambda>v. pop_topics n (\<lambda>vs. k (v # vs)))"

definition emit_log :: "usize \<Rightarrow> usize \<Rightarrow> hash list \<Rightarrow> ('w, 'a, unit) vm" where
  "emit_log offset n topics m =
     (m\<lparr>in_logs := in_logs m @ [\<lparr>lg_address = ctx_address (in_context m), lg_topics = topics,
        lg_data = mem_read_bytes offset n (in_memory m)\<rparr>]\<rparr>, Ok ())"

definition exec_log :: "nat \<Rightarrow> ('w, 'a, unit) vm" where
  "exec_log topic_count m =
     (if ctx_is_static (in_context m) then (m, Err WriteInStaticContext)
      else vm_pop (\<lambda>o'. vm_usize o' (\<lambda>offset. vm_pop (\<lambda>s'. vm_usize s' (\<lambda>n.
        vm_of_option (log_gas_cost n topic_count) (\<lambda>cost. vm_charge (cost - COST_LOG)
          (vm_add offset n (\<lambda>limit. vm_memory (mem_expand limit) (pop_topics topic_count (emit_log offset n))))))))) m)"

definition exec_output :: "(u8 list \<Rightarrow> ('w, 'a, unit) vm) \<Rightarrow> ('w, 'a, unit) vm" where
  "exec_output k =
     vm_pop (\<lambda>o'. vm_usize o' (\<lambda>offset. vm_pop (\<lambda>s'. vm_usize s' (\<lambda>n. vm_add offset n (\<lambda>limit. vm_memory (mem_expand limit)
       (vm_read (\<lambda>m. mem_read_bytes offset n (in_memory m)) k))))))"

definition exec_system :: "system_op \<Rightarrow> ('w, 'a, unit) vm" where
  "exec_system op =
     (case op of
        OpReturn \<Rightarrow> exec_output (\<lambda>data m. (m\<lparr>in_return_data := data, in_stopped := True\<rparr>, Ok ()))
      | OpRevert \<Rightarrow> exec_output (\<lambda>data m.
          (m\<lparr>in_return_data := data, in_stopped := True, in_reverted := True\<rparr>, Err (Revert ''Revert opcode'')))
      | OpStop \<Rightarrow> (\<lambda>m. (m\<lparr>in_stopped := True\<rparr>, Ok ()))
      | OpInvalid \<Rightarrow> vm_fail (InvalidOpcode 0xFE)
      | _ \<Rightarrow> vm_fail (Internal ''Not implemented''))"

subsection \<open>The loop\<close>

definition execute_family :: "('w, 'a) vm_ports \<Rightarrow> opcode \<Rightarrow> ('w, 'a, unit) vm" where
  "execute_family P op =
     (case op of
        Arithmetic a \<Rightarrow> exec_arithmetic a
      | Comparison c \<Rightarrow> exec_comparison c
      | Bitwise b \<Rightarrow> exec_bitwise b
      | OpKeccak256 \<Rightarrow> exec_keccak256 P
      | Environmental e \<Rightarrow> exec_environmental P e
      | BlockInfo b \<Rightarrow> exec_block_info b
      | MemoryOp o' \<Rightarrow> exec_memory_ops o'
      | StorageOp s \<Rightarrow> exec_storage_ops P s
      | Flow f \<Rightarrow> exec_flow_control f
      | StackOp s \<Rightarrow> exec_stack_ops s
      | OpLog n \<Rightarrow> exec_log n
      | System s \<Rightarrow> exec_system s)"

definition execute_opcode :: "('w, 'a) vm_ports \<Rightarrow> opcode \<Rightarrow> ('w, 'a, unit) vm" where
  "execute_opcode P op m = execute_family P op (m\<lparr>in_pc := in_pc m + 1\<rparr>)"

definition vm_step :: "('w, 'a) vm_ports \<Rightarrow> ('w, 'a, unit) vm" where
  "vm_step P m =
     (let op = opcode_at (in_code m) (in_pc m) in vm_charge (OPCODE_GAS (opcode_byte op)) (execute_opcode P op) m)"

section \<open>Frame conditions\<close>

text \<open>
  What a step may do to the machine, as a relation closed under the primitive changes the opcodes are
  made of. Each instance of the locale yields a fact about every opcode that leaves the program
  counter to the loop; jumps and pushes, which move it, are added by \<open>flow_relation\<close>.
\<close>

definition mem_ok :: "u8 list \<Rightarrow> bool" where
  "mem_ok mem \<longleftrightarrow> length mem \<le> MAX_MEMORY_SIZE \<and> length mem mod 32 = 0"

lemma mem_ok_Nil [simp]: "mem_ok []"
  by (simp add: mem_ok_def)

lemma mem_ok_expand [simp]: "mem_ok mem \<Longrightarrow> mem_ok (fst (mem_expand n mem))"
proof (cases "length mem < n \<and> n \<le> MAX_MEMORY_SIZE")
  case True
  let ?s = "div_ceil n 32 * 32"
  have "(n + 31) div 32 \<le> (16777216 + 31) div 32" using True by (intro div_le_mono) (simp add: MAX_MEMORY_SIZE_def)
  then have "?s \<le> MAX_MEMORY_SIZE" by (simp add: div_ceil_def MAX_MEMORY_SIZE_def)
  moreover have "n \<le> ?s" unfolding div_ceil_def by presburger
  moreover have "?s mod 32 = 0" by simp
  ultimately show ?thesis using True by (simp add: mem_expand_def mem_ok_def WORD_SIZE_def Let_def)
qed (auto simp: mem_expand_def)

lemma mem_expand_length: "mem_expand n mem = (mem', Ok k) \<Longrightarrow> n \<le> length mem'"
  by (auto simp: mem_expand_def WORD_SIZE_def div_ceil_def Let_def split: if_splits)

lemma mem_ok_write [simp]: "mem_ok mem \<Longrightarrow> mem_ok (fst (mem_write_bytes offset d mem))"
proof -
  assume ok: "mem_ok mem"
  obtain mem' r where e: "mem_expand (offset + length d) mem = (mem', r)" by fastforce
  have ok': "mem_ok mem'" using mem_ok_expand [OF ok, of "offset + length d"] e by simp
  have "offset + length d \<le> length mem'" if "r = Ok k" for k using e that mem_expand_length by blast
  then show ?thesis using ok ok' by (auto simp: mem_write_bytes_def e mem_ok_def split: outcome.splits)
qed

lemma mem_ok_copy_loop [simp]: "mem_ok mem \<Longrightarrow> mem_ok (fst (copy_loop source src dest i n mem))"
proof (induction n arbitrary: i mem)
  case (Suc n)
  obtain mem' r where w: "mem_write_byte (dest + i) (if src + i < length source then source ! (src + i) else 0) mem = (mem', r)" by fastforce
  have "mem_ok mem'" using mem_ok_write [OF Suc.prems] w by (metis fst_conv mem_write_byte_def)
  then show ?case using Suc by (cases r) (simp_all add: w)
qed simp

text \<open>Every opcode but jumps and pushes.\<close>

fun moves_pc :: "opcode \<Rightarrow> bool" where
  "moves_pc (Flow op) = (op = OpJump \<or> op = OpJumpI)"
| "moves_pc (StackOp (OpPush n)) = True"
| "moves_pc _ = False"

locale frame_relation =
  fixes R :: "('w, 'a) interpreter \<Rightarrow> ('w, 'a) interpreter \<Rightarrow> bool"
  assumes R_refl: "R m m"
    and R_trans: "R m1 m2 \<Longrightarrow> R m2 m3 \<Longrightarrow> R m1 m3"
    and R_stack: "length st \<le> MAX_STACK_SIZE \<or> length st \<le> length (in_stack m) \<Longrightarrow> R m (m\<lparr>in_stack := st\<rparr>)"
    and R_memory: "mem_ok (in_memory m) \<longrightarrow> mem_ok mem \<Longrightarrow> R m (m\<lparr>in_memory := mem\<rparr>)"
    and R_gas: "g \<le> in_gas_remaining m \<Longrightarrow> R m (m\<lparr>in_gas_remaining := g\<rparr>)"
    and R_access: "R m (m\<lparr>in_access_list := a\<rparr>)"
    and R_stop: "R m (m\<lparr>in_return_data := d, in_stopped := s\<rparr>)"
    and R_write: "\<not> ctx_is_static (in_context m) \<Longrightarrow> R m (m\<lparr>in_state := w, in_state_changes := cs, in_logs := ls\<rparr>)"
begin

definition keeps :: "(execution_context \<Rightarrow> bool) \<Rightarrow> ('w, 'a, 'r) vm \<Rightarrow> bool" where
  "keeps Q c \<longleftrightarrow> (\<forall>m. Q (in_context m) \<longrightarrow> R m (fst (c m)))"

lemma keepsI: "(\<And>m. Q (in_context m) \<Longrightarrow> R m (fst (c m))) \<Longrightarrow> keeps Q c"
  by (simp add: keeps_def)

lemma keepsD: "keeps Q c \<Longrightarrow> Q (in_context m) \<Longrightarrow> R m (fst (c m))"
  by (simp add: keeps_def)

lemma after: "R m m' \<Longrightarrow> keeps Q c \<Longrightarrow> Q (in_context m') \<Longrightarrow> R m (fst (c m'))"
  using R_trans keepsD by blast

lemma keeps_pop:
  assumes "\<And>v. keeps Q (k v)"
  shows "keeps Q (vm_pop k)"
proof (rule keepsI)
  fix m :: "('w, 'a) interpreter" assume "Q (in_context m)"
  then show "R m (fst (vm_pop k m))"
    by (cases "in_stack m") (auto simp: vm_pop_def R_refl intro!: after [OF _ assms] R_stack)
qed

lemma keeps_set_stack: "(\<And>st. r = Ok st \<Longrightarrow> length st \<le> MAX_STACK_SIZE \<or> length st \<le> length (in_stack m)) \<Longrightarrow> R m (fst (set_stack r m))"
  by (cases r) (simp_all add: set_stack_def R_refl R_stack)

lemma keeps_push: "keeps Q (vm_push v)"
  by (rule keepsI) (auto simp: vm_push_def stack_push_def intro!: keeps_set_stack split: if_splits)

lemma keeps_usize: "(\<And>n. keeps Q (k n)) \<Longrightarrow> keeps Q (vm_usize w k)"
  by (rule keepsI) (auto simp: vm_usize_def R_refl intro: keepsD)

lemma keeps_add: "(\<And>n. keeps Q (k n)) \<Longrightarrow> keeps Q (vm_add a b k)"
  by (rule keepsI) (auto simp: vm_add_def R_refl intro: keepsD)

lemma keeps_of_option: "(\<And>x. keeps Q (k x)) \<Longrightarrow> keeps Q (vm_of_option v k)"
  by (rule keepsI) (auto simp: vm_of_option_def R_refl intro: keepsD split: option.split)

lemma keeps_charge: "keeps Q k \<Longrightarrow> keeps Q (vm_charge g k)"
  by (rule keepsI) (auto simp: vm_charge_def consume_gas_def R_refl word_sub_le intro!: after R_gas)

lemma keeps_memory:
  assumes "\<And>mem. mem_ok mem \<Longrightarrow> mem_ok (fst (f mem))" and "keeps Q k"
  shows "keeps Q (vm_memory f k)"
proof (rule keepsI)
  fix m :: "('w, 'a) interpreter" assume Q: "Q (in_context m)"
  obtain mem r where f: "f (in_memory m) = (mem, r)" by fastforce
  then have "R m (m\<lparr>in_memory := mem\<rparr>)" using assms(1) [of "in_memory m"] by (intro R_memory) simp
  then show "R m (fst (vm_memory f k m))" using after [OF _ assms(2)] Q by (cases r) (simp_all add: vm_memory_def f)
qed

lemma keeps_query: "(\<And>x. keeps Q (k x)) \<Longrightarrow> keeps Q (vm_query q k)"
  by (rule keepsI) (auto simp: vm_query_def R_refl intro: keepsD split: outcome.split)

lemma keeps_done: "keeps Q vm_done" and keeps_fail: "keeps Q (vm_fail e)"
  by (auto simp: vm_done_def vm_fail_def R_refl intro: keepsI)

lemma keeps_read: "(\<And>x. keeps Q (k x)) \<Longrightarrow> keeps Q (vm_read f k)"
  by (auto simp: vm_read_def keeps_def)

lemma keeps_touch: "(\<And>x. keeps Q (k x)) \<Longrightarrow> keeps Q (vm_touch f k)"
  by (rule keepsI) (auto simp: vm_touch_def intro!: after R_access split: prod.split)

lemma keeps_topics: "(\<And>vs. keeps Q (k vs)) \<Longrightarrow> keeps Q (pop_topics n k)"
  by (induction n arbitrary: k) (simp_all add: keeps_pop)

lemmas keeps_rules = keeps_pop keeps_push keeps_usize keeps_add keeps_of_option keeps_charge keeps_memory keeps_query keeps_done
  keeps_fail keeps_topics keeps_read keeps_touch mem_ok_expand mem_ok_write mem_ok_copy_loop

lemma keeps_arithmetic: "keeps Q (exec_arithmetic op)"
  by (cases op; simp only: exec_arithmetic_def arithmetic_op.case; intro keeps_rules)

lemma keeps_comparison: "keeps Q (exec_comparison op)"
  by (cases op; simp only: exec_comparison_def Let_def comparison_op.case; intro keeps_rules)

lemma keeps_bitwise: "keeps Q (exec_bitwise op)"
  by (cases op; simp only: exec_bitwise_def bitwise_op.case; intro keeps_rules)

lemma keeps_keccak: "keeps Q (exec_keccak256 P)"
  unfolding exec_keccak256_def by (intro keeps_rules)

lemma keeps_copy: "keeps Q (exec_copy source)"
  unfolding exec_copy_def by (intro keeps_rules)

lemma keeps_environmental: "keeps Q (exec_environmental P op)"
  by (cases op; simp only: exec_environmental_def environmental_op.case; intro keeps_rules keeps_copy)

lemma keeps_block_info: "keeps Q (exec_block_info op)"
  by (cases op; simp only: exec_block_info_def block_op.case; intro keeps_rules)

lemma keeps_memory_ops: "keeps Q (exec_memory_ops op)"
  unfolding exec_memory_ops_def mem_write_byte_def mem_write_word_def
  by (cases op; simp only: memory_op.case; intro keeps_rules)

text \<open>Writes only happen outside a static context.\<close>

lemma keeps_unless_static:
  assumes "\<And>m. keeps (\<lambda>ctx. \<not> ctx_is_static ctx) (c m)"
  shows "keeps Q (\<lambda>m. if ctx_is_static (in_context m) then (m, Err WriteInStaticContext) else c m m)"
  using keepsD [OF assms] by (intro keepsI) (simp add: R_refl)

lemma keeps_store: "keeps (\<lambda>ctx. \<not> ctx_is_static ctx) (store_value P key v)"
proof (rule keepsI)
  fix m :: "('w, 'a) interpreter" assume s: "\<not> ctx_is_static (in_context m)"
  have "R m (m\<lparr>in_state := w\<rparr>)" "R m (m\<lparr>in_state := w, in_state_changes := cs\<rparr>)" for w cs
    using R_write [OF s, where w = w and cs = "in_state_changes m" and ls = "in_logs m"] R_write [OF s, where w = w and cs = cs and ls = "in_logs m"] by simp_all
  then show "R m (fst (store_value P key v m))"
    by (simp add: store_value_def record_write_def Let_def split: prod.split outcome.split)
qed

lemma keeps_emit: "keeps (\<lambda>ctx. \<not> ctx_is_static ctx) (emit_log offset n topics)"
proof (rule keepsI)
  fix m :: "('w, 'a) interpreter" assume s: "\<not> ctx_is_static (in_context m)"
  have "R m (m\<lparr>in_logs := ls\<rparr>)" for ls using R_write [OF s, where w = "in_state m" and cs = "in_state_changes m" and ls = ls] by simp
  then show "R m (fst (emit_log offset n topics m))" by (simp add: emit_log_def)
qed

lemma keeps_storage_ops: "keeps Q (exec_storage_ops P op)"
proof -
  have "keeps Q (exec_sstore P)"
    unfolding exec_sstore_def [abs_def] by (rule keeps_unless_static) (intro keeps_rules keeps_store)
  moreover have "keeps Q (exec_sload P)" unfolding exec_sload_def by (intro keeps_rules)
  ultimately show ?thesis by (cases op; simp only: exec_storage_ops_def storage_op.case keeps_fail)
qed

lemma keeps_log: "keeps Q (exec_log n)"
  unfolding exec_log_def [abs_def] by (rule keeps_unless_static) (intro keeps_rules keeps_emit)

lemma keeps_output: "(\<And>d. keeps Q (k d)) \<Longrightarrow> keeps Q (exec_output k)"
  unfolding exec_output_def by (intro keeps_rules)

lemma keeps_system:
  assumes "op \<noteq> OpRevert"
  shows "keeps Q (exec_system op)"
proof -
  have "R m (m\<lparr>in_stopped := s\<rparr>)" for m :: "('w, 'a) interpreter" and s
    using R_stop [where m = m and d = "in_return_data m" and s = s] by simp
  then have "keeps Q (\<lambda>m. (m\<lparr>in_return_data := d, in_stopped := True\<rparr>, Ok ()))" "keeps Q (\<lambda>m. (m\<lparr>in_stopped := True\<rparr>, Ok ()))" for d
    by (auto intro!: keepsI R_stop)
  with assms show ?thesis
    by (cases op; simp only: exec_system_def system_op.case; (intro keeps_rules keeps_output)?)
qed

lemma keeps_flow: "op \<noteq> OpJump \<Longrightarrow> op \<noteq> OpJumpI \<Longrightarrow> keeps Q (exec_flow_control op)"
  by (cases op; simp only: exec_flow_control_def flow_op.case; intro keeps_rules; simp)

lemma keeps_stack_ops: "\<not> is_push (StackOp op) \<Longrightarrow> keeps Q (exec_stack_ops op)"
proof (cases op)
  case (OpDup n)
  show ?thesis unfolding OpDup exec_stack_ops_def stack_op.case
    by (rule keepsI, rule keeps_set_stack) (auto simp: stack_dup_def split: if_splits)
next
  case (OpSwap n)
  show ?thesis unfolding OpSwap exec_stack_ops_def stack_op.case
    by (rule keepsI, rule keeps_set_stack) (auto simp: stack_swap_def split: if_splits)
qed (simp_all only: exec_stack_ops_def stack_op.case is_push.simps keeps_rules not_True_eq_False)

lemma keeps_family:
  assumes "\<not> moves_pc op" and "op \<noteq> System OpRevert"
  shows "R m (fst (execute_family P op m))"
proof -
  have "keeps (\<lambda>_. True) (execute_family P op)"
  proof (cases op)
    case (Flow x)
    then show ?thesis using assms by (simp add: execute_family_def keeps_flow)
  next
    case (StackOp x)
    moreover from this assms have "\<not> is_push (StackOp x)" by (cases x) simp_all
    ultimately show ?thesis by (simp add: execute_family_def keeps_stack_ops)
  next
    case (System x)
    then show ?thesis using assms by (simp add: execute_family_def keeps_system)
  qed (simp_all only: execute_family_def opcode.case keeps_arithmetic keeps_comparison keeps_bitwise keeps_keccak
    keeps_environmental keeps_block_info keeps_memory_ops keeps_storage_ops keeps_log)
  from keepsD [OF this] show ?thesis by simp
qed

end

locale reverting_relation = frame_relation R
  for R :: "('w, 'a) interpreter \<Rightarrow> ('w, 'a) interpreter \<Rightarrow> bool" +
  assumes R_revert: "R m (m\<lparr>in_return_data := d, in_stopped := s, in_reverted := r\<rparr>)"
begin

lemma keeps_opcode:
  assumes "\<not> moves_pc op"
  shows "R m (fst (execute_family P op m))"
proof (cases "op = System OpRevert")
  case True
  have "keeps (\<lambda>_. True) (exec_output (\<lambda>data m.
      (m\<lparr>in_return_data := data, in_stopped := True, in_reverted := True\<rparr>, Err (Revert ''Revert opcode''))))"
    by (rule keeps_output) (auto intro!: keepsI R_revert)
  from keepsD [OF this] show ?thesis by (simp add: True execute_family_def exec_system_def)
qed (rule keeps_family [OF assms])

end

definition frame :: "('w, 'a) interpreter \<Rightarrow> ('w, 'a) interpreter \<Rightarrow> bool" where
  "frame m m' \<longleftrightarrow>
     in_context m' = in_context m \<and> in_code m' = in_code m \<and> in_jump_dests m' = in_jump_dests m \<and> in_pc m' = in_pc m \<and>
     in_gas_remaining m' \<le> in_gas_remaining m \<and>
     (length (in_stack m) \<le> MAX_STACK_SIZE \<longrightarrow> length (in_stack m') \<le> MAX_STACK_SIZE) \<and>
     (mem_ok (in_memory m) \<longrightarrow> mem_ok (in_memory m')) \<and>
     (ctx_is_static (in_context m) \<longrightarrow>
        in_state m' = in_state m \<and> in_state_changes m' = in_state_changes m \<and> in_logs m' = in_logs m)"

lemma frame_trans:
  assumes "frame m1 m2" and "frame m2 m3"
  shows "frame m1 m3"
proof -
  have "in_gas_remaining m3 \<le> in_gas_remaining m1" using assms order_trans unfolding frame_def by blast
  then show ?thesis using assms unfolding frame_def by simp
qed

interpretation vmf: reverting_relation frame
  by unfold_locales (erule (1) frame_trans | auto simp: frame_def)+

definition frame_but_pc :: "('w, 'a) interpreter \<Rightarrow> ('w, 'a) interpreter \<Rightarrow> bool" where
  "frame_but_pc m m' \<longleftrightarrow> frame m (m'\<lparr>in_pc := in_pc m\<rparr>)"

lemma frame_but_pc_trans: "frame_but_pc m1 m2 \<Longrightarrow> frame_but_pc m2 m3 \<Longrightarrow> frame_but_pc m1 m3"
  using frame_trans [of m1 "m2\<lparr>in_pc := in_pc m1\<rparr>" "m3\<lparr>in_pc := in_pc m1\<rparr>"] unfolding frame_but_pc_def by (simp add: frame_def)

lemma frame_frame_but_pc: "frame m m' \<Longrightarrow> frame_but_pc m m'"
  unfolding frame_but_pc_def frame_def by auto

lemma frame_but_pc_pc: "frame_but_pc m (m'\<lparr>in_pc := p\<rparr>) \<longleftrightarrow> frame_but_pc m m'"
  by (simp add: frame_but_pc_def)

lemma frame_pc: "frame m m' \<Longrightarrow> in_pc m' = in_pc m"
  by (simp add: frame_def)

lemma push_step:
  "frame_but_pc m (fst (exec_push n m)) \<and> (snd (exec_push n m) = Ok () \<longrightarrow> in_pc (fst (exec_push n m)) = in_pc m + n)"
proof -
  obtain m' r where p: "vm_push (push_value (in_code m) (in_pc m) n) m = (m', r)" by fastforce
  have "frame m m'" using vmf.keepsD [OF vmf.keeps_push, of "\<lambda>_. True" m] p by (metis fst_conv)
  then show ?thesis
    using frame_pc [of m m'] by (cases r) (simp_all add: exec_push_def p frame_but_pc_pc frame_frame_but_pc)
qed

lemma frame_pop: "in_stack m = v # st \<Longrightarrow> frame m (m\<lparr>in_stack := st\<rparr>)"
  by (auto simp: frame_def)

lemma jump_step:
  "frame_but_pc m (fst (jump dest m)) \<and> (snd (jump dest m) = Ok () \<longrightarrow> in_pc (fst (jump dest m)) \<in> set (in_jump_dests m))"
  by (simp add: jump_def frame_but_pc_pc frame_frame_but_pc vmf.R_refl)

lemma flow_step:
  "frame_but_pc m (fst (exec_flow_control op m)) \<and>
   (snd (exec_flow_control op m) = Ok () \<longrightarrow>
      in_pc (fst (exec_flow_control op m)) = in_pc m \<or>
      (op = OpJump \<or> op = OpJumpI) \<and> in_pc (fst (exec_flow_control op m)) \<in> set (in_jump_dests m))"
proof (cases op)
  case OpJump
  show ?thesis
  proof (cases "in_stack m")
    case (Cons v st)
    note f = frame_frame_but_pc [OF frame_pop [OF Cons]]
    show ?thesis
      using jump_step [of "m\<lparr>in_stack := st\<rparr>" "unat v"] frame_but_pc_trans [OF f] f
      by (simp add: OpJump exec_flow_control_def vm_pop_def Cons vm_usize_def)
  qed (simp add: OpJump exec_flow_control_def vm_pop_def frame_frame_but_pc vmf.R_refl)
next
  case OpJumpI
  show ?thesis
  proof (cases "in_stack m")
    case (Cons v st)
    note f = frame_frame_but_pc [OF frame_pop [OF Cons]]
    show ?thesis
    proof (cases st)
      case st: (Cons c st')
      have "in_stack (m\<lparr>in_stack := st\<rparr>) = c # st'" by (simp add: st)
      note g = frame_but_pc_trans [OF f frame_frame_but_pc [OF frame_pop [OF this]], simplified]
      show ?thesis
        using jump_step [of "m\<lparr>in_stack := st'\<rparr>" "unat v"] frame_but_pc_trans [OF g] f g
        by (simp add: OpJumpI exec_flow_control_def vm_pop_def Cons st vm_usize_def vm_done_def)
    qed (use f in \<open>simp add: OpJumpI exec_flow_control_def vm_pop_def Cons vm_usize_def\<close>)
  qed (simp add: OpJumpI exec_flow_control_def vm_pop_def frame_frame_but_pc vmf.R_refl)
qed (use vmf.keeps_opcode [of "Flow op" m] in \<open>simp_all add: execute_family_def frame_frame_but_pc frame_pc\<close>)

lemma family_step:
  "frame_but_pc m (fst (execute_family P op m)) \<and>
   (snd (execute_family P op m) = Ok () \<longrightarrow>
      in_pc (fst (execute_family P op m)) + 1 = in_pc m + instr_len op \<or>
      (op = Flow OpJump \<or> op = Flow OpJumpI) \<and> in_pc (fst (execute_family P op m)) \<in> set (in_jump_dests m))"
proof (cases "moves_pc op")
  case True
  then consider x where "op = Flow x" | n where "op = StackOp (OpPush n)"
    by (cases op; cases "case op of StackOp x \<Rightarrow> x | _ \<Rightarrow> OpPop") auto
  then show ?thesis
  proof cases
    case (1 x)
    then show ?thesis using flow_step [of m x] by (auto simp: execute_family_def instr_len_def)
  next
    case (2 n)
    then show ?thesis using push_step [of m n] by (simp add: execute_family_def exec_stack_ops_def instr_len_def)
  qed
next
  case False
  then have "instr_len op = 1" by (cases op; cases "case op of StackOp x \<Rightarrow> x | _ \<Rightarrow> OpPop") (auto simp: instr_len_def)
  then show ?thesis using vmf.keeps_opcode [OF False, of m P] by (simp add: frame_frame_but_pc frame_pc)
qed

lemma jump_cost: "0 < OPCODE_GAS (opcode_byte (Flow OpJump))" "0 < OPCODE_GAS (opcode_byte (Flow OpJumpI))"
  by code_simp+

text \<open>One turn of the loop.\<close>

lemma vm_step_effect:
  assumes "vm_step P m = (m', r)"
  shows "frame_but_pc m m'"
    and "r = Ok () \<Longrightarrow> in_pc m' = in_pc m + instr_len (opcode_at (in_code m) (in_pc m)) \<or>
      in_pc m' \<in> set (in_jump_dests m) \<and> in_gas_remaining m' < in_gas_remaining m"
proof -
  let ?op = "opcode_at (in_code m) (in_pc m)" let ?g = "OPCODE_GAS (opcode_byte ?op)"
  show "frame_but_pc m m'" "r = Ok () \<Longrightarrow> in_pc m' = in_pc m + instr_len ?op \<or>
      in_pc m' \<in> set (in_jump_dests m) \<and> in_gas_remaining m' < in_gas_remaining m"
  proof (atomize (full), cases "?g \<le> in_gas_remaining m")
    case False
    then have "m' = m \<and> r = Err OutOfGas" using assms by (simp add: vm_step_def vm_charge_def consume_gas_def Let_def del: opcode_at.simps)
    then show "frame_but_pc m m' \<and> (r = Ok () \<longrightarrow> in_pc m' = in_pc m + instr_len ?op \<or>
        in_pc m' \<in> set (in_jump_dests m) \<and> in_gas_remaining m' < in_gas_remaining m)"
      by (simp add: frame_frame_but_pc vmf.R_refl)
  next
    case True
    let ?m = "m\<lparr>in_gas_remaining := in_gas_remaining m - ?g, in_pc := in_pc m + 1\<rparr>"
    have e: "(m', r) = execute_family P ?op ?m"
      using assms True by (simp add: vm_step_def vm_charge_def consume_gas_def execute_opcode_def Let_def del: opcode_at.simps)
    have "frame_but_pc m ?m" using True by (simp add: frame_but_pc_pc frame_frame_but_pc vmf.R_gas word_sub_le)
    moreover have f: "frame_but_pc ?m m'" using family_step [of ?m P ?op] e by (metis fst_conv)
    ultimately have "frame_but_pc m m'" by (rule frame_but_pc_trans)
    moreover have "in_pc m' = in_pc m + instr_len ?op \<or> in_pc m' \<in> set (in_jump_dests m) \<and> in_gas_remaining m' < in_gas_remaining m" if "r = Ok ()"
    proof -
      have "in_gas_remaining m' \<le> in_gas_remaining m - ?g" using f by (simp add: frame_but_pc_def frame_def)
      moreover have "in_gas_remaining m - ?g < in_gas_remaining m" if "0 < ?g" using True that by (simp add: word_less_nat_alt unat_sub word_le_nat_alt)
      ultimately have "in_gas_remaining m' < in_gas_remaining m" if "0 < ?g" using that by (meson order_le_less_trans)
      moreover have "in_pc m' + 1 = in_pc ?m + instr_len ?op \<or> (?op = Flow OpJump \<or> ?op = Flow OpJumpI) \<and> in_pc m' \<in> set (in_jump_dests ?m)"
        using family_step [of ?m P ?op] that unfolding e [symmetric] by simp
      ultimately show ?thesis using jump_cost by (elim disjE conjE) (simp_all del: opcode_at.simps)
    qed
    ultimately show "frame_but_pc m m' \<and> (r = Ok () \<longrightarrow> in_pc m' = in_pc m + instr_len ?op \<or>
        in_pc m' \<in> set (in_jump_dests m) \<and> in_gas_remaining m' < in_gas_remaining m)" by simp
  qed
qed

section \<open>Execution\<close>

lemma instr_len_pos: "0 < instr_len op"
  by (simp add: instr_len_def split: option.split)

lemma step_gas: "vm_step P m = (m', r) \<Longrightarrow> in_gas_remaining m' \<le> in_gas_remaining m"
  and step_code: "vm_step P m = (m', r) \<Longrightarrow> in_code m' = in_code m"
  using vm_step_effect(1) [of P m m' r] by (auto simp: frame_but_pc_def frame_def)

definition vm_potential :: "('w, 'a) interpreter \<Rightarrow> nat" where
  "vm_potential m = unat (in_gas_remaining m) * (length (in_code m) + 1) + (length (in_code m) - in_pc m)"

lemma step_potential:
  assumes step: "vm_step P m = (m', Ok ())" and pc: "in_pc m < length (in_code m)"
  shows "vm_potential m' < vm_potential m"
proof -
  let ?n = "length (in_code m)"
  have g: "unat (in_gas_remaining m') \<le> unat (in_gas_remaining m)" using step_gas [OF step] by (simp add: word_le_nat_alt)
  from vm_step_effect(2) [OF step refl] show ?thesis
  proof (elim disjE conjE)
    assume "in_pc m' = in_pc m + instr_len (opcode_at (in_code m) (in_pc m))"
    then have "?n - in_pc m' < ?n - in_pc m" using pc instr_len_pos [of "opcode_at (in_code m) (in_pc m)"] by simp
    moreover have "unat (in_gas_remaining m') * (?n + 1) \<le> unat (in_gas_remaining m) * (?n + 1)" using g by (rule mult_le_mono1)
    ultimately show ?thesis unfolding vm_potential_def step_code [OF step] by linarith
  next
    assume "in_gas_remaining m' < in_gas_remaining m"
    then have "unat (in_gas_remaining m') + 1 \<le> unat (in_gas_remaining m)" by (simp add: word_less_nat_alt)
    then have "(unat (in_gas_remaining m') + 1) * (?n + 1) \<le> unat (in_gas_remaining m) * (?n + 1)" by (rule mult_le_mono1)
    then show ?thesis using pc unfolding vm_potential_def step_code [OF step] by (simp add: algebra_simps)
  qed
qed

function (sequential) vm_loop :: "('w, 'a) vm_ports \<Rightarrow> ('w, 'a, unit) vm" where
  "vm_loop P m =
     (if in_stopped m then (m, Ok ())
      else if length (in_code m) \<le> in_pc m then (m\<lparr>in_stopped := True\<rparr>, Ok ())
      else case vm_step P m of
        (m', Ok _) \<Rightarrow> vm_loop P m'
      | (m', Err e) \<Rightarrow> (m', Err e)
      | (m', Panic) \<Rightarrow> (m', Panic))"
  by pat_completeness auto
termination
  by (relation "measure (\<lambda>(P, m). vm_potential m)") (auto simp: not_le intro: step_potential)

declare vm_loop.simps [simp del]

definition execute :: "('w, 'a) vm_ports \<Rightarrow> ('w, 'a, execution_result) vm" where
  "execute P m0 =
     (case vm_loop P m0 of
        (m, Err e) \<Rightarrow> (m, Err e)
      | (m, Panic) \<Rightarrow> (m, Panic)
      | (m, Ok _) \<Rightarrow>
          (case checked_sub (ctx_gas_limit (in_context m)) (in_gas_remaining m) of
             None \<Rightarrow> (m, Panic)
           | Some gas_used \<Rightarrow>
               (let effective_refund = calculate_refund gas_used (in_gas_refund m) in
                (m, Ok \<lparr>er_success = (\<not> in_reverted m), er_output = in_return_data m,
                        er_gas_used = saturating_sub gas_used effective_refund, er_gas_refund = effective_refund,
                        er_state_changes = (if in_reverted m then [] else in_state_changes m), er_logs = in_logs m,
                        er_revert_reason = None\<rparr>))))"

section \<open>Runs\<close>

inductive vm_steps :: "('w, 'a) vm_ports \<Rightarrow> nat \<Rightarrow> ('w, 'a) interpreter \<Rightarrow> ('w, 'a) interpreter \<Rightarrow> bool" for P where
  steps_refl: "vm_steps P 0 m m"
| steps_step: "vm_steps P n m m' \<Longrightarrow> \<not> in_stopped m' \<Longrightarrow> in_pc m' < length (in_code m') \<Longrightarrow> vm_step P m' = (m'', Ok ()) \<Longrightarrow>
    vm_steps P (Suc n) m m''"

lemma steps_potential: "vm_steps P n m m' \<Longrightarrow> n + vm_potential m' \<le> vm_potential m"
  by (induction rule: vm_steps.induct) (auto dest: step_potential)

lemma steps_first: "vm_steps P n m1 m2 \<Longrightarrow> \<not> in_stopped m0 \<Longrightarrow> in_pc m0 < length (in_code m0) \<Longrightarrow> vm_step P m0 = (m1, Ok ()) \<Longrightarrow>
    vm_steps P (Suc n) m0 m2"
  by (induction rule: vm_steps.induct) (auto intro: vm_steps.intros)

text \<open>The loop makes steps while it can and returns what the last one leaves.\<close>

lemma loop_runs:
  "\<exists>n m'. vm_steps P n m m' \<and>
     (fst (vm_loop P m) = m' \<and> snd (vm_loop P m) = Ok () \<and> in_stopped m' \<or>
      fst (vm_loop P m) = m'\<lparr>in_stopped := True\<rparr> \<and> snd (vm_loop P m) = Ok () \<and> length (in_code m') \<le> in_pc m' \<or>
      vm_step P m' = vm_loop P m \<and> \<not> in_stopped m' \<and> in_pc m' < length (in_code m') \<and> snd (vm_loop P m) \<noteq> Ok ())"
proof (induction P m rule: vm_loop.induct)
  case (1 P m)
  show ?case
  proof (cases "in_stopped m \<or> length (in_code m) \<le> in_pc m")
    case True
    then show ?thesis by (intro exI [of _ 0] exI [of _ m]) (auto simp: vm_loop.simps [of P m] steps_refl)
  next
    case False
    obtain m1 r where step: "vm_step P m = (m1, r)" by fastforce
    show ?thesis
    proof (cases r)
      case (Ok u)
      then have loop: "vm_loop P m = vm_loop P m1" using False by (simp add: vm_loop.simps [of P m] step)
      from 1 [of m1 r u] False step Ok obtain n m' where s: "vm_steps P n m1 m'" and e: "fst (vm_loop P m1) = m' \<and> snd (vm_loop P m1) = Ok () \<and> in_stopped m' \<or>
          fst (vm_loop P m1) = m'\<lparr>in_stopped := True\<rparr> \<and> snd (vm_loop P m1) = Ok () \<and> length (in_code m') \<le> in_pc m' \<or>
          vm_step P m' = vm_loop P m1 \<and> \<not> in_stopped m' \<and> in_pc m' < length (in_code m') \<and> snd (vm_loop P m1) \<noteq> Ok ()" by auto
      have "vm_steps P (Suc n) m m'" using steps_first [OF s] False step Ok by simp
      then show ?thesis using e unfolding loop by blast
    qed (use False step in \<open>auto simp: vm_loop.simps [of P m] not_le intro!: exI [of _ 0] exI [of _ m] steps_refl\<close>)
  qed
qed

section \<open>Instruction boundaries\<close>

inductive instr_start :: "u8 list \<Rightarrow> usize \<Rightarrow> bool" for code where
  start_0: "instr_start code 0"
| start_next: "instr_start code i \<Longrightarrow> i < length code \<Longrightarrow> instr_start code (i + instr_len (opcode_at code i))"

lemma analyze_from_sound:
  "instr_start code i \<Longrightarrow> j \<in> set (analyze_from code i dests) \<Longrightarrow> j \<in> set dests \<or> instr_start code j"
proof (induction code i dests rule: analyze_from.induct)
  case (1 code i dests)
  then show ?case
    by (cases "i < length code") (auto simp: analyze_from.simps [of code i] start_next simp del: opcode_at.simps split: if_splits)
qed

lemma jump_dest_start: "j \<in> set (analyze_jump_dests code) \<Longrightarrow> instr_start code j"
  using analyze_from_sound [OF start_0, of j code "[]"] by (simp add: analyze_jump_dests_def)

definition vm_wf :: "execution_context \<Rightarrow> u8 list \<Rightarrow> 'w \<Rightarrow> ('w, 'a) interpreter \<Rightarrow> bool" where
  "vm_wf ctx code w m \<longleftrightarrow>
     in_context m = ctx \<and> in_code m = code \<and> in_jump_dests m = analyze_jump_dests code \<and>
     in_gas_remaining m \<le> ctx_gas_limit ctx \<and> length (in_stack m) \<le> MAX_STACK_SIZE \<and> mem_ok (in_memory m) \<and>
     (ctx_is_static ctx \<longrightarrow> in_state m = w \<and> in_state_changes m = [] \<and> in_logs m = [])"

lemma new_interpreter_wf: "vm_wf ctx code w (new_interpreter ctx code w a)"
  by (simp add: vm_wf_def new_interpreter_def)

lemma step_wf: "vm_wf ctx code w m \<Longrightarrow> frame_but_pc m m' \<Longrightarrow> vm_wf ctx code w m'"
  unfolding vm_wf_def frame_but_pc_def frame_def by (auto intro: order_trans)

lemma steps_wf:
  assumes "vm_steps P n m m'" and "vm_wf ctx code w m"
  shows "vm_wf ctx code w m'"
  using assms by (induction rule: vm_steps.induct) (auto intro: step_wf vm_step_effect(1))

lemma steps_start:
  assumes "vm_steps P n m m'" and "vm_wf ctx code w m" and "instr_start code (in_pc m)"
  shows "instr_start code (in_pc m')"
  using assms
proof (induction rule: vm_steps.induct)
  case (steps_step n m m' m'')
  have wf: "vm_wf ctx code w m'" by (rule steps_wf [OF steps_step.hyps(1) steps_step.prems(1)])
  then have c: "in_code m' = code" "in_jump_dests m' = analyze_jump_dests code" by (simp_all add: vm_wf_def)
  from vm_step_effect(2) [OF steps_step.hyps(4) refl] steps_step.IH [OF steps_step.prems] steps_step.hyps(3)
  show ?case by (auto simp: c jump_dest_start start_next simp del: opcode_at.simps)
qed

section \<open>Signed operations\<close>

lemma bit_255_sint: "bit a 255 \<longleftrightarrow> sint a < 0" for a :: u256
proof -
  have "sint a < 0 \<longleftrightarrow> bit (sint a) 255" by (simp add: bit_simps signed_take_bit_negative_iff sint_uint)
  then show ?thesis by (simp add: bit_simps)
qed

lemma sint_by_sign:
  fixes a :: u256
  shows "\<not> bit a 255 \<Longrightarrow> sint a = uint a" and "bit a 255 \<Longrightarrow> sint a = uint a - 2 ^ 256"
proof -
  have t: "take_bit 256 (uint a) = uint a" using uint_lt2p [of a] by (intro take_bit_int_eq_self) simp_all
  have "sint a = signed_take_bit 255 (uint a)" by (simp add: sint_uint)
  also have "\<dots> = uint a - 2 ^ 256 * of_bool (bit a 255)" unfolding signed_take_bit_eq_take_bit_minus using t by (simp add: bit_simps)
  finally show "\<not> bit a 255 \<Longrightarrow> sint a = uint a" "bit a 255 \<Longrightarrow> sint a = uint a - 2 ^ 256" by simp_all
qed

lemma slt_signed: "slt a b \<longleftrightarrow> sint a < sint b"
proof (cases "bit a 255"; cases "bit b 255")
  assume "bit a 255" "\<not> bit b 255"
  then show ?thesis using bit_255_sint [of a] bit_255_sint [of b] by (simp add: slt_def)
next
  assume "\<not> bit a 255" "bit b 255"
  then show ?thesis using bit_255_sint [of a] bit_255_sint [of b] by (simp add: slt_def)
qed (simp_all add: slt_def sint_by_sign word_less_def)

lemma loop_wf:
  assumes "vm_wf ctx code w m"
  shows "vm_wf ctx code w (fst (vm_loop P m))"
proof -
  from loop_runs [of P m] obtain n m' where s: "vm_steps P n m m'" and
    e: "fst (vm_loop P m) = m' \<or> fst (vm_loop P m) = m'\<lparr>in_stopped := True\<rparr> \<or> vm_step P m' = vm_loop P m" by auto
  from steps_wf [OF s assms] have wf: "vm_wf ctx code w m'" .
  then have "vm_wf ctx code w (m'\<lparr>in_stopped := True\<rparr>)" by (simp add: vm_wf_def)
  moreover have "vm_wf ctx code w (fst (vm_step P m'))" using step_wf [OF wf vm_step_effect(1)] by (metis prod.collapse)
  ultimately show ?thesis using e wf by auto
qed

lemma execute_machine: "fst (execute P m) = fst (vm_loop P m)"
  by (simp add: execute_def Let_def split: prod.split outcome.split option.split)

lemma execute_ok:
  assumes "execute P m0 = (m, Ok r)"
  shows "\<exists>g. checked_sub (ctx_gas_limit (in_context m)) (in_gas_remaining m) = Some g \<and>
    er_gas_used r = saturating_sub g (calculate_refund g (in_gas_refund m)) \<and>
    er_state_changes r = (if in_reverted m then [] else in_state_changes m) \<and> er_logs r = in_logs m"
  using assms by (auto simp: execute_def Let_def split: prod.splits outcome.splits option.splits)

lemma execute_wf: "vm_wf ctx code w (fst (execute P (new_interpreter ctx code w a)))"
  unfolding execute_machine by (rule loop_wf [OF new_interpreter_wf])

section \<open>Properties\<close>

text \<open>
  C17. Execution ends and pays for itself. A run of the interpreter makes at most
  \<open>gas_limit * (length code + 1) + length code\<close> turns of its loop, whatever the code, the state and
  the access list are, and the result never reports more gas than the limit.
\<close>

theorem execution_ends_within_gas:
  assumes "vm_steps P n (new_interpreter ctx code w a) m"
  shows "n \<le> unat (ctx_gas_limit ctx) * (length code + 1) + length code
    \<and> (\<forall>m' r. execute P (new_interpreter ctx code w a) = (m', Ok r) \<longrightarrow> er_gas_used r \<le> ctx_gas_limit ctx)"
proof -
  have "n \<le> vm_potential (new_interpreter ctx code w a)" using steps_potential [OF assms] by simp
  moreover have "er_gas_used r \<le> ctx_gas_limit ctx" if e: "execute P (new_interpreter ctx code w a) = (m', Ok r)" for m' r
  proof -
    have "in_context m' = ctx" using execute_wf [of ctx code w P a] e by (simp add: vm_wf_def)
    then show ?thesis
      using execute_ok [OF e] by (auto simp: checked_sub_def word_le_nat_alt unat_saturating_sub unat_sub split: if_splits)
  qed
  ultimately show ?thesis by (auto simp: vm_potential_def new_interpreter_def)
qed

definition sample_vm_ports :: "(((address \<times> u256) \<times> u256) list, unit) vm_ports" where
  "sample_vm_ports =
     \<lparr>vp_keccak256 = (\<lambda>_. 0), vp_get_balance = (\<lambda>_ _. Ok 0),
      vp_get_storage = (\<lambda>addr key w. Ok (case map_of w (addr, key) of Some v \<Rightarrow> v | None \<Rightarrow> 0)),
      vp_set_storage = (\<lambda>addr key v w. (AList.update (addr, key) v w, Ok ())),
      vp_touch_account = (\<lambda>_ a. (a, Cold)), vp_touch_storage = (\<lambda>_ _ a. (a, Cold))\<rparr>"

definition sample_call_context :: "bool \<Rightarrow> execution_context" where
  "sample_call_context static =
     \<lparr>ctx_origin = 1, ctx_caller = 1, ctx_address = 2, ctx_value = 0, ctx_data = [], ctx_gas_limit = 30000, ctx_gas_price = 0,
      ctx_block = default_block_context, ctx_depth = 0, ctx_is_static = static\<rparr>"

text \<open>\<open>JUMPDEST PUSH0 JUMP\<close>, which loops until the gas is used up.\<close>

definition sample_loop :: "u8 list" where
  "sample_loop = [0x5B, 0x5F, 0x56]"

lemma from_be_zeros:
  "from_be_bytes (replicate n 0 @ bs) = (from_be_bytes bs :: 'a::len word)" "from_be_bytes (replicate n 0) = (0 :: 'a word)"
  "from_be_bytes [] = (0 :: 'a word)" "from_be_bytes [b] = (ucast b :: 'a word)"
proof -
  have "foldl (\<lambda>w b. push_bit 8 w OR ucast b) 0 (replicate n (0 :: u8)) = (0 :: 'a word)" by (induction n) simp_all
  then show "from_be_bytes (replicate n 0 @ bs) = (from_be_bytes bs :: 'a word)" "from_be_bytes (replicate n 0) = (0 :: 'a word)"
    "from_be_bytes [] = (0 :: 'a word)" "from_be_bytes [b] = (ucast b :: 'a word)"
    by (simp_all add: from_be_bytes_def)
qed

lemmas vm_run = new_interpreter_def sample_call_context_def sample_vm_ports_def vm_step_def from_byte_def opcode_table_def opcode_byte_def
  OPCODE_GAS_def gas_table_def cost_defs vm_charge_def consume_gas_def execute_opcode_def execute_family_def exec_flow_control_def
  vm_done_def exec_stack_ops_def exec_push_def push_value_def vm_push_def set_stack_def stack_push_def MAX_STACK_SIZE_def
  from_be_zeros exec_storage_ops_def exec_sstore_def vm_pop_def vm_touch_def store_value_def record_write_def exec_system_def
  exec_output_def vm_usize_def vm_add_def vm_memory_def mem_expand_def vm_read_def

lemma sample_loop_step: "\<exists>m. vm_step sample_vm_ports (new_interpreter (sample_call_context False) sample_loop [] ()) = (m, Ok ())"
  by (simp add: sample_loop_def vm_run)

lemma sample_loop_steps: "\<exists>m. vm_steps sample_vm_ports 1 (new_interpreter (sample_call_context False) sample_loop [] ()) m"
proof -
  obtain m where "vm_step sample_vm_ports (new_interpreter (sample_call_context False) sample_loop [] ()) = (m, Ok ())" using sample_loop_step by blast
  then have "vm_steps sample_vm_ports (Suc 0) (new_interpreter (sample_call_context False) sample_loop [] ()) m"
    by (rule steps_step [OF steps_refl, rotated 2]) (simp_all add: new_interpreter_def sample_loop_def)
  then show ?thesis by auto
qed

theorem execution_ends_within_gas_witness:
  "\<exists>m. vm_steps sample_vm_ports 1 (new_interpreter (sample_call_context False) sample_loop [] ()) m \<and> (1 :: nat) \<le> 30000 * (3 + 1) + 3"
proof -
  obtain m where s: "vm_steps sample_vm_ports 1 (new_interpreter (sample_call_context False) sample_loop [] ()) m" using sample_loop_steps by blast
  from execution_ends_within_gas [OF s] have "(1 :: nat) \<le> 30000 * (3 + 1) + 3" by (simp add: sample_call_context_def sample_loop_def)
  with s show ?thesis by blast
qed

text \<open>
  C29. The machine stays well formed and only code is executed. In every state a run reaches the stack has at
  most 1024 entries, the memory is a whole number of words and at most 16 MiB, and the program
  counter is at the beginning of an instruction: the data bytes of a push are never executed,
  whatever the destinations of the jumps are.
\<close>

theorem machine_stays_well_formed:
  assumes "vm_steps P n (new_interpreter ctx code w a) m"
  shows "length (in_stack m) \<le> 1024 \<and> length (in_memory m) \<le> 16 * 1024 * 1024 \<and> length (in_memory m) mod 32 = 0
    \<and> in_code m = code \<and> instr_start code (in_pc m)"
proof -
  have "vm_wf ctx code w m" by (rule steps_wf [OF assms new_interpreter_wf])
  moreover have "instr_start code (in_pc m)"
    by (rule steps_start [OF assms new_interpreter_wf]) (simp add: new_interpreter_def start_0)
  ultimately show ?thesis by (simp add: vm_wf_def mem_ok_def MAX_STACK_SIZE_def MAX_MEMORY_SIZE_def)
qed

theorem machine_stays_well_formed_witness:
  "\<exists>m. vm_steps sample_vm_ports 1 (new_interpreter (sample_call_context False) sample_loop [] ()) m \<and> instr_start sample_loop (in_pc m)"
proof -
  obtain m where s: "vm_steps sample_vm_ports 1 (new_interpreter (sample_call_context False) sample_loop [] ()) m" using sample_loop_steps by blast
  with machine_stays_well_formed [OF s] show ?thesis by blast
qed

text \<open>
  C27. A static call changes nothing. Whatever code runs in a static context and however it ends, the state
  of the chain is left as it was, and a result it returns carries no state change and no log.
\<close>

theorem static_call_changes_nothing:
  assumes "ctx_is_static ctx" and "execute P (new_interpreter ctx code w a) = (m, r)"
  shows "in_state m = w \<and> (\<forall>res. r = Ok res \<longrightarrow> er_state_changes res = [] \<and> er_logs res = [])"
proof -
  have "in_state m = w" "in_state_changes m = []" "in_logs m = []" using execute_wf [of ctx code w P a] assms by (simp_all add: vm_wf_def)
  then show ?thesis using execute_ok [of P _ m] assms(2) by fastforce
qed

theorem static_call_changes_nothing_witness:
  "in_state (fst (execute sample_vm_ports (new_interpreter (sample_call_context True) [0x60, 1, 0x60, 2, 0x55] [] ()))) = []"
  using static_call_changes_nothing [of "sample_call_context True" sample_vm_ports "[0x60, 1, 0x60, 2, 0x55]" "[]" "()", OF _ prod.collapse [symmetric]]
  by (simp add: sample_call_context_def)

text \<open>
  A reverted execution has already written. \<open>SSTORE\<close> writes to the state at once; the program below stores
  1 under key 2 and reverts, the interpreter answers with \<open>Revert\<close>, and the write stays.
\<close>

theorem reverted_write_stays:
  "(let (m, r) = execute sample_vm_ports (new_interpreter (sample_call_context False) [0x60, 1, 0x60, 2, 0x55, 0x5F, 0x5F, 0xFD] [] ())
    in r = Err (Revert ''Revert opcode'') \<and> in_state m = [((2, 2), 1)])"
  by (simp add: execute_def vm_loop.simps vm_run)

end
