(* ===== verification/EvmService.thy ===== *)
theory EvmService
  imports Evm
begin

declare map_of_eq_Some_iff [simp del] Some_eq_map_of_iff [simp del]

text \<open>
  The service around the virtual machine of QC-11: \<^verbatim>\<open>service.rs\<close>, the contract addresses of
  \<^verbatim>\<open>domain/services.rs\<close>, the run-time checks of \<^verbatim>\<open>domain/invariants.rs\<close>, transient storage and the in-memory
  adapters for the access list and the state. The service keeps the state port, the access list,
  transient storage and its statistics. The timer of \<open>tokio\<close> is the parameter \<open>timer\<close>: it says whether
  an execution is cut off and what the state and the access list are then. Execution times are the
  parameter \<open>elapsed\<close>.
\<close>

section \<open>Contract addresses\<close>

definition trim_zeros :: "u8 list \<Rightarrow> u8 list" where
  "trim_zeros bs = (let r = dropWhile (\<lambda>b. b = 0) bs in if r = [] then [last bs] else r)"

definition encode_nonce :: "u64 \<Rightarrow> u8 list" where
  "encode_nonce nonce = trim_zeros (be_bytes 8 nonce)"

definition encode_length :: "usize \<Rightarrow> u8 list" where
  "encode_length n = trim_zeros (be_bytes 8 (of_nat n :: u64))"

definition creation_rlp :: "address \<Rightarrow> u64 \<Rightarrow> u8 list" where
  "creation_rlp sender nonce =
     (let content = 0x94 # be_bytes 20 sender @
            (if nonce = 0 then [0x80]
             else if nonce < 128 then [ucast nonce]
             else (0x80 + of_nat (length (encode_nonce nonce))) # encode_nonce nonce)
      in (if length content < 56 then [0xC0 + of_nat (length content)]
          else (0xF7 + of_nat (length (encode_length (length content)))) # encode_length (length content)) @ content)"

definition compute_contract_address :: "(u8 list \<Rightarrow> hash) \<Rightarrow> address \<Rightarrow> u64 \<Rightarrow> address" where
  "compute_contract_address keccak sender nonce = from_be_bytes (drop 12 (be_bytes 32 (keccak (creation_rlp sender nonce))))"

definition compute_contract_address_create2 :: "(u8 list \<Rightarrow> hash) \<Rightarrow> address \<Rightarrow> hash \<Rightarrow> u8 list \<Rightarrow> address" where
  "compute_contract_address_create2 keccak sender salt init_code =
     from_be_bytes (drop 12 (be_bytes 32 (keccak
       (0xFF # be_bytes 20 sender @ be_bytes 32 salt @ be_bytes 32 (keccak init_code)))))"

definition derive_address_from_pubkey :: "(u8 list \<Rightarrow> hash) \<Rightarrow> u8 list \<Rightarrow> address" where
  "derive_address_from_pubkey keccak public_key = from_be_bytes (drop 12 (be_bytes 32 (keccak public_key)))"

definition estimate_base_gas :: "u8 list \<Rightarrow> bool \<Rightarrow> nat" where
  "estimate_base_gas data is_contract_creation =
     (if is_contract_creation then 53000 else 21000) + sum_list (map (\<lambda>b. if b = 0 then 4 else 16) data)"

section \<open>Run-time invariants\<close>

datatype evm_version = Istanbul | Berlin | London | Paris | Shanghai

record vm_config =
  vc_max_call_depth :: u16
  vc_max_code_size :: usize
  vc_max_init_code_size :: usize
  vc_max_stack_size :: usize
  vc_max_memory_size :: usize
  vc_evm_version :: evm_version

definition default_vm_config :: vm_config where
  "default_vm_config =
     \<lparr>vc_max_call_depth = 1024, vc_max_code_size = 24576, vc_max_init_code_size = 49152, vc_max_stack_size = 1024,
      vc_max_memory_size = 16 * 1024 * 1024, vc_evm_version = Shanghai\<rparr>"

definition BLOCK_GAS_LIMIT :: u64 where "BLOCK_GAS_LIMIT = 30000000"

definition max_gas_limit :: "vm_config \<Rightarrow> u64" where
  "max_gas_limit config = BLOCK_GAS_LIMIT"










section \<open>Transient storage\<close>

type_synonym transient_storage = "(address \<times> (u256 \<times> u256) list) list"

definition tload :: "transient_storage \<Rightarrow> address \<Rightarrow> u256 \<Rightarrow> u256" where
  "tload t addr key =
     (case Option.bind (map_of t addr) (\<lambda>storage. map_of storage key) of Some v \<Rightarrow> v | None \<Rightarrow> 0)"

definition tstore :: "address \<Rightarrow> u256 \<Rightarrow> u256 \<Rightarrow> transient_storage \<Rightarrow> transient_storage" where
  "tstore addr key v t =
     AList.update addr (AList.update key v (case map_of t addr of Some storage \<Rightarrow> storage | None \<Rightarrow> [])) t"

definition contract_count :: "transient_storage \<Rightarrow> usize" where
  "contract_count t = length t"

definition transient_slot_count :: "transient_storage \<Rightarrow> usize" where
  "transient_slot_count t = sum_list (map (\<lambda>(_, storage). length storage) t)"

section \<open>The in-memory access list\<close>

record access_list =
  al_warm_accounts :: "address list"
  al_warm_storage :: "(address \<times> u256 list) list"

definition new_access_list :: access_list where
  "new_access_list = \<lparr>al_warm_accounts = [], al_warm_storage = []\<rparr>"

definition warm_slots :: "access_list \<Rightarrow> address \<Rightarrow> u256 list" where
  "warm_slots l addr = (case map_of (al_warm_storage l) addr of Some slots \<Rightarrow> slots | None \<Rightarrow> [])"

definition touch_account :: "address \<Rightarrow> access_list \<Rightarrow> access_list \<times> access_status" where
  "touch_account addr l =
     (if addr \<in> set (al_warm_accounts l) then (l, Warm)
      else (l\<lparr>al_warm_accounts := List.insert addr (al_warm_accounts l)\<rparr>, Cold))"

definition touch_storage :: "address \<Rightarrow> u256 \<Rightarrow> access_list \<Rightarrow> access_list \<times> access_status" where
  "touch_storage addr key l =
     (let l = l\<lparr>al_warm_accounts := List.insert addr (al_warm_accounts l)\<rparr>; slots = warm_slots l addr in
      if key \<in> set slots then (l\<lparr>al_warm_storage := AList.update addr slots (al_warm_storage l)\<rparr>, Warm)
      else (l\<lparr>al_warm_storage := AList.update addr (List.insert key slots) (al_warm_storage l)\<rparr>, Cold))"

definition is_account_warm :: "access_list \<Rightarrow> address \<Rightarrow> bool" where
  "is_account_warm l addr = (addr \<in> set (al_warm_accounts l))"

definition is_storage_warm :: "access_list \<Rightarrow> address \<Rightarrow> u256 \<Rightarrow> bool" where
  "is_storage_warm l addr key = (case map_of (al_warm_storage l) addr of Some slots \<Rightarrow> key \<in> set slots | None \<Rightarrow> False)"

definition with_prewarmed :: "address list \<Rightarrow> (address \<times> u256) list \<Rightarrow> access_list" where
  "with_prewarmed accounts slots =
     (let l = fold (\<lambda>addr l. l\<lparr>al_warm_accounts := List.insert addr (al_warm_accounts l)\<rparr>) accounts new_access_list
      in fold (\<lambda>(addr, key) l. l\<lparr>al_warm_storage := AList.update addr (List.insert key (warm_slots l addr)) (al_warm_storage l)\<rparr>) slots l)"

definition prewarm_standard :: "address \<Rightarrow> address \<Rightarrow> access_list \<Rightarrow> access_list" where
  "prewarm_standard origin recipient l =
     fold (\<lambda>addr l. l\<lparr>al_warm_accounts := List.insert addr (al_warm_accounts l)\<rparr>)
       (map of_nat [1..<10] @ [origin, recipient]) l"

section \<open>The in-memory state\<close>

record evm_account =
  ea_balance :: u256
  ea_nonce :: u64
  ea_code_hash :: hash
  ea_storage_root :: hash

definition EVM_EMPTY_CODE_HASH :: hash where
  "EVM_EMPTY_CODE_HASH = 0xC5D2460186F7233C927E7DB2DCC703C0E500B653CA82273B7BFAD8045D85A470"

definition new_eoa :: "u256 \<Rightarrow> u64 \<Rightarrow> evm_account" where
  "new_eoa balance nonce =
     \<lparr>ea_balance = balance, ea_nonce = nonce, ea_code_hash = EVM_EMPTY_CODE_HASH, ea_storage_root = 0\<rparr>"

record memory_state =
  ms_accounts :: "(address \<times> evm_account) list"
  ms_code :: "(address \<times> u8 list) list"
  ms_storage :: "((address \<times> u256) \<times> u256) list"

definition new_memory_state :: memory_state where
  "new_memory_state = \<lparr>ms_accounts = [], ms_code = [], ms_storage = []\<rparr>"

definition account_or_new :: "memory_state \<Rightarrow> address \<Rightarrow> evm_account" where
  "account_or_new w addr = (case map_of (ms_accounts w) addr of Some acct \<Rightarrow> acct | None \<Rightarrow> new_eoa 0 0)"

definition ms_set_balance :: "address \<Rightarrow> u256 \<Rightarrow> memory_state \<Rightarrow> memory_state" where
  "ms_set_balance addr balance w =
     w\<lparr>ms_accounts := AList.update addr (account_or_new w addr\<lparr>ea_balance := balance\<rparr>) (ms_accounts w)\<rparr>"

definition ms_set_code :: "(u8 list \<Rightarrow> hash) \<Rightarrow> address \<Rightarrow> u8 list \<Rightarrow> memory_state \<Rightarrow> memory_state" where
  "ms_set_code keccak addr code w =
     (let code_hash = if code = [] then EVM_EMPTY_CODE_HASH else keccak code in
      w\<lparr>ms_accounts := AList.update addr (account_or_new w addr\<lparr>ea_code_hash := code_hash\<rparr>) (ms_accounts w),
        ms_code := AList.update addr code (ms_code w)\<rparr>)"

definition ms_get_storage :: "address \<Rightarrow> u256 \<Rightarrow> memory_state \<Rightarrow> (u256, evm_state_error) outcome" where
  "ms_get_storage addr key w = Ok (case map_of (ms_storage w) (addr, key) of Some v \<Rightarrow> v | None \<Rightarrow> 0)"

definition ms_set_storage :: "address \<Rightarrow> u256 \<Rightarrow> u256 \<Rightarrow> memory_state \<Rightarrow> memory_state \<times> (unit, evm_state_error) outcome" where
  "ms_set_storage addr key v w = (w\<lparr>ms_storage := AList.update (addr, key) v (ms_storage w)\<rparr>, Ok ())"

definition ms_get_code :: "address \<Rightarrow> memory_state \<Rightarrow> (u8 list, evm_state_error) outcome" where
  "ms_get_code addr w = Ok (case map_of (ms_code w) addr of Some code \<Rightarrow> code | None \<Rightarrow> [])"

definition ms_get_balance :: "address \<Rightarrow> memory_state \<Rightarrow> (u256, evm_state_error) outcome" where
  "ms_get_balance addr w = Ok (case map_of (ms_accounts w) addr of Some acct \<Rightarrow> ea_balance acct | None \<Rightarrow> 0)"

definition memory_ports :: "(u8 list \<Rightarrow> hash) \<Rightarrow> (memory_state, access_list) vm_ports" where
  "memory_ports keccak =
     \<lparr>vp_keccak256 = keccak, vp_get_balance = ms_get_balance, vp_get_storage = ms_get_storage, vp_set_storage = ms_set_storage,
      vp_touch_account = touch_account, vp_touch_storage = touch_storage\<rparr>"

section \<open>Error texts\<close>

definition hex_byte_upper :: "u8 \<Rightarrow> string" where
  "hex_byte_upper b = [''0123456789ABCDEF'' ! (unat b div 16), ''0123456789ABCDEF'' ! (unat b mod 16)]"

definition address_debug :: "address \<Rightarrow> string" where
  "address_debug addr = ''0x'' @ concat (map hex_byte (be_bytes 20 addr))"

fun evm_state_error_text :: "evm_state_error \<Rightarrow> string" where
  "evm_state_error_text (EvmNotFound addr) = ''state not found for address: '' @ address_debug addr"
| "evm_state_error_text EvmCorrupted = ''state corruption detected''"
| "evm_state_error_text EvmStateTimeout = ''state access timeout''"
| "evm_state_error_text EvmAccessDenied = ''state access denied''"
| "evm_state_error_text EvmUnavailable = ''state subsystem unavailable''"
| "evm_state_error_text EvmInvalidStateRoot = ''invalid state root''"
| "evm_state_error_text (EvmOther t) = ''state error: '' @ t"

fun vm_error_text :: "vm_error \<Rightarrow> string" where
  "vm_error_text OutOfGas = ''out of gas''"
| "vm_error_text StackOverflow = ''stack overflow''"
| "vm_error_text StackUnderflow = ''stack underflow''"
| "vm_error_text (InvalidOpcode b) = ''invalid opcode: 0x'' @ hex_byte_upper b"
| "vm_error_text (InvalidJump d) = ''invalid jump destination: '' @ nat_str d"
| "vm_error_text (CallDepthExceeded d m) = ''call depth exceeded: '' @ nat_str (unat d) @ '' > '' @ nat_str (unat m)"
| "vm_error_text (CodeSizeExceeded n m) = ''code size exceeded: '' @ nat_str n @ '' > '' @ nat_str m @ '' bytes''"
| "vm_error_text (InitCodeSizeExceeded n m) = ''init code size exceeded: '' @ nat_str n @ '' > '' @ nat_str m @ '' bytes''"
| "vm_error_text WriteInStaticContext = ''write operation in static context''"
| "vm_error_text (VmInsufficientBalance r a) =
     ''insufficient balance: required '' @ nat_str (unat r) @ '', available '' @ nat_str (unat a)"
| "vm_error_text (VmStateError e) = ''state error: '' @ evm_state_error_text e"
| "vm_error_text (Revert t) = ''revert: '' @ t"
| "vm_error_text (MemoryOutOfBounds off n) = ''memory access out of bounds: offset '' @ nat_str off @ '', size '' @ nat_str n"
| "vm_error_text (MemoryLimitExceeded n m) = ''memory limit exceeded: '' @ nat_str n @ '' > '' @ nat_str m @ '' bytes''"
| "vm_error_text (ReturnDataOutOfBounds off n a) =
     ''return data out of bounds: offset '' @ nat_str off @ '', size '' @ nat_str n @ '', available '' @ nat_str a"
| "vm_error_text (ContractAlreadyExists addr) = ''contract already exists at address: '' @ address_debug addr"
| "vm_error_text InvalidContractCreation = ''invalid contract creation: code is empty''"
| "vm_error_text InvalidCodePrefix = ''code starts with 0xEF byte (reserved for EOF)''"
| "vm_error_text (VmTimeout e m) = ''execution timeout: '' @ nat_str (unat e) @ ''ms > '' @ nat_str (unat m) @ ''ms''"
| "vm_error_text (Internal t) = ''internal error: '' @ t"

section \<open>The service\<close>

record evm_transaction =
  et_from :: address
  et_to :: "address option"
  et_value :: u256
  et_nonce :: u64
  et_gas_price :: u256
  et_gas_limit :: u64
  et_data :: "u8 list"
  et_hash :: hash

record execute_request =
  xq_from :: address
  xq_to :: "address option"
  xq_value :: u256
  xq_nonce :: u64
  xq_gas_price :: u256
  xq_gas_limit :: u64
  xq_data :: "u8 list"
  xq_tx_hash :: hash
  xq_block_context :: evm_block_context

record execute_response =
  xr_success :: bool
  xr_gas_used :: u64
  xr_output :: "u8 list"
  xr_logs :: "evm_log list"
  xr_state_changes :: "state_change list"
  xr_contract_address :: "address option"
  xr_revert_reason :: "string option"

record htlc_response =
  hr_success :: bool
  hr_gas_used :: u64
  hr_revert_reason :: "string option"

datatype evm_ipc_error =
    EipValidationFailed string
  | EipUnauthorizedSender u8 "u8 list"
  | EipCorrelationMismatch
  | EipTimeout u64
  | EipSerializationError string
  | EipEventBusError string
  | EipReplyToMismatch u8 u8

record service_config =
  sc_vm_config :: vm_config
  sc_execution_timeout_ms :: u64
  sc_max_pending_requests :: usize
  sc_enable_tracing :: bool

definition default_service_config :: service_config where
  "default_service_config =
     \<lparr>sc_vm_config = default_vm_config, sc_execution_timeout_ms = 5000, sc_max_pending_requests = 1000, sc_enable_tracing = False\<rparr>"

record service_stats =
  ss_transactions_executed :: u64
  ss_successful_executions :: u64
  ss_failed_executions :: u64
  ss_total_gas_used :: u64
  ss_avg_execution_time_us :: u64
  ss_rejected_requests :: u64

definition default_service_stats :: service_stats where
  "default_service_stats =
     \<lparr>ss_transactions_executed = 0, ss_successful_executions = 0, ss_failed_executions = 0, ss_total_gas_used = 0,
      ss_avg_execution_time_us = 0, ss_rejected_requests = 0\<rparr>"

record ('w, 'a) contract_service =
  cs_config :: service_config
  cs_state :: 'w
  cs_access_list :: 'a
  cs_transient :: transient_storage
  cs_stats :: service_stats

definition new_contract_service :: "'w \<Rightarrow> 'a \<Rightarrow> service_config \<Rightarrow> ('w, 'a) contract_service" where
  "new_contract_service w a config =
     \<lparr>cs_config = config, cs_state = w, cs_access_list = a, cs_transient = [], cs_stats = default_service_stats\<rparr>"

definition is_authorized_execution_sender :: "u8 \<Rightarrow> bool" where
  "is_authorized_execution_sender sender_id = (sender_id = 8 \<or> sender_id = 12)"

definition is_authorized_htlc_sender :: "u8 \<Rightarrow> bool" where
  "is_authorized_htlc_sender sender_id = (sender_id = 15)"

definition prewarm :: "('w, 'a) vm_ports \<Rightarrow> execution_context \<Rightarrow> 'a \<Rightarrow> 'a" where
  "prewarm P ctx a =
     (let a = fst (vp_touch_account P (ctx_origin ctx) a); a = fst (vp_touch_account P (ctx_address ctx) a)
      in if ctx_caller ctx \<noteq> ctx_origin ctx then fst (vp_touch_account P (ctx_caller ctx) a) else a)"

definition execute_code :: "('w, 'a) vm_ports \<Rightarrow> execution_context \<Rightarrow> u8 list \<Rightarrow> ('w, 'a) contract_service
    \<Rightarrow> ('w, 'a) contract_service \<times> (execution_result, vm_error) outcome" where
  "execute_code P ctx code s =
     (case execute P (new_interpreter ctx code (cs_state s) (prewarm P ctx (cs_access_list s))) of
        (m, r) \<Rightarrow> (s\<lparr>cs_state := in_state m, cs_access_list := in_access_list m\<rparr>, r))"

definition transaction_context :: "(u8 list \<Rightarrow> hash) \<Rightarrow> evm_transaction \<Rightarrow> evm_block_context \<Rightarrow> execution_context" where
  "transaction_context keccak tx blk =
     \<lparr>ctx_origin = et_from tx, ctx_caller = et_from tx,
      ctx_address = (case et_to tx of Some addr \<Rightarrow> addr | None \<Rightarrow> compute_contract_address keccak (et_from tx) (et_nonce tx)),
      ctx_value = et_value tx, ctx_data = et_data tx, ctx_gas_limit = et_gas_limit tx, ctx_gas_price = et_gas_price tx,
      ctx_block = blk, ctx_depth = 0, ctx_is_static = False\<rparr>"

type_synonym ('w, 'a) exec_timer = "execution_context \<Rightarrow> ('w \<times> 'a) option"

definition execute_transaction_internal :: "('w, 'a) vm_ports \<Rightarrow> (address \<Rightarrow> 'w \<Rightarrow> (u8 list, evm_state_error) outcome)
    \<Rightarrow> ('w, 'a) exec_timer \<Rightarrow> evm_transaction \<Rightarrow> evm_block_context \<Rightarrow> ('w, 'a) contract_service
    \<Rightarrow> ('w, 'a) contract_service \<times> (execution_result, vm_error) outcome" where
  "execute_transaction_internal P get_code timer tx blk s =
     (case (case et_to tx of None \<Rightarrow> Ok (et_data tx) | Some addr \<Rightarrow> get_code addr (cs_state s)) of
        Err e \<Rightarrow> (s, Err (VmStateError e))
      | Panic \<Rightarrow> (s, Panic)
      | Ok code \<Rightarrow>
          (let ctx = transaction_context (vp_keccak256 P) tx blk; limit = sc_execution_timeout_ms (cs_config s) in
           case timer ctx of
             Some (w, a) \<Rightarrow> (s\<lparr>cs_state := w, cs_access_list := a\<rparr>, Err (VmTimeout limit limit))
           | None \<Rightarrow> execute_code P ctx code s))"

text \<open>The statistics; an overflow of a counter is a panic.\<close>

definition average_time :: "u64 \<Rightarrow> u64 \<Rightarrow> u64 \<Rightarrow> u64 option" where
  "average_time avg n elapsed =
     Option.bind (checked_mul avg (n - 1)) (\<lambda>p. Option.bind (checked_add p elapsed) (\<lambda>q. if n = 0 then None else Some (q div n)))"

definition update_stats :: "u64 \<Rightarrow> (execution_result, vm_error) outcome \<Rightarrow> service_stats \<Rightarrow> service_stats option" where
  "update_stats elapsed r st =
     Option.bind (checked_add (ss_transactions_executed st) 1) (\<lambda>n.
     Option.bind
       (case r of
          Ok res \<Rightarrow>
            (if er_success res
             then Option.bind (checked_add (ss_successful_executions st) 1) (\<lambda>k.
                  Option.bind (checked_add (ss_total_gas_used st) (er_gas_used res)) (\<lambda>g.
                  Some (st\<lparr>ss_transactions_executed := n, ss_successful_executions := k, ss_total_gas_used := g\<rparr>)))
             else Option.bind (checked_add (ss_failed_executions st) 1) (\<lambda>k.
                  Some (st\<lparr>ss_transactions_executed := n, ss_failed_executions := k\<rparr>)))
        | _ \<Rightarrow> Option.bind (checked_add (ss_failed_executions st) 1) (\<lambda>k.
                 Some (st\<lparr>ss_transactions_executed := n, ss_failed_executions := k\<rparr>))) (\<lambda>st'.
     Option.bind (average_time (ss_avg_execution_time_us st') n elapsed) (\<lambda>t.
     Some (st'\<lparr>ss_avg_execution_time_us := t\<rparr>))))"

definition transaction_of_request :: "execute_request \<Rightarrow> evm_transaction" where
  "transaction_of_request q =
     \<lparr>et_from = xq_from q, et_to = xq_to q, et_value = xq_value q, et_nonce = xq_nonce q, et_gas_price = xq_gas_price q,
      et_gas_limit = xq_gas_limit q, et_data = xq_data q, et_hash = xq_tx_hash q\<rparr>"

definition reject_request :: "u8 \<Rightarrow> u8 list \<Rightarrow> ('w, 'a) contract_service \<Rightarrow> ('w, 'a) contract_service \<times> ('r, evm_ipc_error) outcome" where
  "reject_request sender_id allowed s =
     (case checked_add (ss_rejected_requests (cs_stats s)) 1 of
        None \<Rightarrow> (s, Panic)
      | Some n \<Rightarrow> (s\<lparr>cs_stats := cs_stats s\<lparr>ss_rejected_requests := n\<rparr>\<rparr>, Err (EipUnauthorizedSender sender_id allowed)))"

definition response_of :: "(u8 list \<Rightarrow> hash) \<Rightarrow> execute_request \<Rightarrow> (execution_result, vm_error) outcome
    \<Rightarrow> (execute_response, evm_ipc_error) outcome" where
  "response_of keccak q r =
     (case r of
        Ok res \<Rightarrow> Ok \<lparr>xr_success = er_success res, xr_gas_used = er_gas_used res, xr_output = er_output res, xr_logs = er_logs res,
                      xr_state_changes = er_state_changes res,
                      xr_contract_address =
                        (if xq_to q = None then Some (compute_contract_address keccak (xq_from q) (xq_nonce q)) else None),
                      xr_revert_reason = er_revert_reason res\<rparr>
      | Err e \<Rightarrow> Ok \<lparr>xr_success = False, xr_gas_used = xq_gas_limit q, xr_output = [], xr_logs = [], xr_state_changes = [],
                     xr_contract_address = None, xr_revert_reason = Some (vm_error_text e)\<rparr>
      | Panic \<Rightarrow> Panic)"

definition handle_execute_transaction :: "('w, 'a) vm_ports \<Rightarrow> (address \<Rightarrow> 'w \<Rightarrow> (u8 list, evm_state_error) outcome)
    \<Rightarrow> ('w, 'a) exec_timer \<Rightarrow> u64 \<Rightarrow> u8 \<Rightarrow> execute_request \<Rightarrow> ('w, 'a) contract_service
    \<Rightarrow> ('w, 'a) contract_service \<times> (execute_response, evm_ipc_error) outcome" where
  "handle_execute_transaction P get_code timer elapsed sender_id q s =
     (if \<not> is_authorized_execution_sender sender_id then reject_request sender_id [8, 12] s
      else case execute_transaction_internal P get_code timer (transaction_of_request q) (xq_block_context q) s of
        (s', Panic) \<Rightarrow> (s', Panic)
      | (s', r) \<Rightarrow>
          (case update_stats elapsed r (cs_stats s') of
             None \<Rightarrow> (s', Panic)
           | Some st \<Rightarrow> (s'\<lparr>cs_stats := st, cs_transient := []\<rparr>, response_of (vp_keccak256 P) q r)))"

definition handle_execute_htlc :: "u8 \<Rightarrow> ('w, 'a) contract_service \<Rightarrow> ('w, 'a) contract_service \<times> (htlc_response, evm_ipc_error) outcome" where
  "handle_execute_htlc sender_id s =
     (if \<not> is_authorized_htlc_sender sender_id then reject_request sender_id [15] s
      else (s, Ok \<lparr>hr_success = True, hr_gas_used = 21000, hr_revert_reason = None\<rparr>))"

definition estimate_gas :: "('w, 'a) vm_ports \<Rightarrow> execution_context \<Rightarrow> u8 list \<Rightarrow> ('w, 'a) contract_service
    \<Rightarrow> ('w, 'a) contract_service \<times> (u64, vm_error) outcome" where
  "estimate_gas P ctx code s =
     (case execute_code P (ctx\<lparr>ctx_gas_limit := max_gas_limit (sc_vm_config (cs_config s))\<rparr>) code s of
        (s', Ok res) \<Rightarrow>
          (case checked_add (er_gas_used res) (er_gas_used res div 10) of Some g \<Rightarrow> (s', Ok g) | None \<Rightarrow> (s', Panic))
      | (s', Err e) \<Rightarrow> (s', Err e)
      | (s', Panic) \<Rightarrow> (s', Panic))"

definition static_call :: "('w, 'a) vm_ports \<Rightarrow> execution_context \<Rightarrow> u8 list \<Rightarrow> ('w, 'a) contract_service
    \<Rightarrow> ('w, 'a) contract_service \<times> (u8 list, vm_error) outcome" where
  "static_call P ctx code s =
     (case execute_code P (ctx\<lparr>ctx_is_static := True\<rparr>) code s of
        (s', Ok res) \<Rightarrow>
          (s', if er_success res then Ok (er_output res)
               else Err (Revert (case er_revert_reason res of Some t \<Rightarrow> t | None \<Rightarrow> ''execution reverted'')))
      | (s', Err e) \<Rightarrow> (s', Err e)
      | (s', Panic) \<Rightarrow> (s', Panic))"

section \<open>Reverting\<close>

definition unreverted :: "('w, 'a) interpreter \<Rightarrow> ('w, 'a) interpreter \<Rightarrow> bool" where
  "unreverted m m' \<longleftrightarrow> in_reverted m' = in_reverted m"

interpretation vmr: frame_relation unreverted
  by unfold_locales (simp_all add: unreverted_def)

lemma revert_fails: "snd (exec_system OpRevert m) \<noteq> Ok ()"
  by (auto simp: exec_system_def exec_output_def vm_pop_def vm_usize_def vm_add_def vm_memory_def vm_read_def
      split: outcome.splits prod.splits)

lemma jump_unreverted:
  fixes m :: "('w, 'a) interpreter"
  assumes "op = OpJump \<or> op = OpJumpI"
  shows "unreverted m (fst (exec_flow_control op m))"
proof -
  have "vmr.keeps (\<lambda>_. True) (jump n :: ('w, 'a, unit) vm)" for n by (rule vmr.keepsI) (simp add: jump_def unreverted_def)
  then have "vmr.keeps (\<lambda>_. True) (exec_flow_control op :: ('w, 'a, unit) vm)"
    using assms by (elim disjE; simp only: exec_flow_control_def flow_op.case; intro vmr.keeps_rules) (simp_all add: vmr.keeps_done)
  then show ?thesis by (rule vmr.keepsD) simp
qed

lemma push_unreverted: "unreverted m (fst (exec_push n m))"
  by (auto simp: exec_push_def vm_push_def set_stack_def unreverted_def Let_def split: outcome.splits prod.splits)

lemma family_unreverted:
  assumes "snd (execute_family P op m) = Ok ()"
  shows "unreverted m (fst (execute_family P op m))"
proof (cases "moves_pc op")
  case True
  then show ?thesis
    by (cases op rule: moves_pc.cases) (simp_all add: execute_family_def jump_unreverted exec_stack_ops_def push_unreverted)
next
  case False
  moreover have "op \<noteq> System OpRevert" using assms revert_fails [of m] by (auto simp: execute_family_def)
  ultimately show ?thesis by (rule vmr.keeps_family)
qed

lemma step_unreverted:
  assumes "vm_step P m = (m', Ok ())"
  shows "in_reverted m' = in_reverted m"
proof -
  define op where "op = opcode_at (in_code m) (in_pc m)"
  define m1 where "m1 = m\<lparr>in_gas_remaining := in_gas_remaining m - OPCODE_GAS (opcode_byte op)\<rparr>"
  have "execute_family P op (m1\<lparr>in_pc := in_pc m1 + 1\<rparr>) = (m', Ok ())"
    using assms by (simp add: vm_step_def vm_charge_def consume_gas_def execute_opcode_def m1_def del: opcode_at.simps flip: op_def split: if_splits)
  with family_unreverted [of P op "m1\<lparr>in_pc := in_pc m1 + 1\<rparr>"] show ?thesis by (simp add: unreverted_def m1_def)
qed

lemma steps_unreverted: "vm_steps P n m m' \<Longrightarrow> in_reverted m' = in_reverted m"
  by (induction rule: vm_steps.induct) (simp_all add: step_unreverted)

lemma execute_success:
  assumes "execute P (new_interpreter ctx code w a) = (m, Ok r)"
  shows "er_success r" "er_revert_reason r = None"
proof -
  let ?m = "new_interpreter ctx code w a"
  have e: "snd (vm_loop P ?m) = Ok ()" "fst (vm_loop P ?m) = m" "er_success r = (\<not> in_reverted m)" "er_revert_reason r = None"
    using assms by (auto simp: execute_def Let_def split: prod.splits outcome.splits option.splits)
  from loop_runs [of P ?m] e(1) obtain n m' where "vm_steps P n ?m m'" "in_reverted (fst (vm_loop P ?m)) = in_reverted m'" by auto
  then have "\<not> in_reverted m" using steps_unreverted [of P n ?m m'] e(2) by (simp add: new_interpreter_def)
  with e show "er_success r" "er_revert_reason r = None" by simp_all
qed

section \<open>The access list\<close>

text \<open>
  What the interpreter relies on in an access list: touching reports whether the entry was warm, makes
  it warm, and leaves every other warm entry warm.
\<close>

locale access_tracker =
  fixes touch_acc :: "address \<Rightarrow> 'a \<Rightarrow> 'a \<times> access_status"
    and touch_slot :: "address \<Rightarrow> u256 \<Rightarrow> 'a \<Rightarrow> 'a \<times> access_status"
    and warm_acc :: "'a \<Rightarrow> address \<Rightarrow> bool"
    and warm_slot :: "'a \<Rightarrow> address \<Rightarrow> u256 \<Rightarrow> bool"
  assumes acc_status: "snd (touch_acc x l) = (if warm_acc l x then Warm else Cold)"
    and acc_warm: "warm_acc (fst (touch_acc x l)) y \<longleftrightarrow> y = x \<or> warm_acc l y"
    and acc_slot: "warm_slot (fst (touch_acc x l)) y k \<longleftrightarrow> warm_slot l y k"
    and slot_status: "snd (touch_slot x k l) = (if warm_slot l x k then Warm else Cold)"
    and slot_warm: "warm_slot (fst (touch_slot x k l)) y j \<longleftrightarrow> y = x \<and> j = k \<or> warm_slot l y j"
    and slot_acc: "warm_acc (fst (touch_slot x k l)) y \<longleftrightarrow> y = x \<or> warm_acc l y"
begin

fun touch_all :: "(address \<times> u256) list \<Rightarrow> 'a \<Rightarrow> 'a \<times> access_status list" where
  "touch_all [] l = (l, [])"
| "touch_all ((x, k) # xs) l =
     (case touch_slot x k l of (l1, s) \<Rightarrow> case touch_all xs l1 of (l2, ss) \<Rightarrow> (l2, s # ss))"

text \<open>However often slots are touched, each slot that was cold is paid cold exactly once.\<close>

lemma cold_once:
  "length (filter (\<lambda>s. s = Cold) (snd (touch_all xs l))) = card {p \<in> set xs. \<not> warm_slot l (fst p) (snd p)}"
proof (induction xs arbitrary: l)
  case (Cons xk xs)
  obtain x k where xk: "xk = (x, k)" by fastforce
  obtain l1 s l2 ss where t: "touch_slot x k l = (l1, s)" and t2: "touch_all xs l1 = (l2, ss)" by fastforce
  have w: "warm_slot l1 y j \<longleftrightarrow> y = x \<and> j = k \<or> warm_slot l y j" for y j using slot_warm [of x k l y j] t by simp
  have s: "s = (if warm_slot l x k then Warm else Cold)" using slot_status [of x k l] t by simp
  let ?A = "{p \<in> set xs. \<not> warm_slot l1 (fst p) (snd p)}"
  have "{p \<in> set (xk # xs). \<not> warm_slot l (fst p) (snd p)} = (if warm_slot l x k then ?A else insert (x, k) ?A)"
    by (auto simp: w xk)
  moreover have "(x, k) \<notin> ?A" by (simp add: w)
  ultimately show ?case using Cons [of l1] by (simp add: xk t t2 s)
qed simp

end

lemma warm_slots_iff: "is_storage_warm l x k \<longleftrightarrow> k \<in> set (warm_slots l x)"
  by (simp add: is_storage_warm_def warm_slots_def split: option.split)

interpretation mal: access_tracker touch_account touch_storage is_account_warm is_storage_warm
  by unfold_locales
    (auto simp: touch_account_def touch_storage_def is_account_warm_def warm_slots_iff warm_slots_def Let_def update_conv'
      split: option.splits if_splits)

section \<open>Results\<close>

lemma execute_code_machine:
  assumes "execute_code P ctx code s = (s', r)"
  shows "\<exists>a m. execute P (new_interpreter ctx code (cs_state s) a) = (m, r) \<and>
    s' = s\<lparr>cs_state := in_state m, cs_access_list := in_access_list m\<rparr>"
  using assms by (auto simp: execute_code_def split: prod.splits)

lemma executed_result:
  assumes "execute_code P ctx code s = (s', Ok res)"
  shows "er_success res" "er_revert_reason res = None" "er_gas_used res \<le> ctx_gas_limit ctx"
    "ctx_is_static ctx \<Longrightarrow> er_state_changes res = []"
proof -
  obtain a m where e: "execute P (new_interpreter ctx code (cs_state s) a) = (m, Ok res)"
    using execute_code_machine [OF assms] by blast
  then have wf: "vm_wf ctx code (cs_state s) m" using execute_wf [of ctx code "cs_state s" P a] by simp
  show "er_success res" "er_revert_reason res = None" using execute_success [OF e] by simp_all
  show "er_gas_used res \<le> ctx_gas_limit ctx" using execute_ok [OF e] wf
    by (auto simp: vm_wf_def checked_sub_def word_le_nat_alt unat_saturating_sub unat_sub split: if_splits)
  show "ctx_is_static ctx \<Longrightarrow> er_state_changes res = []" using execute_ok [OF e] wf by (auto simp: vm_wf_def)
qed

lemma stats_count:
  assumes "update_stats t r st = Some st'"
    and "unat (ss_transactions_executed st) = unat (ss_successful_executions st) + unat (ss_failed_executions st)"
  shows "unat (ss_transactions_executed st') = unat (ss_transactions_executed st) + 1"
    "unat (ss_transactions_executed st') = unat (ss_successful_executions st') + unat (ss_failed_executions st')"
  using assms
  by (auto simp: update_stats_def checked_add_Some_iff average_time_def unat_add_no_overflow
      split: outcome.splits if_splits Option.bind_splits)

section \<open>Properties\<close>



text \<open>
  The service answers within the limits and for authorized senders only. A sender other than
  consensus and transaction ordering changes neither the state nor the access list and is counted as
  rejected. A response never reports more gas than the transaction offers, a failed one carries a
  reason and no change and no log, transient storage is empty afterwards, and the statistics count
  each transaction once, as successful or failed.
\<close>

theorem service_answers_within_limits:
  assumes "handle_execute_transaction P get_code timer elapsed sender q s = (s', r)"
    and "unat (ss_transactions_executed (cs_stats s)) =
      unat (ss_successful_executions (cs_stats s)) + unat (ss_failed_executions (cs_stats s))"
  shows "(sender \<notin> {8, 12} \<longrightarrow> (\<forall>resp. r \<noteq> Ok resp) \<and> cs_state s' = cs_state s \<and> cs_access_list s' = cs_access_list s \<and>
      cs_transient s' = cs_transient s) \<and>
    (\<forall>resp. r = Ok resp \<longrightarrow>
      xr_gas_used resp \<le> xq_gas_limit q \<and>
      (xr_success resp \<longleftrightarrow> xr_revert_reason resp = None) \<and>
      (\<not> xr_success resp \<longrightarrow> xr_logs resp = [] \<and> xr_state_changes resp = []) \<and>
      cs_transient s' = [] \<and>
      unat (ss_transactions_executed (cs_stats s')) = unat (ss_transactions_executed (cs_stats s)) + 1 \<and>
      unat (ss_transactions_executed (cs_stats s')) =
        unat (ss_successful_executions (cs_stats s')) + unat (ss_failed_executions (cs_stats s')))"
proof (cases "is_authorized_execution_sender sender")
  case False
  then show ?thesis using assms(1)
    by (auto simp: handle_execute_transaction_def reject_request_def is_authorized_execution_sender_def split: option.splits)
next
  case True
  obtain s1 r1 where i: "execute_transaction_internal P get_code timer (transaction_of_request q) (xq_block_context q) s = (s1, r1)"
    by fastforce
  have "cs_stats s1 = cs_stats s"
    using i by (auto simp: execute_transaction_internal_def execute_code_def Let_def split: outcome.splits option.splits prod.splits)
  moreover have "er_success res" "er_revert_reason res = None" "er_gas_used res \<le> xq_gas_limit q" if ok: "r1 = Ok res" for res
  proof -
    obtain code where "execute_code P (transaction_context (vp_keccak256 P) (transaction_of_request q) (xq_block_context q)) code s = (s1, Ok res)"
      using i ok by (auto simp: execute_transaction_internal_def Let_def split: outcome.splits option.splits prod.splits)
    from executed_result [OF this] show "er_success res" "er_revert_reason res = None" "er_gas_used res \<le> xq_gas_limit q"
      by (simp_all add: transaction_context_def transaction_of_request_def)
  qed
  ultimately show ?thesis
    using assms True i stats_count [of elapsed r1 "cs_stats s"]
    by (cases r1) (auto simp: handle_execute_transaction_def response_of_def is_authorized_execution_sender_def split: option.splits)
qed

definition sample_execute_request :: execute_request where
  "sample_execute_request =
     \<lparr>xq_from = 1, xq_to = None, xq_value = 0, xq_nonce = 0, xq_gas_price = 0, xq_gas_limit = 30000, xq_data = [0x00], xq_tx_hash = 0,
      xq_block_context = default_block_context\<rparr>"

theorem service_answers_within_limits_witness:
  "\<exists>s' resp. handle_execute_transaction (memory_ports (\<lambda>_. 0)) ms_get_code (\<lambda>_. None) 7 8 sample_execute_request
       (new_contract_service new_memory_state new_access_list default_service_config) = (s', Ok resp) \<and>
     xr_gas_used resp \<le> 30000 \<and> unat (ss_transactions_executed (cs_stats s')) = 1"
proof -
  let ?s = "new_contract_service new_memory_state new_access_list default_service_config"
  have "\<exists>s' resp. handle_execute_transaction (memory_ports (\<lambda>_. 0)) ms_get_code (\<lambda>_. None) 7 8 sample_execute_request ?s = (s', Ok resp)"
    by (simp add: handle_execute_transaction_def is_authorized_execution_sender_def execute_transaction_internal_def
        transaction_of_request_def transaction_context_def sample_execute_request_def execute_code_def execute_def vm_loop.simps vm_run
        checked_sub_def checked_add_def checked_mul_def Let_def update_stats_def average_time_def new_contract_service_def
        default_service_stats_def response_of_def saturating_sub_def)
  then obtain s' resp where e: "handle_execute_transaction (memory_ports (\<lambda>_. 0)) ms_get_code (\<lambda>_. None) 7 8 sample_execute_request ?s =
      (s', Ok resp)" by blast
  then have "xr_gas_used resp \<le> 30000 \<and> unat (ss_transactions_executed (cs_stats s')) = 1"
    using service_answers_within_limits [OF e]
    by (simp add: sample_execute_request_def new_contract_service_def default_service_stats_def)
  with e show ?thesis by blast
qed

end
