(* ===== verification/Precompiles.thy ===== *)
theory Precompiles
  imports Evm
begin

unbundle bit_operations_syntax

text \<open>
  The precompiled contracts of QC-11 (\<^verbatim>\<open>evm/precompiles\<close>): \<open>ecrecover\<close>, \<open>sha256\<close>, \<open>identity\<close>, \<open>modexp\<close> and the
  dispatch on addresses 1 to 9. SHA-256 is a parameter. The lemmas show that the square-and-multiply
  loop of \<open>modexp\<close>, whose products go through 512-bit numbers, computes the modular power.
\<close>

section \<open>Definitions\<close>

datatype precompile_error =
    PcInvalidInputLength usize usize
  | PcInvalidInput string
  | PcOutOfGas
  | PcCryptoError string
  | PcNotImplemented address

record precompile_output =
  po_gas_used :: u64
  po_output :: "u8 list"

type_synonym precompile_result = "(precompile_output, precompile_error) outcome"

definition is_precompile :: "address \<Rightarrow> bool" where
  "is_precompile addr \<longleftrightarrow> take 19 (be_bytes 20 addr) = replicate 19 0 \<and> be_bytes 20 addr ! 19 \<in> {1..9}"

definition ECRECOVER_GAS :: u64 where "ECRECOVER_GAS = 3000"
definition SHA256_WORD_COST :: u64 where "SHA256_WORD_COST = 12"
definition SHA256_BASE_COST :: u64 where "SHA256_BASE_COST = 60"
definition IDENTITY_WORD_COST :: u64 where "IDENTITY_WORD_COST = 3"
definition IDENTITY_BASE_COST :: u64 where "IDENTITY_BASE_COST = 15"
definition MODEXP_MIN_GAS :: nat where "MODEXP_MIN_GAS = 200"

definition ecrecover_execute :: "u8 list \<Rightarrow> u64 \<Rightarrow> precompile_result" where
  "ecrecover_execute input gas_limit =
     (if gas_limit < ECRECOVER_GAS then Err PcOutOfGas
      else
        (let padded = take 128 input @ replicate (128 - length input) 0;
             v = take 32 (drop 32 padded); r = take 32 (drop 64 padded); s = take 32 (drop 96 padded);
             nothing = Ok \<lparr>po_gas_used = ECRECOVER_GAS, po_output = []\<rparr>
         in if v ! 31 \<noteq> 27 \<and> v ! 31 \<noteq> 28 then nothing
            else if list_all (\<lambda>b. b = 0) r \<or> list_all (\<lambda>b. b = 0) s then nothing
            else Ok \<lparr>po_gas_used = ECRECOVER_GAS, po_output = []\<rparr>))"

text \<open>The cost of \<open>n\<close> bytes; the sum does not overflow for inputs below \<open>2\<^sup>60\<close> bytes.\<close>

definition per_word_cost :: "u64 \<Rightarrow> u64 \<Rightarrow> usize \<Rightarrow> u64" where
  "per_word_cost base word n = base + word * of_nat (div_ceil n 32)"

definition sha256_execute :: "(u8 list \<Rightarrow> hash) \<Rightarrow> u8 list \<Rightarrow> u64 \<Rightarrow> precompile_result" where
  "sha256_execute sha256 input gas_limit =
     (let gas_cost = per_word_cost SHA256_BASE_COST SHA256_WORD_COST (length input) in
      if gas_limit < gas_cost then Err PcOutOfGas
      else Ok \<lparr>po_gas_used = gas_cost, po_output = be_bytes 32 (sha256 input)\<rparr>)"

definition identity_execute :: "u8 list \<Rightarrow> u64 \<Rightarrow> precompile_result" where
  "identity_execute input gas_limit =
     (let gas_cost = per_word_cost IDENTITY_BASE_COST IDENTITY_WORD_COST (length input) in
      if gas_limit < gas_cost then Err PcOutOfGas
      else Ok \<lparr>po_gas_used = gas_cost, po_output = input\<rparr>)"

definition parse_u256 :: "u8 list \<Rightarrow> usize \<Rightarrow> u256" where
  "parse_u256 input offset = from_be_bytes (take 32 (drop offset input))"

definition parse_big_uint :: "u8 list \<Rightarrow> usize \<Rightarrow> usize \<Rightarrow> u8 list" where
  "parse_big_uint input offset len =
     (let available = take len (drop offset input) in replicate (len - length available) 0 @ available)"

definition calculate_iteration_count :: "u8 list \<Rightarrow> usize \<Rightarrow> usize \<Rightarrow> nat" where
  "calculate_iteration_count input exp_start exp_len =
     (let e = parse_u256 input exp_start in
      if exp_len \<le> 32 then (if e = 0 then 0 else bit_length e)
      else (if e = 0 then (exp_len - 32) * 8 else bit_length e + (exp_len - 32) * 8))"

text \<open>With the lengths limited to 1024 the cost stays far below \<open>2\<^sup>64\<close>.\<close>

definition modexp_gas_cost :: "u8 list \<Rightarrow> usize \<Rightarrow> usize \<Rightarrow> usize \<Rightarrow> nat" where
  "modexp_gas_cost input base_len exp_len mod_len =
     (let words = div_ceil (max base_len mod_len) 8
      in max (words * words * max (calculate_iteration_count input (96 + base_len) exp_len) 1 div 3) MODEXP_MIN_GAS)"

definition mulmod512 :: "u256 \<Rightarrow> u256 \<Rightarrow> u256 \<Rightarrow> u256" where
  "mulmod512 a b m = (if m = 0 then 0 else ucast ((ucast a * ucast b :: 512 word) mod ucast m))"

lemma unat_halve: "unat (drop_bit 1 (e :: u256)) = unat e div 2"
  by (simp only: drop_bit_eq_div power_one_right) (simp add: unat_div)

lemma even_unat_iff: "even (unat e) \<longleftrightarrow> even (e :: u256)"
proof -
  have "bit (unat e) 0 = bit e 0" by (simp only: bit_simps) simp
  then show ?thesis by (simp add: bit_0)
qed

lemma halve_less: "(e :: u256) \<noteq> 0 \<Longrightarrow> unat (drop_bit 1 e) < unat e"
  unfolding unat_halve using unat_gt_0 [of e] by simp

function modexp_loop :: "u256 \<Rightarrow> u256 \<Rightarrow> u256 \<Rightarrow> u256 \<Rightarrow> u256" where
  "modexp_loop result b e m =
     (if e = 0 then result
      else modexp_loop (if odd e then mulmod512 result b m else result) (mulmod512 b b m) (drop_bit 1 e) m)"
  by pat_completeness auto
termination
  by (relation "measure (\<lambda>(_, _, e, _). unat e)")
    (simp_all add: halve_less del: drop_bit_Suc One_nat_def)

declare modexp_loop.simps [simp del]

definition mod_exp :: "u8 list \<Rightarrow> u8 list \<Rightarrow> u8 list \<Rightarrow> usize \<Rightarrow> u8 list" where
  "mod_exp b e m result_len =
     (if length b \<le> 32 \<and> length e \<le> 32 \<and> length m \<le> 32
      then (let base_val = from_be_bytes b; exp_val = from_be_bytes e; mod_val = from_be_bytes m :: u256
            in if mod_val = 0 then replicate result_len 0
               else (let result = modexp_loop 1 (base_val mod mod_val) exp_val mod_val; copy_len = min result_len 32
                     in replicate (result_len - 32) 0 @ drop (32 - copy_len) (be_bytes 32 result)))
      else replicate result_len 0)"

definition modexp_execute :: "u8 list \<Rightarrow> u64 \<Rightarrow> precompile_result" where
  "modexp_execute input gas_limit =
     (let bl = parse_u256 input 0; el = parse_u256 input 32; ml = parse_u256 input 64 in
      if 2 ^ 64 \<le> unat bl \<or> 2 ^ 64 \<le> unat el \<or> 2 ^ 64 \<le> unat ml then Panic
      else
        (let base_len = unat bl; exp_len = unat el; mod_len = unat ml in
         if 1024 < base_len \<or> 1024 < exp_len \<or> 1024 < mod_len then Err (PcInvalidInput ''lengths too large'')
         else
           (let gas_cost = modexp_gas_cost input base_len exp_len mod_len in
            if unat gas_limit < gas_cost then Err PcOutOfGas
            else
              (let b = parse_big_uint input 96 base_len; e = parse_big_uint input (96 + base_len) exp_len;
                   m = parse_big_uint input (96 + base_len + exp_len) mod_len
               in if mod_len = 0 then Ok \<lparr>po_gas_used = of_nat gas_cost, po_output = []\<rparr>
                  else Ok \<lparr>po_gas_used = of_nat gas_cost,
                           po_output = (if list_all (\<lambda>x. x = 0) m then replicate mod_len 0 else mod_exp b e m mod_len)\<rparr>))))"

definition execute_precompile :: "(u8 list \<Rightarrow> hash) \<Rightarrow> address \<Rightarrow> u8 list \<Rightarrow> u64 \<Rightarrow> precompile_result option" where
  "execute_precompile sha256 addr input gas_limit =
     (if \<not> is_precompile addr then None
      else
        (let n = be_bytes 20 addr ! 19 in
         if n = 1 then Some (ecrecover_execute input gas_limit)
         else if n = 2 then Some (sha256_execute sha256 input gas_limit)
         else if n = 3 then Some (Err (PcNotImplemented addr))
         else if n = 4 then Some (identity_execute input gas_limit)
         else if n = 5 then Some (modexp_execute input gas_limit)
         else if n \<in> {6..9} then Some (Err (PcNotImplemented addr))
         else None))"

section \<open>Modular powers\<close>

lemma unat_mulmod512:
  assumes "m \<noteq> 0"
  shows "unat (mulmod512 a b m) = unat a * unat b mod unat m"
proof -
  have lim: "unat x < 2 ^ 256" for x :: u256 using unsigned_less [of x] by simp
  have "unat a * unat b < 2 ^ 256 * 2 ^ 256" using lim by (intro mult_strict_mono') simp_all
  then have p: "unat (ucast a * ucast b :: 512 word) = unat a * unat b"
    by (subst unat_mult_lem [THEN iffD1]) (simp_all add: unat_ucast_up)
  have m: "unat (ucast m :: 512 word) = unat m" by (simp add: unat_ucast_up)
  have "unat a * unat b mod unat m < 2 ^ 256"
    using lim [of m] assms by (meson less_trans mod_less_divisor unat_gt_0)
  then have "take_bit 256 (unat (ucast a * ucast b mod ucast m :: 512 word)) = unat a * unat b mod unat m"
    unfolding unat_mod p m by (rule take_bit_nat_eq_self)
  moreover have "unat (ucast x :: u256) = take_bit 256 (unat x)" for x :: "512 word" by (simp add: unsigned_ucast_eq)
  ultimately show ?thesis using assms by (simp only: mulmod512_def if_False)
qed

lemma mulmod512_less: "m \<noteq> 0 \<Longrightarrow> mulmod512 a b m < m"
  by (simp add: word_less_nat_alt unat_mulmod512 unat_gt_0)

lemma modexp_loop_mod:
  assumes "m \<noteq> 0"
  shows "unat (modexp_loop r b e m) mod unat m = unat r * unat b ^ unat e mod unat m"
  using assms
proof (induction r b e m rule: modexp_loop.induct)
  case (1 r b e m)
  show ?case
  proof (cases "e = 0")
    case True
    then show ?thesis by (simp add: modexp_loop.simps)
  next
    case False
    define r' where "r' = (if odd e then mulmod512 r b m else r)"
    define k where "k = unat e div 2"
    have e: "unat e = 2 * k + (if odd e then 1 else 0)" unfolding k_def by (cases "odd e") (simp_all add: even_unat_iff flip: mult.commute)
    have "unat (modexp_loop r b e m) mod unat m = unat r' * unat (mulmod512 b b m) ^ k mod unat m"
      using 1 False by (subst modexp_loop.simps) (simp only: r'_def k_def unat_halve if_False simp_thms)
    also have "\<dots> = unat r' * (unat b ^ (2 * k)) mod unat m"
      unfolding unat_mulmod512 [OF 1(2)] by (rule mod_mult_cong) (simp_all only: power_mod power_mult power2_eq_square)
    also have "\<dots> = unat r * unat b ^ unat e mod unat m"
      by (simp add: r'_def e unat_mulmod512 [OF 1(2)] mod_mult_left_eq mult.assoc)
    finally show ?thesis .
  qed
qed

lemma modexp_loop_less:
  assumes "m \<noteq> 0" "e \<noteq> 0 \<or> r < m"
  shows "modexp_loop r b e m < m"
  using assms
proof (induction r b e m rule: modexp_loop.induct)
  case (1 r b e m)
  have "drop_bit 1 e \<noteq> 0 \<or> (if odd e then mulmod512 r b m else r) < m" if "e \<noteq> 0"
  proof (cases "drop_bit 1 e = 0")
    case True
    then have "unat e div 2 = 0" using unat_halve [of e] by simp
    then have "unat e = 1" using that unat_gt_0 [of e] by linarith
    then have "odd e" by (simp add: even_unat_iff [symmetric])
    then show ?thesis using mulmod512_less 1(2) by simp
  qed simp
  with 1 show ?case by (subst modexp_loop.simps) auto
qed

lemma modexp_loop_power:
  assumes "m \<noteq> 0"
  shows "unat (modexp_loop 1 (b mod m) e m) = (if m = 1 \<and> e = 0 then 1 else unat b ^ unat e mod unat m)"
proof (cases "m = 1 \<and> e = 0")
  case False
  have "e \<noteq> 0 \<or> 1 < m" using False assms using word_less_1 [of m] by (metis less_linear)
  then have "unat (modexp_loop 1 (b mod m) e m) < unat m" using modexp_loop_less [OF assms] by (simp add: word_less_nat_alt)
  then have "unat (modexp_loop 1 (b mod m) e m) = unat b ^ unat e mod unat m"
    using modexp_loop_mod [OF assms, of 1 "b mod m" e] by (simp add: unat_mod power_mod)
  with False show ?thesis by simp
qed (simp add: modexp_loop.simps)

lemma take_be_bytes:
  assumes "n \<le> k"
  shows "drop (k - n) (be_bytes k w) = be_bytes n w"
  by (rule nth_equalityI) (use assms in \<open>auto simp: be_bytes_def\<close>)

lemma from_be_bytes_fits:
  assumes "unat (w :: u256) < 2 ^ (8 * n)" "n \<le> 32"
  shows "from_be_bytes (be_bytes n w) = w"
proof (rule bit_word_eqI)
  fix k assume k: "k < LENGTH(256)"
  show "bit (from_be_bytes (be_bytes n w) :: u256) k = bit w k"
  proof (cases "k < 8 * n")
    case True
    define i where "i = n - 1 - k div 8"
    have i: "i < n" "8 * (n - 1 - i) + k mod 8 = k" using True by (auto simp: i_def)
    then show ?thesis using True k by (simp add: bit_from_be_bytes be_bytes_def bit_simps flip: i_def)
  next
    case False
    have "bit w k = bit (unat w) k" by (simp only: bit_simps) (use k in simp)
    also have "\<dots> = bit (take_bit (8 * n) (unat w)) k" using assms(1) by (simp add: take_bit_nat_eq_self)
    also have "\<dots> = False" using False by (simp add: bit_simps)
    finally show ?thesis using False by (simp add: bit_from_be_bytes)
  qed
qed

lemma from_be_bytes_less: "unat (from_be_bytes bs :: u256) < 2 ^ (8 * length bs)"
proof -
  have "take_bit (8 * length bs) (from_be_bytes bs) = (from_be_bytes bs :: u256)"
    by (rule bit_word_eqI) (auto simp: bit_simps bit_from_be_bytes)
  then have "unat (from_be_bytes bs :: u256) = take_bit (8 * length bs) (unat (from_be_bytes bs :: u256))"
    by (metis unsigned_take_bit_eq)
  then show ?thesis by (metis take_bit_nat_less_exp)
qed

text \<open>The input the contract documents: the three lengths in 32 bytes each, then the numbers.\<close>

definition modexp_input :: "u8 list \<Rightarrow> u8 list \<Rightarrow> u8 list \<Rightarrow> u8 list" where
  "modexp_input b e m =
     be_bytes 32 (of_nat (length b) :: u256) @ be_bytes 32 (of_nat (length e) :: u256) @ be_bytes 32 (of_nat (length m) :: u256) @
     b @ e @ m"

lemma parse_length: "parse_u256 (pre @ be_bytes 32 (x :: u256) @ post) (length pre) = x"
  by (simp add: parse_u256_def from_be_be)

lemma parse_number: "parse_big_uint (pre @ bs @ post) (length pre) (length bs) = bs"
  by (simp add: parse_big_uint_def Let_def)

lemma parse_modexp_input:
  "parse_u256 (modexp_input b e m) 0 = of_nat (length b)" "parse_u256 (modexp_input b e m) 32 = of_nat (length e)"
  "parse_u256 (modexp_input b e m) 64 = of_nat (length m)" "parse_big_uint (modexp_input b e m) 96 (length b) = b"
  "parse_big_uint (modexp_input b e m) (96 + length b) (length e) = e"
  "parse_big_uint (modexp_input b e m) (96 + length b + length e) (length m) = m"
  unfolding modexp_input_def
  by (simp_all add: parse_u256_def parse_big_uint_def Let_def from_be_be)

lemma mod_exp_power:
  assumes "length b \<le> 32" "length e \<le> 32" "length m \<le> 32" and m: "from_be_bytes m \<noteq> (0 :: u256)"
  shows "length (mod_exp b e m (length m)) = length m \<and>
    unat (from_be_bytes (mod_exp b e m (length m)) :: u256) =
      (if from_be_bytes m = (1 :: u256) \<and> from_be_bytes e = (0 :: u256) then 1
       else unat (from_be_bytes b :: u256) ^ unat (from_be_bytes e :: u256) mod unat (from_be_bytes m :: u256))"
proof -
  define B E M where d: "B = (from_be_bytes b :: u256)" "E = (from_be_bytes e :: u256)" "M = (from_be_bytes m :: u256)"
  define R where "R = modexp_loop 1 (B mod M) E M"
  have R: "unat R = (if M = 1 \<and> E = 0 then 1 else unat B ^ unat E mod unat M)" unfolding R_def using m d by (intro modexp_loop_power) simp
  have "0 < unat M" using m d by (simp add: unat_gt_0)
  then have "unat R \<le> unat M" unfolding R by (auto intro: less_imp_le)
  moreover have "unat R < 2 ^ (8 * length m)"
  proof (cases "M = 1 \<and> E = 0")
    case True
    then have "m \<noteq> []" using m by (auto simp: from_be_bytes_def)
    with True show ?thesis using R one_less_power [of "2 :: nat" "8 * length m"] by simp
  next
    case False
    then have "unat R < unat M" using R \<open>0 < unat M\<close> by simp
    then show ?thesis using from_be_bytes_less [of m] unfolding d by (rule less_trans)
  qed
  moreover have "mod_exp b e m (length m) = be_bytes (length m) R"
    using assms by (simp add: mod_exp_def Let_def R_def d min_def take_be_bytes)
  ultimately show ?thesis using assms R by (simp add: from_be_bytes_fits d)
qed

section \<open>Properties\<close>

text \<open>
  C23. The \<open>modexp\<close> contract computes the modular power. On an input in the documented layout with
  numbers of up to 32 bytes, a modulus other than zero and enough gas, it answers with as many bytes
  as the modulus has, and they are the number \<open>b ^ e mod m\<close>. The one exception is the power zero modulo
  one, where the answer is 1 and not 0.
\<close>

theorem modexp_computes_power:
  assumes "length b \<le> 32" "length e \<le> 32" "length m \<le> 32" and m: "from_be_bytes m \<noteq> (0 :: u256)"
    and gas: "modexp_gas_cost (modexp_input b e m) (length b) (length e) (length m) \<le> unat gas_limit"
  shows "\<exists>out. modexp_execute (modexp_input b e m) gas_limit =
      Ok \<lparr>po_gas_used = of_nat (modexp_gas_cost (modexp_input b e m) (length b) (length e) (length m)), po_output = out\<rparr> \<and>
    length out = length m \<and>
    unat (from_be_bytes out :: u256) =
      (if from_be_bytes m = (1 :: u256) \<and> from_be_bytes e = (0 :: u256) then 1
       else unat (from_be_bytes b :: u256) ^ unat (from_be_bytes e :: u256) mod unat (from_be_bytes m :: u256))"
proof -
  have u: "unat (of_nat n :: u256) = n" if "n \<le> 32" for n
    using that by (simp add: unsigned_of_nat take_bit_nat_eq_self)
  have "\<not> list_all (\<lambda>x. x = 0) m"
  proof
    assume "list_all (\<lambda>x. x = 0) m"
    then have "m = replicate (length m) 0" by (simp add: list_all_iff replicate_eqI)
    then show False using m from_be_zeros(2) [of "length m"] by metis
  qed
  moreover have "m \<noteq> []" using m by (auto simp: from_be_bytes_def)
  ultimately have "modexp_execute (modexp_input b e m) gas_limit =
      Ok \<lparr>po_gas_used = of_nat (modexp_gas_cost (modexp_input b e m) (length b) (length e) (length m)),
          po_output = mod_exp b e m (length m)\<rparr>"
    using assms by (simp add: modexp_execute_def Let_def parse_modexp_input u)
  with mod_exp_power [OF assms(1-4)] show ?thesis by blast
qed

text \<open>Three squared modulo five.\<close>

theorem modexp_computes_power_witness:
  "\<exists>out. modexp_execute (modexp_input [3] [2] [5]) 1000 = Ok \<lparr>po_gas_used = 200, po_output = out\<rparr> \<and>
     unat (from_be_bytes out :: u256) = 4"
proof -
  have g: "modexp_gas_cost (modexp_input [3] [2] [5]) (Suc 0) (Suc 0) (Suc 0) = 200" by code_simp
  show ?thesis
    using modexp_computes_power [of "[3]" "[2]" "[5]" 1000] by (auto simp: g from_be_zeros)
qed

end
