(* ===== verification/Consensus.thy ===== *)
theory Consensus
  imports Containers SharedTypes
begin

declare map_of_eq_Some_iff [simp del] Some_eq_map_of_iff [simp del]

text \<open>
  The consensus subsystem: \<^verbatim>\<open>qc-08-consensus/src\<close>, with the validator set, headers and proofs, the chain
  state with its pruning, the checks of \<^verbatim>\<open>validation.rs\<close>, the proof-of-stake and PBFT proofs the service
  verifies, block building, the slashing database and the weak subjectivity check. Keccak-256, the
  signature verifier, the validator provider, the mempool, the event bus and the clock are
  parameters. Prepare and commit messages have the same fields and share a record.
\<close>

section \<open>Validators\<close>

record cons_validator =
  cv_id :: hash
  cv_stake :: u128
  cv_pubkey :: "u8 list"
  cv_active :: bool

record cons_validators =
  vs_epoch :: u64
  vs_members :: "cons_validator list"
  vs_stake_sum :: u128
  vs_lookup :: "(hash \<times> nat) list"

fun stake_total :: "u128 \<Rightarrow> cons_validator list \<Rightarrow> u128 option" where
  "stake_total acc [] = Some acc"
| "stake_total acc (v # vs) = (case checked_add acc (cv_stake v) of None \<Rightarrow> None | Some t \<Rightarrow> stake_total t vs)"

definition build_lookup :: "cons_validator list \<Rightarrow> (hash \<times> nat) list" where
  "build_lookup validators =
     fold (\<lambda>(i, v). AList.update (cv_id v) i) (List.enumerate 0 validators) []"

definition new_validators :: "u64 \<Rightarrow> cons_validator list \<Rightarrow> cons_validators option" where
  "new_validators epoch validators =
     map_option (\<lambda>t. \<lparr>vs_epoch = epoch, vs_members = validators, vs_stake_sum = t, vs_lookup = build_lookup validators\<rparr>)
       (stake_total 0 validators)"

definition cvs_contains :: "cons_validators \<Rightarrow> hash \<Rightarrow> bool" where
  "cvs_contains vs v \<longleftrightarrow> map_of (vs_lookup vs) v \<noteq> None"

definition vs_get :: "cons_validators \<Rightarrow> hash \<Rightarrow> cons_validator option" where
  "vs_get vs v = map_option (\<lambda>i. vs_members vs ! i) (map_of (vs_lookup vs) v)"

definition get_pubkey :: "cons_validators \<Rightarrow> hash \<Rightarrow> u8 list option" where
  "get_pubkey vs v = map_option cv_pubkey (vs_get vs v)"

definition get_stake :: "cons_validators \<Rightarrow> hash \<Rightarrow> u128 option" where
  "get_stake vs v = map_option cv_stake (vs_get vs v)"

definition required_attestations :: "cons_validators \<Rightarrow> u8 \<Rightarrow> usize" where
  "required_attestations vs percent = max (length (vs_members vs) * unat percent div 100) 1"

definition required_pbft_votes :: "usize \<Rightarrow> usize" where
  "required_pbft_votes byzantine_threshold = 2 * byzantine_threshold + 1"

section \<open>Blocks and proofs\<close>

record cons_header =
  hd_version :: u32
  hd_block_height :: u64
  hd_parent_hash :: hash
  hd_timestamp :: u64
  hd_proposer :: hash
  hd_transactions_root :: "hash option"
  hd_state_root :: "hash option"
  hd_receipts_root :: hash
  hd_gas_limit :: u64
  hd_gas_used :: u64
  hd_extra_data :: "u8 list"

definition header_hash :: "(u8 list \<Rightarrow> hash) \<Rightarrow> cons_header \<Rightarrow> hash" where
  "header_hash keccak h =
     keccak (le_bytes 4 (hd_version h) @ le_bytes 8 (hd_block_height h) @ be_bytes 32 (hd_parent_hash h) @
       le_bytes 8 (hd_timestamp h) @ be_bytes 32 (hd_proposer h) @ le_bytes 8 (hd_gas_limit h) @ le_bytes 8 (hd_gas_used h))"

definition is_genesis :: "cons_header \<Rightarrow> bool" where
  "is_genesis h \<longleftrightarrow> hd_block_height h = 0 \<and> hd_parent_hash h = 0"

record cons_attestation =
  at_voter :: hash
  at_block :: hash
  at_sig :: "u8 list"
  at_slot_no :: u64

record pos_proof =
  pos_attestations :: "cons_attestation list"
  pos_epoch :: u64
  pos_slot :: u64

record pbft_message =
  pm_view :: u64
  pm_sequence :: u64
  pm_block_hash :: hash
  pm_validator :: hash
  pm_signature :: "u8 list"

record pbft_proof =
  pb_prepares :: "pbft_message list"
  pb_commits :: "pbft_message list"
  pb_view :: u64
  pb_epoch :: u64

datatype validation_proof = PoS pos_proof | PBFT pbft_proof

fun proof_epoch :: "validation_proof \<Rightarrow> u64" where
  "proof_epoch (PoS p) = pos_epoch p"
| "proof_epoch (PBFT p) = pb_epoch p"

definition is_bls :: "cons_attestation \<Rightarrow> bool" where
  "is_bls a \<longleftrightarrow> length (at_sig a) = 96"

definition attestation_signing_message :: "hash \<Rightarrow> u64 \<Rightarrow> u64 \<Rightarrow> u8 list" where
  "attestation_signing_message block_hash slot epoch = be_bytes 32 block_hash @ le_bytes 8 slot @ le_bytes 8 epoch"

definition ascii :: "string \<Rightarrow> u8 list" where
  "ascii t = map (\<lambda>c. of_nat (of_char c)) t"

definition prepare_signing_message :: "pbft_message \<Rightarrow> u8 list" where
  "prepare_signing_message m =
     ascii ''PREPARE'' @ le_bytes 8 (pm_view m) @ le_bytes 8 (pm_sequence m) @ be_bytes 32 (pm_block_hash m)"

definition commit_signing_message :: "pbft_message \<Rightarrow> u8 list" where
  "commit_signing_message m =
     ascii ''COMMIT'' @ le_bytes 8 (pm_view m) @ le_bytes 8 (pm_sequence m) @ be_bytes 32 (pm_block_hash m)"

record cons_transaction =
  ct_hash :: hash
  ct_from :: address
  ct_to :: "address option"
  ct_value :: u128
  ct_gas_limit :: u64
  ct_gas_price :: u64
  ct_nonce :: u64
  ct_data :: "u8 list"
  ct_signature :: "u8 list"

record cons_block =
  cb_header :: cons_header
  cb_transactions :: "cons_transaction list"
  cb_proof :: validation_proof

datatype consensus_algorithm = ProofOfStake | PBFTAlgorithm

record consensus_config =
  cc_algorithm :: consensus_algorithm
  cc_block_time_ms :: u64
  cc_max_txs_per_block :: usize
  cc_max_block_gas :: u64
  cc_min_attestation_percent :: u8
  cc_byzantine_threshold :: usize
  cc_max_timestamp_drift_secs :: u64

definition default_consensus_config :: consensus_config where
  "default_consensus_config =
     \<lparr>cc_algorithm = ProofOfStake, cc_block_time_ms = 12000, cc_max_txs_per_block = 10000, cc_max_block_gas = 30000000,
      cc_min_attestation_percent = 67, cc_byzantine_threshold = 1, cc_max_timestamp_drift_secs = 15\<rparr>"

datatype consensus_error =
    CeUnknownParent hash
  | CeInvalidSignature
  | CeInsufficientAttestations u8 u8
  | CeInvalidHeight u64 u64
  | CeInvalidTimestamp u64 u64
  | CeGasLimitExceeded u64 u64
  | CeTooManyTransactions usize usize
  | CeUnauthorizedSender u8 u8
  | CeViewMismatch u64 u64
  | CeUnknownValidator hash
  | CeSignatureVerificationFailed hash
  | CeDuplicateVote hash
  | CeStaleBlock u64 u64
  | CeFutureTimestamp u64 u64
  | CeEventBusError string
  | CeMempoolError string
  | CeStateError string
  | CeIpcSecurityError string
  | CeAlreadyValidated hash
  | CeGenesisWithParent
  | CeMissingGenesis
  | CeInvalidProposer hash
  | CeProposerDidNotAttest hash
  | CeInvalidSignatureFormat hash
  | CeExtraDataTooLarge usize usize

section \<open>Chain state\<close>

record chain_head =
  ch_block_hash :: hash
  ch_block_height :: u64
  ch_timestamp :: u64

record chain_state =
  st_known_blocks :: "(hash \<times> cons_header) list"
  st_head :: chain_head
  st_height_index :: "(u64 \<times> hash) list"
  st_max_blocks :: usize

definition with_max_blocks :: "usize \<Rightarrow> chain_state" where
  "with_max_blocks n =
     \<lparr>st_known_blocks = [], st_head = \<lparr>ch_block_hash = 0, ch_block_height = 0, ch_timestamp = 0\<rparr>, st_height_index = [],
      st_max_blocks = n\<rparr>"

definition new_chain_state :: chain_state where
  "new_chain_state = with_max_blocks 8192"

definition prune_height :: "u64 \<Rightarrow> chain_state \<Rightarrow> chain_state" where
  "prune_height height c =
     (case map_of (st_height_index c) height of
        None \<Rightarrow> c
      | Some h \<Rightarrow> c\<lparr>st_height_index := AList.delete height (st_height_index c),
                     st_known_blocks := AList.delete h (st_known_blocks c)\<rparr>)"

definition prune_if_needed :: "chain_state \<Rightarrow> chain_state" where
  "prune_if_needed c =
     (if length (st_known_blocks c) \<le> st_max_blocks c then c
      else
        (let min_height_to_keep = saturating_sub (ch_block_height (st_head c)) (of_nat (st_max_blocks c))
         in fold prune_height (filter (\<lambda>h. h < min_height_to_keep) (map fst (st_height_index c))) c))"

definition chain_add_block :: "(u8 list \<Rightarrow> hash) \<Rightarrow> cons_header \<Rightarrow> chain_state \<Rightarrow> chain_state" where
  "chain_add_block keccak h c =
     (let hh = header_hash keccak h; height = hd_block_height h;
          c1 = (if ch_block_height (st_head c) < height \<or> ch_block_height (st_head c) = 0
                then c\<lparr>st_head := \<lparr>ch_block_hash = hh, ch_block_height = height, ch_timestamp = hd_timestamp h\<rparr>\<rparr> else c)
      in prune_if_needed (c1\<lparr>st_height_index := AList.update height hh (st_height_index c1),
                              st_known_blocks := AList.update hh h (st_known_blocks c1)\<rparr>))"

definition with_genesis :: "(u8 list \<Rightarrow> hash) \<Rightarrow> cons_header \<Rightarrow> chain_state" where
  "with_genesis keccak genesis = chain_add_block keccak genesis new_chain_state"

definition chain_has_block :: "chain_state \<Rightarrow> hash \<Rightarrow> bool" where
  "chain_has_block c h \<longleftrightarrow> map_of (st_known_blocks c) h \<noteq> None"

definition block_count :: "chain_state \<Rightarrow> usize" where
  "block_count c = length (st_known_blocks c)"

section \<open>Stateless checks\<close>

fun gas_sum :: "u64 \<Rightarrow> cons_transaction list \<Rightarrow> u64 option" where
  "gas_sum acc [] = Some acc"
| "gas_sum acc (t # ts) = (case checked_add acc (ct_gas_limit t) of None \<Rightarrow> None | Some g \<Rightarrow> gas_sum g ts)"

definition MAX_EXTRA_DATA_SIZE :: usize where "MAX_EXTRA_DATA_SIZE = 32"

definition validate_structure :: "cons_block \<Rightarrow> consensus_config \<Rightarrow> (unit, consensus_error) outcome" where
  "validate_structure b cfg =
     and_then (fail_if (cc_max_txs_per_block cfg < length (cb_transactions b))
       (CeTooManyTransactions (length (cb_transactions b)) (cc_max_txs_per_block cfg))) (\<lambda>_.
     and_then (or_panic (gas_sum 0 (cb_transactions b))) (\<lambda>total_gas.
     and_then (fail_if (cc_max_block_gas cfg < total_gas) (CeGasLimitExceeded total_gas (cc_max_block_gas cfg))) (\<lambda>_.
     and_then (fail_if (hd_gas_limit (cb_header b) < hd_gas_used (cb_header b))
       (CeGasLimitExceeded (hd_gas_used (cb_header b)) (hd_gas_limit (cb_header b)))) (\<lambda>_.
     fail_if (MAX_EXTRA_DATA_SIZE < length (hd_extra_data (cb_header b)))
       (CeExtraDataTooLarge (length (hd_extra_data (cb_header b))) MAX_EXTRA_DATA_SIZE)))))"

definition validate_parent :: "cons_header \<Rightarrow> chain_state \<Rightarrow> (unit, consensus_error) outcome" where
  "validate_parent h c =
     (if is_genesis h then fail_if (0 < block_count c) CeGenesisWithParent
      else fail_if (\<not> chain_has_block c (hd_parent_hash h)) (CeUnknownParent (hd_parent_hash h)))"

definition validate_height :: "cons_header \<Rightarrow> chain_state \<Rightarrow> (unit, consensus_error) outcome" where
  "validate_height h c =
     (if is_genesis h then fail_if (hd_block_height h \<noteq> 0) (CeInvalidHeight 0 (hd_block_height h))
      else case map_of (st_known_blocks c) (hd_parent_hash h) of
        None \<Rightarrow> Ok ()
      | Some parent \<Rightarrow>
          and_then (or_panic (checked_add (hd_block_height parent) 1)) (\<lambda>expected.
            fail_if (hd_block_height h \<noteq> expected) (CeInvalidHeight expected (hd_block_height h))))"

definition validate_block_timestamp :: "cons_header \<Rightarrow> chain_state \<Rightarrow> u64 \<Rightarrow> consensus_config \<Rightarrow> (unit, consensus_error) outcome" where
  "validate_block_timestamp h c now cfg =
     and_then (or_panic (checked_add now (cc_max_timestamp_drift_secs cfg))) (\<lambda>latest.
     and_then (fail_if (latest < hd_timestamp h) (CeFutureTimestamp (hd_timestamp h) now)) (\<lambda>_.
     if is_genesis h then Ok ()
     else case map_of (st_known_blocks c) (hd_parent_hash h) of
       None \<Rightarrow> Ok ()
     | Some parent \<Rightarrow>
         fail_if (hd_timestamp h \<le> hd_timestamp parent) (CeInvalidTimestamp (hd_timestamp h) (hd_timestamp parent))))"

section \<open>The service\<close>

record consensus_ports =
  cp_keccak :: "u8 list \<Rightarrow> hash"
  cp_verify_aggregate_bls :: "u8 list \<Rightarrow> u8 list \<Rightarrow> u8 list list \<Rightarrow> bool"
  cp_verify_ecdsa :: "u8 list \<Rightarrow> u8 list \<Rightarrow> u8 list \<Rightarrow> bool"
  cp_epoch_state_root :: "u64 \<Rightarrow> (hash, string) outcome"
  cp_validator_set :: "u64 \<Rightarrow> hash \<Rightarrow> (cons_validators, string) outcome"
  cp_current_epoch :: u64
  cp_mempool :: "usize \<Rightarrow> u64 \<Rightarrow> (cons_transaction list, string) outcome"
  cp_publish :: "cons_block \<Rightarrow> u64 \<Rightarrow> (unit, string) outcome"

definition state_result :: "('a, string) outcome \<Rightarrow> ('a, consensus_error) outcome" where
  "state_result r = (case r of Ok x \<Rightarrow> Ok x | Err e \<Rightarrow> Err (CeStateError e) | Panic \<Rightarrow> Panic)"

definition validators_at :: "consensus_ports \<Rightarrow> u64 \<Rightarrow> (cons_validators, consensus_error) outcome" where
  "validators_at P epoch =
     and_then (state_result (cp_epoch_state_root P epoch)) (\<lambda>root. state_result (cp_validator_set P epoch root))"

definition validate_proposer :: "consensus_ports \<Rightarrow> cons_header \<Rightarrow> validation_proof \<Rightarrow> (unit, consensus_error) outcome" where
  "validate_proposer P h proof =
     (if is_genesis h then Ok ()
      else and_then (validators_at P (proof_epoch proof)) (\<lambda>vs.
        and_then (fail_if (\<not> cvs_contains vs (hd_proposer h)) (CeInvalidProposer (hd_proposer h))) (\<lambda>_.
        case proof of
          PoS p \<Rightarrow> fail_if (\<not> list_ex (\<lambda>a. at_voter a = hd_proposer h) (pos_attestations p)) (CeProposerDidNotAttest (hd_proposer h))
        | PBFT _ \<Rightarrow> Ok ())))"

definition ecdsa_pubkey :: "u8 list \<Rightarrow> u8 list" where
  "ecdsa_pubkey pubkey = 0x02 # take 32 pubkey"

definition verify_attestation_signature :: "consensus_ports \<Rightarrow> cons_attestation \<Rightarrow> u8 list \<Rightarrow> u8 list \<Rightarrow> (bool, consensus_error) outcome" where
  "verify_attestation_signature P a message pubkey =
     (if is_bls a then Ok (cp_verify_aggregate_bls P message (at_sig a) [pubkey])
      else if length (at_sig a) = 65 then Ok (cp_verify_ecdsa P message (at_sig a) (ecdsa_pubkey pubkey))
      else Err (CeInvalidSignatureFormat (at_voter a)))"

fun verify_each :: "consensus_ports \<Rightarrow> cons_validators \<Rightarrow> u8 list \<Rightarrow> cons_attestation list \<Rightarrow> (unit, consensus_error) outcome" where
  "verify_each P vs message [] = Ok ()"
| "verify_each P vs message (a # as) =
     (case get_pubkey vs (at_voter a) of
        None \<Rightarrow> Err (CeUnknownValidator (at_voter a))
      | Some pubkey \<Rightarrow>
          and_then (verify_attestation_signature P a message pubkey) (\<lambda>valid.
          if \<not> valid then Err (CeSignatureVerificationFailed (at_voter a)) else verify_each P vs message as))"

definition verify_attestations :: "consensus_ports \<Rightarrow> cons_validators \<Rightarrow> hash \<Rightarrow> pos_proof \<Rightarrow> (unit, consensus_error) outcome" where
  "verify_attestations P vs block_hash p =
     verify_each P vs (attestation_signing_message block_hash (pos_slot p) (pos_epoch p)) (pos_attestations p)"

fun check_duplicates :: "hash list \<Rightarrow> cons_attestation list \<Rightarrow> (unit, consensus_error) outcome" where
  "check_duplicates seen [] = Ok ()"
| "check_duplicates seen (a # as) =
     (if at_voter a \<in> set seen then Err (CeDuplicateVote (at_voter a)) else check_duplicates (at_voter a # seen) as)"

definition validate_pos_proof :: "consensus_ports \<Rightarrow> consensus_config \<Rightarrow> pos_proof \<Rightarrow> hash \<Rightarrow> (unit, consensus_error) outcome" where
  "validate_pos_proof P cfg p block_hash =
     and_then (validators_at P (pos_epoch p)) (\<lambda>vs.
     and_then (check_duplicates [] (pos_attestations p)) (\<lambda>_.
     and_then (verify_attestations P vs block_hash p) (\<lambda>_.
     let participation = length (pos_attestations p) in
     if participation < required_attestations vs (cc_min_attestation_percent cfg)
     then (if vs_members vs = [] then Panic
           else Err (CeInsufficientAttestations (of_nat (participation * 100 div length (vs_members vs))) (cc_min_attestation_percent cfg)))
     else Ok ())))"

fun verify_pbft_signatures :: "consensus_ports \<Rightarrow> cons_validators \<Rightarrow> (pbft_message \<Rightarrow> u8 list) \<Rightarrow> pbft_message list \<Rightarrow>
    (unit, consensus_error) outcome" where
  "verify_pbft_signatures P vs message_of [] = Ok ()"
| "verify_pbft_signatures P vs message_of (m # ms) =
     (if \<not> cvs_contains vs (pm_validator m) then Err (CeUnknownValidator (pm_validator m))
      else case get_pubkey vs (pm_validator m) of
        None \<Rightarrow> Err (CeUnknownValidator (pm_validator m))
      | Some pubkey \<Rightarrow>
          if \<not> cp_verify_ecdsa P (message_of m) (pm_signature m) (ecdsa_pubkey pubkey)
          then Err (CeSignatureVerificationFailed (pm_validator m))
          else verify_pbft_signatures P vs message_of ms)"

definition validate_pbft_proof :: "consensus_ports \<Rightarrow> consensus_config \<Rightarrow> u64 \<Rightarrow> pbft_proof \<Rightarrow> hash \<Rightarrow> (unit, consensus_error) outcome" where
  "validate_pbft_proof P cfg current_view p block_hash =
     and_then (fail_if (pb_view p \<noteq> current_view) (CeViewMismatch current_view (pb_view p))) (\<lambda>_.
     and_then (validators_at P (pb_epoch p)) (\<lambda>vs.
     let required_votes = required_pbft_votes (cc_byzantine_threshold cfg) in
     and_then (fail_if (length (pb_prepares p) < required_votes)
       (CeInsufficientAttestations (of_nat (length (pb_prepares p))) (of_nat required_votes))) (\<lambda>_.
     and_then (fail_if (length (pb_commits p) < required_votes)
       (CeInsufficientAttestations (of_nat (length (pb_commits p))) (of_nat required_votes))) (\<lambda>_.
     and_then (verify_pbft_signatures P vs prepare_signing_message (pb_prepares p)) (\<lambda>_.
     verify_pbft_signatures P vs commit_signing_message (pb_commits p))))))"

record consensus_state =
  co_chain :: chain_state
  co_view :: u64

definition new_consensus_state :: consensus_state where
  "new_consensus_state = \<lparr>co_chain = new_chain_state, co_view = 0\<rparr>"

definition set_view :: "u64 \<Rightarrow> consensus_state \<Rightarrow> consensus_state" where
  "set_view v s = s\<lparr>co_view := v\<rparr>"

definition validate_consensus_proof :: "consensus_ports \<Rightarrow> consensus_config \<Rightarrow> consensus_state \<Rightarrow> validation_proof \<Rightarrow> hash \<Rightarrow>
    (unit, consensus_error) outcome" where
  "validate_consensus_proof P cfg s proof block_hash =
     (case proof of
        PoS p \<Rightarrow> validate_pos_proof P cfg p block_hash
      | PBFT p \<Rightarrow> validate_pbft_proof P cfg (co_view s) p block_hash)"

definition verify_block_logic :: "consensus_ports \<Rightarrow> consensus_config \<Rightarrow> u64 \<Rightarrow> consensus_state \<Rightarrow> cons_block \<Rightarrow> hash \<Rightarrow>
    (unit, consensus_error) outcome" where
  "verify_block_logic P cfg now s b block_hash =
     and_then (validate_structure b cfg) (\<lambda>_.
     and_then (validate_parent (cb_header b) (co_chain s)) (\<lambda>_.
     and_then (validate_height (cb_header b) (co_chain s)) (\<lambda>_.
     and_then (validate_block_timestamp (cb_header b) (co_chain s) now cfg) (\<lambda>_.
     and_then (validate_proposer P (cb_header b) (cb_proof b)) (\<lambda>_.
     validate_consensus_proof P cfg s (cb_proof b) block_hash)))))"

definition validate_block_internal :: "consensus_ports \<Rightarrow> consensus_config \<Rightarrow> u64 \<Rightarrow> cons_block \<Rightarrow> consensus_state \<Rightarrow>
    consensus_state \<times> (cons_block, consensus_error) outcome" where
  "validate_block_internal P cfg now b s =
     (let block_hash = header_hash (cp_keccak P) (cb_header b) in
      if chain_has_block (co_chain s) block_hash then (s, Err (CeAlreadyValidated block_hash))
      else case verify_block_logic P cfg now s b block_hash of
        Err e \<Rightarrow> (s, Err e)
      | Panic \<Rightarrow> (s, Panic)
      | Ok _ \<Rightarrow>
          (let s1 = s\<lparr>co_chain := chain_add_block (cp_keccak P) (cb_header b) (co_chain s)\<rparr> in
           (s1, case cp_publish P b now of Ok _ \<Rightarrow> Ok b | Err e \<Rightarrow> Err (CeEventBusError e) | Panic \<Rightarrow> Panic)))"

definition build_block :: "consensus_ports \<Rightarrow> consensus_config \<Rightarrow> u64 \<Rightarrow> consensus_state \<Rightarrow> (cons_block, consensus_error) outcome" where
  "build_block P cfg now s =
     and_then (case cp_mempool P (cc_max_txs_per_block cfg) (cc_max_block_gas cfg) of
         Ok txs \<Rightarrow> Ok txs | Err e \<Rightarrow> Err (CeMempoolError e) | Panic \<Rightarrow> Panic) (\<lambda>txs.
     and_then (or_panic (gas_sum 0 txs)) (\<lambda>gas_used.
     and_then (or_panic (checked_add (ch_block_height (st_head (co_chain s))) 1)) (\<lambda>height.
     Ok \<lparr>cb_header =
           \<lparr>hd_version = 1, hd_block_height = height, hd_parent_hash = ch_block_hash (st_head (co_chain s)), hd_timestamp = now,
            hd_proposer = 0, hd_transactions_root = None, hd_state_root = None, hd_receipts_root = 0,
            hd_gas_limit = cc_max_block_gas cfg, hd_gas_used = gas_used, hd_extra_data = []\<rparr>,
         cb_transactions = txs,
         cb_proof =
           (case cc_algorithm cfg of
              ProofOfStake \<Rightarrow> PoS \<lparr>pos_attestations = [], pos_epoch = cp_current_epoch P, pos_slot = 0\<rparr>
            | PBFTAlgorithm \<Rightarrow> PBFT \<lparr>pb_prepares = [], pb_commits = [], pb_view = co_view s, pb_epoch = cp_current_epoch P\<rparr>)\<rparr>)))"

section \<open>Slashing\<close>

datatype slashing_evidence =
    DoubleVoteEvidence hash u64 hash hash "u8 list option" "u8 list option"
  | SurroundVoteEvidence hash u64 u64 u64 u64

record slashing_db =
  sd_votes :: "((hash \<times> u64) \<times> hash) list"
  sd_pending :: "slashing_evidence list"
  sd_total :: u64

definition new_slashing_db :: slashing_db where
  "new_slashing_db = \<lparr>sd_votes = [], sd_pending = [], sd_total = 0\<rparr>"

text \<open>\<open>None\<close> is the panic of the counter.\<close>

definition check_and_record :: "hash \<Rightarrow> u64 \<Rightarrow> hash \<Rightarrow> u8 list option \<Rightarrow> slashing_db \<Rightarrow> (slashing_db \<times> slashing_evidence option) option" where
  "check_and_record v epoch block_hash signature d =
     (case map_of (sd_votes d) (v, epoch) of
        Some prev \<Rightarrow>
          if prev \<noteq> block_hash
          then (let evidence = DoubleVoteEvidence v epoch prev block_hash None signature in
                case checked_add (sd_total d) 1 of
                  None \<Rightarrow> None
                | Some n \<Rightarrow> Some (d\<lparr>sd_pending := sd_pending d @ [evidence], sd_total := n\<rparr>, Some evidence))
          else Some (d, None)
      | None \<Rightarrow> Some (d\<lparr>sd_votes := AList.update (v, epoch) block_hash (sd_votes d)\<rparr>, None))"

definition check_surround_vote :: "hash \<Rightarrow> u64 \<Rightarrow> u64 \<Rightarrow> (u64 \<times> u64) list \<Rightarrow> slashing_db \<Rightarrow> slashing_evidence option" where
  "check_surround_vote v source target votes d = None"

definition drain_pending :: "slashing_db \<Rightarrow> slashing_db \<times> slashing_evidence list" where
  "drain_pending d = (d\<lparr>sd_pending := []\<rparr>, sd_pending d)"

definition prune_before :: "u64 \<Rightarrow> slashing_db \<Rightarrow> slashing_db" where
  "prune_before epoch d = d\<lparr>sd_votes := filter (\<lambda>((_, e), _). epoch \<le> e) (sd_votes d)\<rparr>"

section \<open>Weak subjectivity\<close>

record ws_checkpoint =
  wc_block_hash :: hash
  wc_block_height :: u64
  wc_epoch :: u64
  wc_state_root :: hash

record ws_config =
  wg_checkpoint :: "ws_checkpoint option"
  wg_max_age_epochs :: u64
  wg_enforce :: bool

datatype ws_error = CheckpointNotFound hash u64 | CheckpointStale u64 u64

definition validate_chain :: "ws_config \<Rightarrow> (hash \<Rightarrow> bool) \<Rightarrow> (unit, ws_error) outcome" where
  "validate_chain cfg chain_contains =
     (if \<not> wg_enforce cfg then Ok ()
      else case wg_checkpoint cfg of
        None \<Rightarrow> Ok ()
      | Some c \<Rightarrow> fail_if (\<not> chain_contains (wc_block_hash c)) (CheckpointNotFound (wc_block_hash c) (wc_block_height c)))"

definition is_checkpoint_stale :: "ws_config \<Rightarrow> u64 \<Rightarrow> bool" where
  "is_checkpoint_stale cfg current_epoch =
     (case wg_checkpoint cfg of None \<Rightarrow> False | Some c \<Rightarrow> wg_max_age_epochs cfg < saturating_sub current_epoch (wc_epoch c))"

definition set_checkpoint :: "ws_checkpoint \<Rightarrow> ws_config \<Rightarrow> ws_config" where
  "set_checkpoint c cfg = cfg\<lparr>wg_checkpoint := Some c\<rparr>"

section \<open>Runs\<close>

text \<open>A header is accepted when the service gets past its checks; whether the event bus takes the event does not matter.\<close>

definition accepts :: "consensus_ports \<Rightarrow> consensus_config \<Rightarrow> u64 \<Rightarrow> cons_block \<Rightarrow> consensus_state \<Rightarrow> bool" where
  "accepts P cfg now b s \<longleftrightarrow>
     \<not> chain_has_block (co_chain s) (header_hash (cp_keccak P) (cb_header b)) \<and>
     verify_block_logic P cfg now s b (header_hash (cp_keccak P) (cb_header b)) = Ok ()"

inductive consensus_run :: "(u8 list \<Rightarrow> hash) \<Rightarrow> cons_header list \<Rightarrow> consensus_state \<Rightarrow> bool" for kec where
  run_new: "consensus_run kec [] \<lparr>co_chain = with_max_blocks n, co_view = 0\<rparr>"
| run_genesis: "consensus_run kec [g] \<lparr>co_chain = with_genesis kec g, co_view = 0\<rparr>"
| run_view: "consensus_run kec hist s \<Longrightarrow> consensus_run kec hist (set_view v s)"
| run_block: "consensus_run kec hist s \<Longrightarrow> cp_keccak P = kec \<Longrightarrow> validate_block_internal P cfg now b s = (s', r) \<Longrightarrow>
    hist' = (if accepts P cfg now b s then hist @ [cb_header b] else hist) \<Longrightarrow> consensus_run kec hist' s'"

lemma validate_block_effect:
  assumes "validate_block_internal P cfg now b s = (s', r)"
  shows "s' = (if accepts P cfg now b s then s\<lparr>co_chain := chain_add_block (cp_keccak P) (cb_header b) (co_chain s)\<rparr> else s)"
    "r = Ok b' \<Longrightarrow> accepts P cfg now b s"
  using assms by (auto simp: validate_block_internal_def accepts_def Let_def split: if_splits outcome.splits)

section \<open>The chain state\<close>

definition chain_inv :: "(u8 list \<Rightarrow> hash) \<Rightarrow> cons_header list \<Rightarrow> chain_state \<Rightarrow> bool" where
  "chain_inv kec hist c \<longleftrightarrow>
     (\<forall>h x. map_of (st_known_blocks c) h = Some x \<longrightarrow> header_hash kec x = h \<and> x \<in> set hist) \<and>
     (\<forall>k h. map_of (st_height_index c) k = Some h \<longrightarrow> (\<exists>x. map_of (st_known_blocks c) h = Some x \<and> hd_block_height x = k)) \<and>
     (hist = [] \<longrightarrow> ch_block_height (st_head c) = 0 \<and> st_known_blocks c = []) \<and>
     (hist \<noteq> [] \<longrightarrow> map_of (st_height_index c) (ch_block_height (st_head c)) \<noteq> None)"

definition head_inv :: "(u8 list \<Rightarrow> hash) \<Rightarrow> cons_header list \<Rightarrow> chain_state \<Rightarrow> bool" where
  "head_inv kec hist c \<longleftrightarrow>
     (hist \<noteq> [] \<longrightarrow> (\<exists>x\<in>set hist. st_head c =
        \<lparr>ch_block_hash = header_hash kec x, ch_block_height = hd_block_height x, ch_timestamp = hd_timestamp x\<rparr>)) \<and>
     (\<forall>y\<in>set hist. hd_block_height y \<le> ch_block_height (st_head c))"

lemma prune_height_inv:
  assumes "chain_inv kec hist c" and "k < ch_block_height (st_head c)"
  shows "chain_inv kec hist (prune_height k c)" and "st_head (prune_height k c) = st_head c"
proof -
  show "st_head (prune_height k c) = st_head c" by (simp add: prune_height_def split: option.split)
  show "chain_inv kec hist (prune_height k c)"
  proof (cases "map_of (st_height_index c) k")
    case (Some h)
    have other: "h' \<noteq> h" if "map_of (st_height_index c) k' = Some h'" "k' \<noteq> k" for k' h'
      using assms(1) that Some unfolding chain_inv_def by (metis option.inject)
    have "\<exists>x. map_of (AList.delete h (st_known_blocks c)) h' = Some x \<and> hd_block_height x = k'"
      if "map_of (AList.delete k (st_height_index c)) k' = Some h'" for k' h'
    proof -
      have "k' \<noteq> k" "map_of (st_height_index c) k' = Some h'" using that by (auto simp: delete_conv' split: if_splits)
      with other assms(1) show ?thesis unfolding chain_inv_def by (simp add: delete_conv')
    qed
    then show ?thesis using assms Some unfolding chain_inv_def prune_height_def
      by (auto simp: delete_conv' split: if_splits)
  qed (use assms(1) in \<open>simp add: prune_height_def\<close>)
qed

lemma prune_fold_inv:
  "chain_inv kec hist c \<Longrightarrow> (\<forall>k\<in>set ks. k < ch_block_height (st_head c)) \<Longrightarrow>
     chain_inv kec hist (fold prune_height ks c) \<and> st_head (fold prune_height ks c) = st_head c"
  by (induction ks arbitrary: c) (simp_all add: prune_height_inv)

lemma prune_inv:
  assumes "chain_inv kec hist c"
  shows "chain_inv kec hist (prune_if_needed c)" and "st_head (prune_if_needed c) = st_head c"
proof -
  have "saturating_sub a b \<le> a" for a b :: u64 by (simp add: word_le_nat_alt unat_saturating_sub)
  then have "\<forall>k\<in>set (filter (\<lambda>h. h < saturating_sub (ch_block_height (st_head c)) b) ks). k < ch_block_height (st_head c)" for b ks
    by (auto intro: order_less_le_trans)
  from prune_fold_inv [OF assms this]
  show "chain_inv kec hist (prune_if_needed c)" "st_head (prune_if_needed c) = st_head c"
    using assms by (simp_all add: prune_if_needed_def Let_def)
qed

lemma add_block_inv:
  assumes inv: "chain_inv kec hist c" "head_inv kec hist c" and new: "\<not> chain_has_block c (header_hash kec h)"
  shows "chain_inv kec (hist @ [h]) (chain_add_block kec h c)" and "head_inv kec (hist @ [h]) (chain_add_block kec h c)"
proof -
  let ?hh = "header_hash kec h"
  define up where "up = (ch_block_height (st_head c) < hd_block_height h \<or> ch_block_height (st_head c) = 0)"
  define c1 where "c1 = (if up then c\<lparr>st_head := \<lparr>ch_block_hash = ?hh, ch_block_height = hd_block_height h, ch_timestamp = hd_timestamp h\<rparr>\<rparr> else c)"
  define c2 where "c2 = c1\<lparr>st_height_index := AList.update (hd_block_height h) ?hh (st_height_index c1),
    st_known_blocks := AList.update ?hh h (st_known_blocks c1)\<rparr>"
  have add: "chain_add_block kec h c = prune_if_needed c2"
    by (simp add: chain_add_block_def Let_def c2_def c1_def up_def)
  have idx: "h' \<noteq> ?hh" if "map_of (st_height_index c) k = Some h'" for k h'
    using inv(1) new that unfolding chain_inv_def chain_has_block_def by (metis option.distinct(1))
  have nonempty: "\<not> up \<Longrightarrow> hist \<noteq> []" using inv(1) unfolding chain_inv_def up_def by blast
  have kn: "map_of (st_known_blocks c2) = (map_of (st_known_blocks c))(?hh \<mapsto> h)"
    and ix: "map_of (st_height_index c2) = (map_of (st_height_index c))(hd_block_height h \<mapsto> ?hh)"
    by (simp_all add: c2_def c1_def update_conv')
  have hd: "st_head c2 = (if up then \<lparr>ch_block_hash = ?hh, ch_block_height = hd_block_height h, ch_timestamp = hd_timestamp h\<rparr> else st_head c)"
    by (simp add: c2_def c1_def)
  have "header_hash kec x = k \<and> x \<in> set (hist @ [h])" if "map_of (st_known_blocks c2) k = Some x" for k x
    using that inv(1) unfolding kn chain_inv_def by (auto split: if_splits)
  moreover have "\<exists>x. map_of (st_known_blocks c2) k' = Some x \<and> hd_block_height x = k" if "map_of (st_height_index c2) k = Some k'" for k k'
  proof (cases "k = hd_block_height h")
    case True
    then show ?thesis using that by (simp add: ix kn)
  next
    case False
    then have "map_of (st_height_index c) k = Some k'" using that by (simp add: ix)
    then show ?thesis using inv(1) idx unfolding chain_inv_def kn by (metis fun_upd_other)
  qed
  moreover have "map_of (st_height_index c2) (ch_block_height (st_head c2)) \<noteq> None"
    using inv(1) nonempty unfolding ix hd chain_inv_def by auto
  ultimately have "chain_inv kec (hist @ [h]) c2" unfolding chain_inv_def by simp
  moreover have "head_inv kec (hist @ [h]) c2"
  proof (cases up)
    case True
    have "hd_block_height y \<le> hd_block_height h" if y: "y \<in> set hist" for y
    proof -
      have le: "hd_block_height y \<le> ch_block_height (st_head c)" using inv(2) y by (simp add: head_inv_def)
      from True [unfolded up_def] show ?thesis
      proof
        assume "ch_block_height (st_head c) < hd_block_height h"
        with le show ?thesis by (rule order_trans [OF _ less_imp_le])
      next
        assume "ch_block_height (st_head c) = 0"
        with le show ?thesis by simp
      qed
    qed
    then show ?thesis using True unfolding head_inv_def hd by auto
  next
    case False
    then show ?thesis using inv(2) nonempty unfolding head_inv_def hd up_def by (auto simp: not_less)
  qed
  ultimately show "chain_inv kec (hist @ [h]) (chain_add_block kec h c)" "head_inv kec (hist @ [h]) (chain_add_block kec h c)"
    unfolding add using prune_inv [of kec "hist @ [h]" c2] by (simp_all add: head_inv_def)
qed

lemma empty_chain_inv: "chain_inv kec [] (with_max_blocks n)" "head_inv kec [] (with_max_blocks n)"
  by (simp_all add: chain_inv_def head_inv_def with_max_blocks_def)

lemma consensus_run_inv: "consensus_run kec hist s \<Longrightarrow> chain_inv kec hist (co_chain s) \<and> head_inv kec hist (co_chain s)"
proof (induction rule: consensus_run.induct)
  case (run_genesis g)
  have "\<not> chain_has_block (with_max_blocks 8192) h" for h by (simp add: chain_has_block_def with_max_blocks_def)
  then show ?case using add_block_inv [OF empty_chain_inv] by (auto simp: with_genesis_def new_chain_state_def)
next
  case (run_block hist s P cfg now b s' r hist')
  then show ?case using validate_block_effect(1) [OF run_block(3)] add_block_inv [of kec hist "co_chain s" "cb_header b"]
    by (auto simp: accepts_def)
qed (simp_all add: empty_chain_inv set_view_def)

definition child_of :: "(u8 list \<Rightarrow> hash) \<Rightarrow> cons_header \<Rightarrow> cons_header \<Rightarrow> bool" where
  "child_of kec p h \<longleftrightarrow>
     hd_parent_hash h = header_hash kec p \<and> unat (hd_block_height h) = unat (hd_block_height p) + 1 \<and> hd_timestamp p < hd_timestamp h"

lemma known_nonempty:
  assumes "chain_inv kec hist c" "hist \<noteq> []"
  shows "0 < block_count c"
proof -
  obtain h x where "map_of (st_known_blocks c) h = Some x" using assms unfolding chain_inv_def by blast
  then have "st_known_blocks c \<noteq> []" by (metis list.distinct(1) map_of.simps(1) option.distinct(1))
  then show ?thesis by (simp add: block_count_def)
qed

lemma accepted_child:
  assumes acc: "accepts P cfg now b s" and inv: "chain_inv (cp_keccak P) hist (co_chain s)" and "hist \<noteq> []"
  shows "\<exists>p\<in>set hist. child_of (cp_keccak P) p (cb_header b)"
proof -
  let ?h = "cb_header b"
  have v: "validate_parent ?h (co_chain s) = Ok ()" "validate_height ?h (co_chain s) = Ok ()"
    "validate_block_timestamp ?h (co_chain s) now cfg = Ok ()"
    using acc by (auto simp: accepts_def verify_block_logic_def)
  then have g: "\<not> is_genesis ?h" using known_nonempty [OF inv \<open>hist \<noteq> []\<close>] by (auto simp: validate_parent_def)
  then obtain p where p: "map_of (st_known_blocks (co_chain s)) (hd_parent_hash ?h) = Some p"
    using v(1) by (auto simp: validate_parent_def chain_has_block_def)
  then have "header_hash (cp_keccak P) p = hd_parent_hash ?h" "p \<in> set hist" using inv by (auto simp: chain_inv_def)
  moreover have "checked_add (hd_block_height p) 1 = Some (hd_block_height ?h)" "hd_timestamp p < hd_timestamp ?h"
    using v(2,3) g p by (auto simp: validate_height_def validate_block_timestamp_def)
  then have "unat (hd_block_height ?h) = unat (hd_block_height p) + 1" by (auto simp: checked_add_Some_iff unat_add_no_overflow)
  ultimately show ?thesis using \<open>hd_timestamp p < hd_timestamp ?h\<close> by (auto simp: child_of_def intro!: bexI [of _ p])
qed

lemma accepted_first:
  assumes acc: "accepts P cfg now b s" and inv: "chain_inv (cp_keccak P) [] (co_chain s)"
  shows "is_genesis (cb_header b)"
proof -
  have "validate_parent (cb_header b) (co_chain s) = Ok ()" using acc by (auto simp: accepts_def verify_block_logic_def)
  moreover have "st_known_blocks (co_chain s) = []" using inv by (simp add: chain_inv_def)
  ultimately show ?thesis by (auto simp: validate_parent_def chain_has_block_def split: if_splits)
qed

lemma run_children: "consensus_run kec hist s \<Longrightarrow> i < length hist \<Longrightarrow> 0 < i \<Longrightarrow> \<exists>j<i. child_of kec (hist ! j) (hist ! i)"
proof (induction arbitrary: i rule: consensus_run.induct)
  case (run_block hist s P cfg now b s' r hist')
  show ?case
  proof (cases "accepts P cfg now b s \<and> i = length hist")
    case True
    then have "hist \<noteq> []" using run_block.prems by auto
    moreover have "chain_inv (cp_keccak P) hist (co_chain s)" using consensus_run_inv [OF run_block(1)] run_block(2) by simp
    ultimately obtain p where "p \<in> set hist" "child_of kec p (cb_header b)" using accepted_child [of P cfg now b s hist] True run_block(2) by auto
    then show ?thesis using True run_block(4) by (auto simp: in_set_conv_nth nth_append)
  next
    case False
    then have "i < length hist" "hist' ! i = hist ! i" using run_block.prems run_block(4) by (auto simp: nth_append split: if_splits)
    moreover have "j < i \<Longrightarrow> hist' ! j = hist ! j" for j using calculation(1) run_block(4) by (auto simp: nth_append)
    ultimately show ?thesis using run_block.IH [of i] run_block.prems by auto
  qed
qed simp_all

lemma run_descends:
  assumes "consensus_run kec hist s" "i < length hist"
  shows "(child_of kec)\<^sup>*\<^sup>* (hist ! 0) (hist ! i)"
  using assms(2)
proof (induction i rule: less_induct)
  case (less i)
  show ?case
  proof (cases "i = 0")
    case False
    then obtain j where "j < i" "child_of kec (hist ! j) (hist ! i)" using run_children [OF assms(1) less.prems] by auto
    then show ?thesis using less.IH [of j] less.prems by (auto intro: rtranclp.rtrancl_into_rtrancl)
  qed simp
qed

section \<open>Votes\<close>

definition vote_valid :: "consensus_ports \<Rightarrow> cons_validators \<Rightarrow> u8 list \<Rightarrow> cons_attestation \<Rightarrow> bool" where
  "vote_valid P vs message a \<longleftrightarrow>
     (\<exists>pk. get_pubkey vs (at_voter a) = Some pk \<and>
       (length (at_sig a) = 96 \<and> cp_verify_aggregate_bls P message (at_sig a) [pk] \<or>
        length (at_sig a) = 65 \<and> cp_verify_ecdsa P message (at_sig a) (0x02 # take 32 pk)))"

lemma verify_each_iff: "verify_each P vs message as = Ok () \<longleftrightarrow> (\<forall>a\<in>set as. vote_valid P vs message a)"
  by (induction as) (auto simp: vote_valid_def verify_attestation_signature_def is_bls_def ecdsa_pubkey_def split: option.splits if_splits)

lemma check_duplicates_iff:
  "check_duplicates seen as = Ok () \<longleftrightarrow> distinct (map at_voter as) \<and> at_voter ` set as \<inter> set seen = {}"
  by (induction as arbitrary: seen) auto

lemma pos_proof_iff:
  "validate_pos_proof P cfg p h = Ok () \<longleftrightarrow>
     (\<exists>vs. validators_at P (pos_epoch p) = Ok vs \<and> distinct (map at_voter (pos_attestations p)) \<and>
        (\<forall>a\<in>set (pos_attestations p). vote_valid P vs (attestation_signing_message h (pos_slot p) (pos_epoch p)) a) \<and>
        required_attestations vs (cc_min_attestation_percent cfg) \<le> length (pos_attestations p))"
  by (auto simp: validate_pos_proof_def check_duplicates_iff verify_attestations_def verify_each_iff Let_def not_less)

section \<open>Slashing\<close>

type_synonym cast_vote = "(hash \<times> u64) \<times> hash \<times> u8 list option"

fun record_votes :: "cast_vote list \<Rightarrow> slashing_db \<Rightarrow> (slashing_db \<times> slashing_evidence list) option" where
  "record_votes [] d = Some (d, [])"
| "record_votes (((v, e), h, sig) # vs) d =
     (case check_and_record v e h sig d of
        None \<Rightarrow> None
      | Some (d1, ev) \<Rightarrow>
          (case record_votes vs d1 of
             None \<Rightarrow> None
           | Some (d2, evs) \<Rightarrow> Some (d2, (case ev of None \<Rightarrow> evs | Some x \<Rightarrow> x # evs))))"

text \<open>The validator and epoch of an evidence.\<close>

fun evidence_key :: "slashing_evidence \<Rightarrow> hash \<times> u64" where
  "evidence_key (DoubleVoteEvidence v e a b s t) = (v, e)"
| "evidence_key (SurroundVoteEvidence v is it os ot) = (v, it)"

definition votes_of :: "hash \<times> u64 \<Rightarrow> cast_vote list \<Rightarrow> slashing_db \<Rightarrow> hash set" where
  "votes_of k vs d = {h. \<exists>s. (k, h, s) \<in> set vs} \<union> set_option (map_of (sd_votes d) k)"

lemma evidence_complete:
  "record_votes vs d = Some (d', evs) \<Longrightarrow> (\<exists>x\<in>set evs. evidence_key x = k) \<longleftrightarrow> (\<exists>a\<in>votes_of k vs d. \<exists>b\<in>votes_of k vs d. a \<noteq> b)"
proof (induction vs d arbitrary: d' evs rule: record_votes.induct)
  case (1 d)
  then show ?case by (auto simp: votes_of_def elim: option.set_cases)
next
  case (2 v e h sig vs d)
  then obtain d1 ev evs1 where c: "check_and_record v e h sig d = Some (d1, ev)" and r: "record_votes vs d1 = Some (d', evs1)"
    and evs: "evs = (case ev of None \<Rightarrow> evs1 | Some x \<Rightarrow> x # evs1)" by (auto split: option.splits prod.splits)
  have IH: "(\<exists>x\<in>set evs1. evidence_key x = k) \<longleftrightarrow> (\<exists>a\<in>votes_of k vs d1. \<exists>b\<in>votes_of k vs d1. a \<noteq> b)"
    using 2(1) [OF c refl r] .
  show ?case
  proof (cases "map_of (sd_votes d) (v, e)")
    case None
    then have "ev = None" "votes_of k vs d1 = votes_of k (((v, e), h, sig) # vs) d"
      using c by (auto simp: check_and_record_def votes_of_def update_conv' split: if_splits)
    then show ?thesis using IH evs by simp
  next
    case (Some prev)
    show ?thesis
    proof (cases "prev = h")
      case True
      then have "ev = None" "votes_of k vs d1 = votes_of k (((v, e), h, sig) # vs) d"
        using c Some by (auto simp: check_and_record_def votes_of_def)
      then show ?thesis using IH evs by simp
    next
      case False
      then have ev: "ev = Some (DoubleVoteEvidence v e prev h None sig)" and d1: "sd_votes d1 = sd_votes d"
        using c Some by (auto simp: check_and_record_def Let_def split: option.splits)
      show ?thesis
      proof (cases "k = (v, e)")
        case True
        then have "prev \<in> votes_of k (((v, e), h, sig) # vs) d" "h \<in> votes_of k (((v, e), h, sig) # vs) d"
          using Some by (auto simp: votes_of_def)
        then show ?thesis using True False evs ev by auto
      next
        case other: False
        then have "votes_of k vs d1 = votes_of k (((v, e), h, sig) # vs) d" by (auto simp: votes_of_def d1)
        then show ?thesis using other IH evs ev by simp
      qed
    qed
  qed
qed

lemma evidence_sound:
  "record_votes vs d = Some (d', evs) \<Longrightarrow> x \<in> set evs \<Longrightarrow>
     \<exists>v e a b sig. x = DoubleVoteEvidence v e a b None sig \<and> a \<noteq> b \<and> a \<in> votes_of (v, e) vs d \<and> ((v, e), b, sig) \<in> set vs"
proof (induction vs d arbitrary: d' evs rule: record_votes.induct)
  case (2 v e h sig vs d)
  then obtain d1 ev evs1 where c: "check_and_record v e h sig d = Some (d1, ev)" and r: "record_votes vs d1 = Some (d', evs1)"
    and evs: "evs = (case ev of None \<Rightarrow> evs1 | Some x \<Rightarrow> x # evs1)" by (auto split: option.splits prod.splits)
  have sub: "votes_of k vs d1 \<subseteq> votes_of k (((v, e), h, sig) # vs) d" for k
    using c by (auto simp: check_and_record_def votes_of_def update_conv' Let_def split: option.splits if_splits)
  show ?case
  proof (cases "x \<in> set evs1")
    case True
    from 2(1) [OF c refl r this] show ?thesis using sub by fastforce
  next
    case False
    then have "ev = Some x" using evs 2(3) by (auto split: option.splits)
    then show ?thesis using c by (auto simp: check_and_record_def votes_of_def Let_def split: option.splits if_splits)
  qed
qed simp

section \<open>Properties\<close>

text \<open>
  C10. The validated chain is linked. Take any sequence of blocks, valid or not, offered to a new node or one
  started from a genesis header, whatever the validator sets, clocks and views are and however much is
  pruned. A node that starts empty accepts a genesis block first. Every later accepted header is the
  child of one accepted before it, one higher and with a later time stamp, so all of them descend
  from the first; and the head is an accepted block of greatest height.
\<close>

theorem validated_chain_is_linked:
  assumes "consensus_run kec hist s"
  shows "(\<forall>i<length hist. 0 < i \<longrightarrow> (\<exists>j<i. child_of kec (hist ! j) (hist ! i))) \<and>
    (\<forall>h\<in>set hist. (child_of kec)\<^sup>*\<^sup>* (hist ! 0) h) \<and>
    (hist \<noteq> [] \<longrightarrow> (\<exists>x\<in>set hist.
       st_head (co_chain s) = \<lparr>ch_block_hash = header_hash kec x, ch_block_height = hd_block_height x, ch_timestamp = hd_timestamp x\<rparr> \<and>
       (\<forall>y\<in>set hist. hd_block_height y \<le> hd_block_height x)))"
proof -
  have "head_inv kec hist (co_chain s)" using consensus_run_inv [OF assms] by simp
  then have "hist \<noteq> [] \<longrightarrow> (\<exists>x\<in>set hist.
       st_head (co_chain s) = \<lparr>ch_block_hash = header_hash kec x, ch_block_height = hd_block_height x, ch_timestamp = hd_timestamp x\<rparr> \<and>
       (\<forall>y\<in>set hist. hd_block_height y \<le> hd_block_height x))"
    unfolding head_inv_def by (metis chain_head.select_convs(2))
  then show ?thesis using run_children [OF assms] run_descends [OF assms] by (auto simp: in_set_conv_nth)
qed

definition sample_cons_header :: "u64 \<Rightarrow> hash \<Rightarrow> u64 \<Rightarrow> cons_header" where
  "sample_cons_header height parent time =
     \<lparr>hd_version = 1, hd_block_height = height, hd_parent_hash = parent, hd_timestamp = time, hd_proposer = 1, hd_transactions_root = None,
      hd_state_root = None, hd_receipts_root = 0, hd_gas_limit = 100, hd_gas_used = 0, hd_extra_data = []\<rparr>"

theorem validated_chain_is_linked_witness:
  "consensus_run (\<lambda>_. 7) [sample_cons_header 0 0 5] \<lparr>co_chain = with_genesis (\<lambda>_. 7) (sample_cons_header 0 0 5), co_view = 0\<rparr> \<and>
   (\<exists>x\<in>set [sample_cons_header 0 0 5]. ch_block_height (st_head (with_genesis (\<lambda>_. 7) (sample_cons_header 0 0 5))) = hd_block_height x)"
proof -
  have r: "consensus_run (\<lambda>_. 7) [sample_cons_header 0 0 5] \<lparr>co_chain = with_genesis (\<lambda>_. 7) (sample_cons_header 0 0 5), co_view = 0\<rparr>"
    by (rule run_genesis)
  from validated_chain_is_linked [OF r] r show ?thesis by auto
qed

text \<open>
  C24. An accepted proof-of-stake block carries its votes. When the service returns a block with a
  proof-of-stake proof, its attestations come from different validators of the set of its epoch, each
  is signed with that validator's key over the hash of this very header, there are at least the
  configured share of them, rounded down but at least one, and the proposer is among the voters
  unless the block is the genesis block.
\<close>

theorem accepted_block_has_votes:
  assumes "validate_block_internal P cfg now b s = (s', Ok b')" and "cb_proof b = PoS p"
  shows "\<exists>vs. validators_at P (pos_epoch p) = Ok vs \<and>
    distinct (map at_voter (pos_attestations p)) \<and>
    (\<forall>a\<in>set (pos_attestations p).
       vote_valid P vs (attestation_signing_message (header_hash (cp_keccak P) (cb_header b)) (pos_slot p) (pos_epoch p)) a) \<and>
    length (vs_members vs) * unat (cc_min_attestation_percent cfg) div 100 \<le> length (pos_attestations p) \<and>
    pos_attestations p \<noteq> [] \<and>
    (is_genesis (cb_header b) \<or> hd_proposer (cb_header b) \<in> at_voter ` set (pos_attestations p))"
proof -
  have "accepts P cfg now b s" by (rule validate_block_effect(2) [OF assms(1) refl])
  then have v: "validate_proposer P (cb_header b) (PoS p) = Ok ()"
    "validate_pos_proof P cfg p (header_hash (cp_keccak P) (cb_header b)) = Ok ()"
    using assms(2) by (auto simp: accepts_def verify_block_logic_def validate_consensus_proof_def)
  have "is_genesis (cb_header b) \<or> hd_proposer (cb_header b) \<in> at_voter ` set (pos_attestations p)"
    using v(1) by (auto simp: validate_proposer_def list_ex_iff split: if_splits intro: rev_image_eqI)
  with v(2) show ?thesis unfolding pos_proof_iff by (auto simp: required_attestations_def)
qed

definition byte_44 :: "u8 list \<Rightarrow> hash" where
  "byte_44 bs = ucast (bs ! 44)"

definition four_validators :: cons_validators where
  "four_validators =
     (let vs = map (\<lambda>i. \<lparr>cv_id = i, cv_stake = 1, cv_pubkey = replicate 48 0, cv_active = True\<rparr>) [1, 2, 3, 4]
      in \<lparr>vs_epoch = 0, vs_members = vs, vs_stake_sum = 4, vs_lookup = build_lookup vs\<rparr>)"

definition sample_consensus_ports :: consensus_ports where
  "sample_consensus_ports =
     \<lparr>cp_keccak = byte_44, cp_verify_aggregate_bls = (\<lambda>_ _ _. True), cp_verify_ecdsa = (\<lambda>_ _ _. True), cp_epoch_state_root = (\<lambda>_. Ok 0),
      cp_validator_set = (\<lambda>_ _. Ok four_validators), cp_current_epoch = 0, cp_mempool = (\<lambda>_ _. Ok []), cp_publish = (\<lambda>_ _. Ok ())\<rparr>"

definition attested_block :: "u64 \<Rightarrow> hash list \<Rightarrow> cons_block" where
  "attested_block time voters =
     \<lparr>cb_header = (sample_cons_header 1 5 time)\<lparr>hd_proposer := voters ! 0\<rparr>, cb_transactions = [],
      cb_proof = PoS \<lparr>pos_attestations = map (\<lambda>v. \<lparr>at_voter = v, at_block = 0, at_sig = replicate 65 0, at_slot_no = 0\<rparr>) voters,
                      pos_epoch = 0, pos_slot = 0\<rparr>\<rparr>"

theorem accepted_block_has_votes_witness:
  "\<exists>s'. validate_block_internal sample_consensus_ports default_consensus_config 10 (attested_block 6 [1, 2, 3])
       \<lparr>co_chain = with_genesis byte_44 (sample_cons_header 0 0 5), co_view = 0\<rparr> = (s', Ok (attested_block 6 [1, 2, 3])) \<and>
     validators_at sample_consensus_ports 0 = Ok four_validators"
proof -
  let ?s = "\<lparr>co_chain = with_genesis byte_44 (sample_cons_header 0 0 5), co_view = 0\<rparr>"
  have "snd (validate_block_internal sample_consensus_ports default_consensus_config 10 (attested_block 6 [1, 2, 3]) ?s) =
      Ok (attested_block 6 [1, 2, 3])" by code_simp
  then obtain s' where r: "validate_block_internal sample_consensus_ports default_consensus_config 10 (attested_block 6 [1, 2, 3]) ?s =
      (s', Ok (attested_block 6 [1, 2, 3]))" by (metis prod.collapse)
  have p: "cb_proof (attested_block 6 [1, 2, 3]) = PoS \<lparr>pos_attestations = map (\<lambda>v. \<lparr>at_voter = v, at_block = 0, at_sig = replicate 65 0,
      at_slot_no = 0\<rparr>) [1, 2, 3], pos_epoch = 0, pos_slot = 0\<rparr>" by (simp add: attested_block_def)
  from accepted_block_has_votes [OF r p] r show ?thesis
    by (auto simp: validators_at_def sample_consensus_ports_def state_result_def)
qed


text \<open>
  C40. One PBFT voter is enough for any block. The PBFT check counts messages and not validators, and never
  compares the hash in the messages with the block. A single member of the validator set who signs
  one prepare and one commit message, for whatever block, has every block hash accepted once the
  messages are repeated \<open>2 f + 1\<close> times.
\<close>

theorem one_pbft_voter_suffices:
  assumes "validators_at P epoch = Ok vs" and "get_pubkey vs v = Some pk"
    and "cp_verify_ecdsa P (prepare_signing_message m) (pm_signature m) (ecdsa_pubkey pk)" and "pm_validator m = v"
    and "cp_verify_ecdsa P (commit_signing_message c) (pm_signature c) (ecdsa_pubkey pk)" and "pm_validator c = v"
  shows "validate_pbft_proof P cfg view
      \<lparr>pb_prepares = replicate (2 * cc_byzantine_threshold cfg + 1) m, pb_commits = replicate (2 * cc_byzantine_threshold cfg + 1) c,
       pb_view = view, pb_epoch = epoch\<rparr> block_hash = Ok ()"
proof -
  have "cvs_contains vs v" using assms(2) by (auto simp: get_pubkey_def vs_get_def cvs_contains_def)
  then have "verify_pbft_signatures P vs prepare_signing_message (replicate n m) = Ok ()"
    "verify_pbft_signatures P vs commit_signing_message (replicate n c) = Ok ()" for n
    using assms by (induction n) simp_all
  then show ?thesis using assms(1) by (simp add: validate_pbft_proof_def required_pbft_votes_def fail_if_def del: replicate_Suc)
qed

theorem one_pbft_voter_suffices_witness:
  "\<exists>m. pm_block_hash m = 1 \<and>
     validate_pbft_proof sample_consensus_ports default_consensus_config 0
       \<lparr>pb_prepares = replicate 3 m, pb_commits = replicate 3 m, pb_view = 0, pb_epoch = 0\<rparr> 99 = Ok ()"
proof -
  let ?m = "\<lparr>pm_view = 0, pm_sequence = 0, pm_block_hash = 1, pm_validator = 2, pm_signature = []\<rparr>"
  have "validators_at sample_consensus_ports 0 = Ok four_validators" by (simp add: validators_at_def sample_consensus_ports_def state_result_def)
  moreover have "get_pubkey four_validators 2 = Some (replicate 48 0)" by code_simp
  ultimately have "validate_pbft_proof sample_consensus_ports default_consensus_config 0
       \<lparr>pb_prepares = replicate 3 ?m, pb_commits = replicate 3 ?m, pb_view = 0, pb_epoch = 0\<rparr> 99 = Ok ()"
    using one_pbft_voter_suffices [of sample_consensus_ports 0 four_validators 2 "replicate 48 0" ?m ?m default_consensus_config 0 99]
    by (simp add: sample_consensus_ports_def default_consensus_config_def eval_nat_numeral)
  then show ?thesis by (intro exI [of _ ?m]) simp
qed

text \<open>
  C37. Double votes are caught, and only they. When votes are recorded one after the other in a new slashing
  database, there is evidence against a validator for an epoch exactly when two of the votes give
  different blocks for that validator and epoch, and every evidence names two votes that were cast.
\<close>

theorem double_votes_are_caught:
  assumes "record_votes votes new_slashing_db = Some (d, evs)"
  shows "((\<exists>x\<in>set evs. evidence_key x = (v, e)) \<longleftrightarrow>
      (\<exists>a b s t. ((v, e), a, s) \<in> set votes \<and> ((v, e), b, t) \<in> set votes \<and> a \<noteq> b)) \<and>
    (\<forall>x\<in>set evs. \<exists>v e a b s t. x = DoubleVoteEvidence v e a b None t \<and> a \<noteq> b \<and>
       ((v, e), a, s) \<in> set votes \<and> ((v, e), b, t) \<in> set votes)"
  using evidence_complete [OF assms, of "(v, e)"] evidence_sound [OF assms]
  by (fastforce simp: votes_of_def new_slashing_db_def)

theorem double_votes_are_caught_witness:
  "\<exists>d evs. record_votes [((1, 0), 5, None), ((1, 0), 6, None)] new_slashing_db = Some (d, evs) \<and> (\<exists>x\<in>set evs. evidence_key x = (1, 0))"
proof -
  obtain d evs where r: "record_votes [((1, 0), 5, None), ((1, 0), 6, None)] new_slashing_db = Some (d, evs)"
    by (simp add: check_and_record_def new_slashing_db_def checked_add_def Let_def)
  have "\<exists>a b s t. ((1, 0), a, s) \<in> set [((1, 0), 5, None), ((1, 0), 6, None :: u8 list option)] \<and>
      ((1, 0), b, t) \<in> set [((1 :: hash, 0 :: u64), 5 :: hash, None), ((1, 0), 6, None :: u8 list option)] \<and> a \<noteq> b"
    by (intro exI [of _ 5] exI [of _ 6] exI [of _ None]) simp
  with double_votes_are_caught [OF r, of 1 0] r show ?thesis by blast
qed

end
