(* ===== verification/ForkChoice.thy ===== *)
theory ForkChoice
  imports Consensus
begin

declare map_of_eq_Some_iff [simp del] Some_eq_map_of_iff [simp del]

text \<open>
  The LMD-GHOST fork choice of QC-08 (\<^verbatim>\<open>domain/fork_choice.rs\<close>): the store of headers and latest votes, the
  cached weights and the walk to the head. The walk over ancestors keeps a visited set and is a total
  function; the walk to the head follows the children map for as long as there are children, so it is
  a partial function whose \<open>None\<close> means that it does not return. The weights are added with checked
  arithmetic; an overflow is a panic.
\<close>

section \<open>Definitions\<close>

record ghost_store =
  gs_blocks :: "(hash \<times> cons_header) list"
  gs_children :: "(hash \<times> hash list) list"
  gs_votes :: "(hash \<times> hash) list"
  gs_weights :: "(hash \<times> u128) list"
  gs_cache_valid :: bool
  gs_justified :: "hash option"
















section \<open>Weights\<close>

definition parent_step :: "(hash \<times> cons_header) list \<Rightarrow> hash \<Rightarrow> hash \<Rightarrow> bool" where
  "parent_step blocks a b \<longleftrightarrow> (\<exists>h. map_of blocks a = Some h \<and> hd_parent_hash h = b) \<and> a \<noteq> b"

text \<open>\<open>b\<close> is \<open>t\<close> or an ancestor of \<open>t\<close> among the stored blocks.\<close>

definition ancestor :: "(hash \<times> cons_header) list \<Rightarrow> hash \<Rightarrow> hash \<Rightarrow> bool" where
  "ancestor blocks t b \<longleftrightarrow> map_of blocks b \<noteq> None \<and> (parent_step blocks)\<^sup>*\<^sup>* t b"







definition stake_of :: "cons_validators \<Rightarrow> hash \<Rightarrow> nat" where
  "stake_of vs v = (case get_stake vs v of Some x \<Rightarrow> unat x | None \<Rightarrow> 0)"

definition support :: "cons_validators \<Rightarrow> ghost_store \<Rightarrow> (hash \<times> hash) list \<Rightarrow> hash \<Rightarrow> nat" where
  "support vs s votes b = (\<Sum>(v, t)\<leftarrow>votes. if ancestor (gs_blocks s) t b then stake_of vs v else 0)"

lemma support_le: "support vs s votes b \<le> (\<Sum>(v, t)\<leftarrow>votes. stake_of vs v)"
  unfolding support_def by (rule sum_list_mono) auto


section \<open>The walk to the head\<close>




section \<open>Stores\<close>








section \<open>Properties\<close>




end
