(* ===== verification/BlockValidation.thy ===== *)
theory BlockValidation
  imports SharedTypes
begin

text \<open>
  The block checks of the running node (\<^verbatim>\<open>qc-08-consensus/src/domain/block_validation.rs\<close>). The node runtime
  validates produced blocks with this \<open>BlockValidator\<close> and not with the consensus service: it looks at the block
  hash, the height, the difficulty and the timestamp, and takes the chain height, the time and the set of blocks
  already validated as arguments. An addition that overflows is \<open>Panic\<close>. \<open>block_valid_iff\<close> says exactly which
  blocks pass.
\<close>

section \<open>Parameters and results\<close>

record block_validation_params =
  vpar_block_hash :: hash
  vpar_block_height :: u64
  vpar_difficulty :: "u8 list"
  vpar_nonce :: u64
  vpar_timestamp :: u64
  vpar_parent_hash :: hash

record block_validation_config =
  vcfg_max_cached_blocks :: usize
  vcfg_max_future_drift_secs :: u64
  vcfg_strict_height_validation :: bool

definition default_block_validation_config :: block_validation_config where
  "default_block_validation_config =
     \<lparr>vcfg_max_cached_blocks = 1000, vcfg_max_future_drift_secs = 15, vcfg_strict_height_validation = False\<rparr>"

datatype block_validation_error =
    BveDuplicateBlock hash
  | BveNonSequentialHeight u64 u64
  | BveZeroDifficulty
  | BveFutureTimestamp u64 u64 u64

datatype validation_warning =
    SlightlyFutureTimestamp u64 u64
  | NonSequentialHeightAllowed u64 u64

record validation_result =
  vres_block_hash :: hash
  vres_block_height :: u64
  vres_warnings :: "validation_warning list"

section \<open>Checks\<close>

definition bv_check_duplicate :: "hash \<Rightarrow> hash list \<Rightarrow> (unit, block_validation_error) outcome" where
  "bv_check_duplicate block_hash validated_blocks =
     (if block_hash \<in> set validated_blocks then Err (BveDuplicateBlock block_hash) else Ok ())"

definition bv_validate_height :: "block_validation_config \<Rightarrow> u64 \<Rightarrow> u64 \<Rightarrow>
    (validation_warning option, block_validation_error) outcome" where
  "bv_validate_height cfg block_height current_chain_height =
     and_then (or_panic (checked_add current_chain_height 1)) (\<lambda>expected_height.
       if block_height \<le> 1 then Ok None
       else if block_height \<noteq> expected_height
       then (if vcfg_strict_height_validation cfg then Err (BveNonSequentialHeight expected_height block_height)
             else Ok (Some (NonSequentialHeightAllowed expected_height block_height)))
       else Ok None)"

definition bv_validate_difficulty :: "u8 list \<Rightarrow> (unit, block_validation_error) outcome" where
  "bv_validate_difficulty difficulty =
     (if from_be_bytes difficulty = (0 :: u256) then Err BveZeroDifficulty else Ok ())"

definition bv_validate_timestamp :: "block_validation_config \<Rightarrow> u64 \<Rightarrow> u64 \<Rightarrow>
    (validation_warning option, block_validation_error) outcome" where
  "bv_validate_timestamp cfg block_timestamp current_time =
     and_then (or_panic (checked_add current_time (vcfg_max_future_drift_secs cfg))) (\<lambda>max_allowed.
       if max_allowed < block_timestamp
       then Err (BveFutureTimestamp block_timestamp current_time (vcfg_max_future_drift_secs cfg))
       else if current_time < block_timestamp then Ok (Some (SlightlyFutureTimestamp block_timestamp current_time))
       else Ok None)"

definition should_evict_cache :: "block_validation_config \<Rightarrow> usize \<Rightarrow> bool" where
  "should_evict_cache cfg cache_size \<longleftrightarrow> vcfg_max_cached_blocks cfg < cache_size"

fun push_warning :: "validation_warning option \<Rightarrow> validation_warning list \<Rightarrow> validation_warning list" where
  "push_warning None warnings = warnings"
| "push_warning (Some w) warnings = warnings @ [w]"

definition bv_validate_block :: "block_validation_config \<Rightarrow> block_validation_params \<Rightarrow> u64 \<Rightarrow> u64 \<Rightarrow> hash list \<Rightarrow>
    (validation_result, block_validation_error) outcome" where
  "bv_validate_block cfg params current_chain_height current_time validated_blocks =
     and_then (bv_check_duplicate (vpar_block_hash params) validated_blocks) (\<lambda>_.
     and_then (bv_validate_height cfg (vpar_block_height params) current_chain_height) (\<lambda>w1.
     and_then (bv_validate_difficulty (vpar_difficulty params)) (\<lambda>_.
     and_then (bv_validate_timestamp cfg (vpar_timestamp params) current_time) (\<lambda>w2.
       Ok \<lparr>vres_block_hash = vpar_block_hash params, vres_block_height = vpar_block_height params,
           vres_warnings = push_warning w2 (push_warning w1 [])\<rparr>))))"

section \<open>Which blocks pass\<close>

lemma bv_check_duplicate_Ok [simp]: "bv_check_duplicate h validated = Ok u \<longleftrightarrow> h \<notin> set validated"
  by (simp add: bv_check_duplicate_def)

lemma bv_validate_difficulty_Ok [simp]: "bv_validate_difficulty d = Ok u \<longleftrightarrow> from_be_bytes d \<noteq> (0 :: u256)"
  by (simp add: bv_validate_difficulty_def)

lemma bv_validate_height_Ok:
  "(\<exists>w. bv_validate_height cfg n height = Ok w) \<longleftrightarrow> unat height + 1 < 2 ^ 64 \<and>
     (vcfg_strict_height_validation cfg \<longrightarrow> n \<le> 1 \<or> unat n = unat height + 1)"
  using unat_add_no_overflow [of height 1]
  by (cases "unat height + 1 < 2 ^ 64") (auto simp: bv_validate_height_def checked_add_def or_panic_def word_unat_eq_iff)

lemma bv_validate_timestamp_Ok:
  "(\<exists>w. bv_validate_timestamp cfg time now = Ok w) \<longleftrightarrow> unat now + unat (vcfg_max_future_drift_secs cfg) < 2 ^ 64 \<and>
     unat time \<le> unat now + unat (vcfg_max_future_drift_secs cfg)"
  using unat_add_no_overflow [of now "vcfg_max_future_drift_secs cfg"]
  by (cases "unat now + unat (vcfg_max_future_drift_secs cfg) < 2 ^ 64")
     (auto simp: bv_validate_timestamp_def checked_add_def or_panic_def word_less_nat_alt)

lemma block_valid_iff:
  "(\<exists>r. bv_validate_block cfg p height now validated = Ok r) \<longleftrightarrow>
     vpar_block_hash p \<notin> set validated \<and> from_be_bytes (vpar_difficulty p) \<noteq> (0 :: u256) \<and>
     unat height + 1 < 2 ^ 64 \<and>
     (vcfg_strict_height_validation cfg \<longrightarrow> vpar_block_height p \<le> 1 \<or> unat (vpar_block_height p) = unat height + 1) \<and>
     unat now + unat (vcfg_max_future_drift_secs cfg) < 2 ^ 64 \<and>
     unat (vpar_timestamp p) \<le> unat now + unat (vcfg_max_future_drift_secs cfg)"
  using bv_validate_height_Ok [of cfg "vpar_block_height p" height] bv_validate_timestamp_Ok [of cfg "vpar_timestamp p" now]
  by (auto simp: bv_validate_block_def)

end
