(* ===== verification/Choreography.thy ===== *)
theory Choreography
  imports BlockValidation TxIndex TxOrdering BlockStorage StateTrie
begin

text \<open>
  The running node (\<^verbatim>\<open>node-runtime/src\<close>): how the subsystems are composed. The event router
  (\<^verbatim>\<open>wiring/event_routing.rs\<close>) is a log of events with one read position per handler; the broadcast channel of
  tokio delivers the events in the order they were sent and lets a slow receiver skip some. The adapters of
  consensus, transaction indexing, state, block storage and transaction ordering (\<^verbatim>\<open>adapters/\<close>) and the handlers
  that call them (\<^verbatim>\<open>handlers/choreography.rs\<close>) are functions on the adapter's state and the log. \<open>node_step\<close> is
  every interleaving of the handlers, of the garbage collection of block storage, which can run between the two
  critical sections of the storage adapter, and of the bridge that brings produced blocks in
  (\<^verbatim>\<open>main.rs\<close>). A handler that panics stops.

  The properties: every event of a reachable log is caused by earlier events, a produced block that passes the
  checks is stored and then finalized, and the stored roots never depend on the block.
\<close>

section \<open>Events and router\<close>

datatype choreography_event =
    ChBlockProduced hash u64 "u8 list" u64 u64 hash subsystem_id
  | ChBlockValidated hash u64 subsystem_id
  | ChMerkleRootComputed hash hash subsystem_id
  | ChStateRootComputed hash hash subsystem_id
  | ChBlockStored hash u64 hash hash subsystem_id
  | ChBlockFinalized hash u64 "u8 list" subsystem_id
  | ChTransactionsOrdered hash u64 "hash list list" u32 subsystem_id
  | ChAssemblyTimeout hash "string list" subsystem_id
  | ChGenesisInitialized hash u64 subsystem_id

datatype authorization_error = AuthUnauthorizedSender string subsystem_id subsystem_id

definition expect_sender :: "string \<Rightarrow> subsystem_id \<Rightarrow> subsystem_id \<Rightarrow> (unit, authorization_error) outcome" where
  "expect_sender event_type expected actual =
     (if actual \<noteq> expected then Err (AuthUnauthorizedSender event_type expected actual) else Ok ())"

fun validate_event_sender :: "choreography_event \<Rightarrow> (unit, authorization_error) outcome" where
  "validate_event_sender (ChBlockProduced _ _ _ _ _ _ s) = expect_sender ''BlockProduced'' subsystem_id.BlockProduction s"
| "validate_event_sender (ChBlockValidated _ _ s) = expect_sender ''BlockValidated'' subsystem_id.Consensus s"
| "validate_event_sender (ChMerkleRootComputed _ _ s) = expect_sender ''MerkleRootComputed'' subsystem_id.TransactionIndexing s"
| "validate_event_sender (ChStateRootComputed _ _ s) = expect_sender ''StateRootComputed'' subsystem_id.StateManagement s"
| "validate_event_sender (ChBlockStored _ _ _ _ s) = expect_sender ''BlockStored'' subsystem_id.BlockStorage s"
| "validate_event_sender (ChBlockFinalized _ _ _ s) = expect_sender ''BlockFinalized'' subsystem_id.Finality s"
| "validate_event_sender (ChTransactionsOrdered _ _ _ _ s) = expect_sender ''TransactionsOrdered'' subsystem_id.TransactionOrdering s"
| "validate_event_sender (ChAssemblyTimeout _ _ s) = expect_sender ''AssemblyTimeout'' subsystem_id.BlockStorage s"
| "validate_event_sender (ChGenesisInitialized _ _ s) = expect_sender ''GenesisInitialized'' subsystem_id.BlockStorage s"

definition router_publish :: "choreography_event \<Rightarrow> choreography_event list \<Rightarrow>
    choreography_event list \<times> (unit, authorization_error) outcome" where
  "router_publish event bus =
     (case validate_event_sender event of
        Ok _ \<Rightarrow> (bus @ [event], Ok ())
      | Err e \<Rightarrow> (bus, Err e)
      | Panic \<Rightarrow> (bus, Panic))"

fun event_sender :: "choreography_event \<Rightarrow> subsystem_id" where
  "event_sender (ChBlockProduced _ _ _ _ _ _ s) = s"
| "event_sender (ChBlockValidated _ _ s) = s"
| "event_sender (ChMerkleRootComputed _ _ s) = s"
| "event_sender (ChStateRootComputed _ _ s) = s"
| "event_sender (ChBlockStored _ _ _ _ s) = s"
| "event_sender (ChBlockFinalized _ _ _ s) = s"
| "event_sender (ChTransactionsOrdered _ _ _ _ s) = s"
| "event_sender (ChAssemblyTimeout _ _ s) = s"
| "event_sender (ChGenesisInitialized _ _ s) = s"

datatype event_bus_error =
    EbSenderMismatch subsystem_id subsystem_id
  | EbAuthorizationFailed authorization_error
  | EbSendFailed string

definition bus_publish :: "subsystem_id \<Rightarrow> choreography_event \<Rightarrow> choreography_event list \<Rightarrow>
    choreography_event list \<times> (unit, event_bus_error) outcome" where
  "bus_publish own event bus =
     (if event_sender event \<noteq> own then (bus, Err (EbSenderMismatch own (event_sender event)))
      else
        (case router_publish event bus of
           (bus', Ok _) \<Rightarrow> (bus', Ok ())
         | (bus', Err e) \<Rightarrow> (bus', Err (EbAuthorizationFailed e))
         | (bus', Panic) \<Rightarrow> (bus', Panic)))"

section \<open>Consensus adapter\<close>

record consensus_adapter =
  cad_validator :: block_validation_config
  cad_validated_blocks :: "hash list"
  cad_chain_height :: u64

definition new_consensus_adapter :: consensus_adapter where
  "new_consensus_adapter =
     \<lparr>cad_validator = default_block_validation_config, cad_validated_blocks = [], cad_chain_height = 0\<rparr>"

definition set_initial_chain_height :: "u64 \<Rightarrow> consensus_adapter \<Rightarrow> consensus_adapter" where
  "set_initial_chain_height height c = c\<lparr>cad_chain_height := height\<rparr>"

definition adapter_block_stored :: "u64 \<Rightarrow> consensus_adapter \<Rightarrow> consensus_adapter" where
  "adapter_block_stored block_height c = (if cad_chain_height c < block_height then c\<lparr>cad_chain_height := block_height\<rparr> else c)"

definition update_validated_blocks_cache :: "hash \<Rightarrow> consensus_adapter \<Rightarrow> consensus_adapter" where
  "update_validated_blocks_cache block_hash c =
     (let validated = List.insert block_hash (cad_validated_blocks c) in
      c\<lparr>cad_validated_blocks := (if should_evict_cache (cad_validator c) (length validated) then [] else validated)\<rparr>)"

datatype consensus_adapter_error =
    CaeDuplicateBlock
  | CaeInvalidDifficulty
  | CaeInvalidHeight u64 u64
  | CaeInvalidTimestamp
  | CaePublishFailed event_bus_error

fun from_domain_error :: "block_validation_error \<Rightarrow> consensus_adapter_error" where
  "from_domain_error (BveDuplicateBlock _) = CaeDuplicateBlock"
| "from_domain_error (BveNonSequentialHeight expected got) = CaeInvalidHeight expected got"
| "from_domain_error BveZeroDifficulty = CaeInvalidDifficulty"
| "from_domain_error (BveFutureTimestamp _ _ _) = CaeInvalidTimestamp"

definition publish_block_validated :: "block_validation_params \<Rightarrow> choreography_event list \<Rightarrow>
    choreography_event list \<times> (unit, consensus_adapter_error) outcome" where
  "publish_block_validated params bus =
     (case bus_publish subsystem_id.Consensus
             (ChBlockValidated (vpar_block_hash params) (vpar_block_height params) subsystem_id.Consensus) bus of
        (bus', Ok _) \<Rightarrow> (bus', Ok ())
      | (bus', Err e) \<Rightarrow> (bus', Err (CaePublishFailed e))
      | (bus', Panic) \<Rightarrow> (bus', Panic))"

definition process_block_produced :: "u64 \<Rightarrow> block_validation_params \<Rightarrow> consensus_adapter \<Rightarrow> choreography_event list \<Rightarrow>
    consensus_adapter \<times> choreography_event list \<times> (unit, consensus_adapter_error) outcome" where
  "process_block_produced now params c bus =
     (case bv_validate_block (cad_validator c) params (cad_chain_height c) now (cad_validated_blocks c) of
        Ok _ \<Rightarrow> (update_validated_blocks_cache (vpar_block_hash params) c, publish_block_validated params bus)
      | Err e \<Rightarrow> (c, bus, Err (from_domain_error e))
      | Panic \<Rightarrow> (c, bus, Panic))"

definition consensus_dispatch :: "u64 \<Rightarrow> choreography_event \<Rightarrow> consensus_adapter \<Rightarrow> choreography_event list \<Rightarrow>
    consensus_adapter \<times> choreography_event list \<times> bool" where
  "consensus_dispatch now event c bus =
     (case event of
        ChBlockProduced block_hash block_height difficulty nonce timestamp parent_hash sender_id \<Rightarrow>
          (if sender_id \<noteq> subsystem_id.BlockProduction then (c, bus, True)
           else
             (case process_block_produced now
                     \<lparr>vpar_block_hash = block_hash, vpar_block_height = block_height, vpar_difficulty = difficulty,
                      vpar_nonce = nonce, vpar_timestamp = timestamp, vpar_parent_hash = parent_hash\<rparr> c bus of
                (c', bus', r) \<Rightarrow> (c', bus', r \<noteq> Panic)))
      | ChBlockStored block_hash block_height _ _ sender_id \<Rightarrow>
          (if sender_id \<noteq> subsystem_id.BlockStorage then (c, bus, True)
           else (adapter_block_stored block_height c, bus, True))
      | _ \<Rightarrow> (c, bus, True))"

section \<open>Indexing and state adapters\<close>

definition index_block_validated :: "(u8 list \<Rightarrow> hash) \<Rightarrow> 'c lru_ops \<Rightarrow> hash \<Rightarrow> u64 \<Rightarrow> hash list \<Rightarrow>
    'c transaction_index \<Rightarrow> choreography_event list \<Rightarrow>
    'c transaction_index \<times> choreography_event list \<times> (hash, event_bus_error) outcome" where
  "index_block_validated sha3 ops block_hash block_height transaction_hashes ix bus =
     (case merkle_build sha3 transaction_hashes of
        None \<Rightarrow> (ix, bus, Panic)
      | Some tree \<Rightarrow>
          (case index_all block_height block_hash (mt_root tree) 0 transaction_hashes ix of
             None \<Rightarrow> (ix, bus, Panic)
           | Some ix1 \<Rightarrow>
               (let ix2 = cache_tree ops block_hash tree ix1 in
                case bus_publish subsystem_id.TransactionIndexing
                       (ChMerkleRootComputed block_hash (mt_root tree) subsystem_id.TransactionIndexing) bus of
                  (bus', Ok _) \<Rightarrow> (ix2, bus', Ok (mt_root tree))
                | (bus', Err e) \<Rightarrow> (ix2, bus', Err e)
                | (bus', Panic) \<Rightarrow> (ix2, bus', Panic))))"

definition indexing_dispatch :: "(u8 list \<Rightarrow> hash) \<Rightarrow> 'c lru_ops \<Rightarrow> choreography_event \<Rightarrow> 'c transaction_index \<Rightarrow>
    choreography_event list \<Rightarrow> 'c transaction_index \<times> choreography_event list \<times> bool" where
  "indexing_dispatch sha3 ops event ix bus =
     (case event of
        ChBlockValidated block_hash block_height sender_id \<Rightarrow>
          (if sender_id \<noteq> subsystem_id.Consensus then (ix, bus, True)
           else (case index_block_validated sha3 ops block_hash block_height [] ix bus of (ix', bus', r) \<Rightarrow> (ix', bus', r \<noteq> Panic)))
      | _ \<Rightarrow> (ix, bus, True))"

record state_transaction =
  stx_from :: address
  stx_to :: "address option"
  stx_value :: u128
  stx_gas_limit :: u64
  stx_gas_price :: u128
  stx_nonce :: u64

fun apply_state_transactions :: "(u8 list \<Rightarrow> hash) \<Rightarrow> state_transaction list \<Rightarrow> state_trie \<Rightarrow> state_trie \<times> bool" where
  "apply_state_transactions kec [] t = (t, True)"
| "apply_state_transactions kec (tx # txs) t =
     (if sint (stx_value tx) = - (2 ^ 127) then (t, False)
      else
        (case apply_balance_change kec (stx_from tx) (- stx_value tx) t of
           (t1, Panic) \<Rightarrow> (t1, False)
         | (t1, _) \<Rightarrow>
             (case stx_to tx of
                None \<Rightarrow> apply_state_transactions kec txs t1
              | Some recipient \<Rightarrow>
                  (case apply_balance_change kec recipient (stx_value tx) t1 of
                     (t2, Panic) \<Rightarrow> (t2, False)
                   | (t2, _) \<Rightarrow> apply_state_transactions kec txs t2))))"

definition state_block_validated :: "(u8 list \<Rightarrow> hash) \<Rightarrow> hash \<Rightarrow> state_transaction list \<Rightarrow> state_trie \<Rightarrow>
    choreography_event list \<Rightarrow> state_trie \<times> choreography_event list \<times> (hash, event_bus_error) outcome" where
  "state_block_validated kec block_hash transactions t bus =
     (case apply_state_transactions kec transactions t of
        (t1, False) \<Rightarrow> (t1, bus, Panic)
      | (t1, True) \<Rightarrow>
          (case bus_publish subsystem_id.StateManagement
                  (ChStateRootComputed block_hash (tri_root t1) subsystem_id.StateManagement) bus of
             (bus', Ok _) \<Rightarrow> (t1, bus', Ok (tri_root t1))
           | (bus', Err e) \<Rightarrow> (t1, bus', Err e)
           | (bus', Panic) \<Rightarrow> (t1, bus', Panic)))"

definition state_dispatch :: "(u8 list \<Rightarrow> hash) \<Rightarrow> choreography_event \<Rightarrow> state_trie \<Rightarrow>
    choreography_event list \<Rightarrow> state_trie \<times> choreography_event list \<times> bool" where
  "state_dispatch kec event t bus =
     (case event of
        ChBlockValidated block_hash block_height sender_id \<Rightarrow>
          (if sender_id \<noteq> subsystem_id.Consensus then (t, bus, True)
           else (case state_block_validated kec block_hash [] t bus of (t', bus', r) \<Rightarrow> (t', bus', r \<noteq> Panic)))
      | _ \<Rightarrow> (t, bus, True))"

section \<open>Block storage adapter\<close>

text \<open>
  The adapter adds a component under its lock, releases the lock, and takes it again to look for a complete
  assembly. \<open>storage_receive\<close> is the first critical section and says which assembly to look for next;
  \<open>adapter_try_complete\<close> is the second.
\<close>

definition placeholder_block :: "u64 \<Rightarrow> u64 \<Rightarrow> validated_block" where
  "placeholder_block block_height now =
     \<lparr>vb_header = \<lparr>bh_version = 1, bh_height = block_height, bh_parent_hash = 0, bh_merkle_root = 0, bh_state_root = 0,
        bh_timestamp = now, bh_proposer = 0, bh_difficulty = 2 ^ 252, bh_nonce = 0\<rparr>,
      vb_transactions = [],
      vb_consensus_proof = \<lparr>cpf_block_hash = 0, cpf_attestations = [], cpf_total_stake = 0\<rparr>\<rparr>"

definition adapter_block_validated :: "u64 \<Rightarrow> hash \<Rightarrow> u64 \<Rightarrow> assembly_buffer \<Rightarrow> assembly_buffer" where
  "adapter_block_validated now block_hash block_height b =
     add_block_validated block_hash (placeholder_block block_height now) now (fst (enforce_max_pending b))"

definition storage_receive :: "u64 \<Rightarrow> choreography_event \<Rightarrow> assembly_buffer \<Rightarrow> assembly_buffer \<times> hash option" where
  "storage_receive now event b =
     (case event of
        ChBlockValidated block_hash block_height sender_id \<Rightarrow>
          (if sender_id = subsystem_id.Consensus
           then (adapter_block_validated now block_hash block_height b, Some block_hash) else (b, None))
      | ChMerkleRootComputed block_hash merkle_root sender_id \<Rightarrow>
          (if sender_id = subsystem_id.TransactionIndexing
           then (add_merkle_root block_hash merkle_root now b, Some block_hash) else (b, None))
      | ChStateRootComputed block_hash state_root sender_id \<Rightarrow>
          (if sender_id = subsystem_id.StateManagement
           then (add_state_root block_hash state_root now b, Some block_hash) else (b, None))
      | _ \<Rightarrow> (b, None))"

datatype block_storage_error = BufferFull | BsePublishFailed event_bus_error | WriteFailed string

definition adapter_try_complete :: "hash \<Rightarrow> assembly_buffer \<Rightarrow> choreography_event list \<Rightarrow>
    assembly_buffer \<times> choreography_event list \<times> (unit, block_storage_error) outcome" where
  "adapter_try_complete block_hash b bus =
     (case take_complete block_hash b of
        (b', None) \<Rightarrow> (b', bus, Ok ())
      | (b', Some a) \<Rightarrow>
          (case pa_merkle_root a of
             None \<Rightarrow> (b', bus, Err (WriteFailed ''Missing merkle_root''))
           | Some merkle_root \<Rightarrow>
               (case pa_state_root a of
                  None \<Rightarrow> (b', bus, Err (WriteFailed ''Missing state_root''))
                | Some state_root \<Rightarrow>
                    (case bus_publish subsystem_id.BlockStorage
                            (ChBlockStored block_hash (pa_block_height a) merkle_root state_root subsystem_id.BlockStorage) bus of
                       (bus', Ok _) \<Rightarrow> (b', bus', Ok ())
                     | (bus', Err e) \<Rightarrow> (b', bus', Err (BsePublishFailed e))
                     | (bus', Panic) \<Rightarrow> (b', bus', Panic)))))"

definition get_missing_components :: "pending_block_assembly \<Rightarrow> string list" where
  "get_missing_components a =
     (if pa_validated_block a = None then [''BlockValidated''] else []) @
     (if pa_merkle_root a = None then [''MerkleRootComputed''] else []) @
     (if pa_state_root a = None then [''StateRootComputed''] else [])"

definition publish_timeouts :: "(hash \<times> pending_block_assembly) list \<Rightarrow> choreography_event list \<Rightarrow> choreography_event list" where
  "publish_timeouts expired bus =
     fold (\<lambda>(block_hash, a) bus. fst (bus_publish subsystem_id.BlockStorage
       (ChAssemblyTimeout block_hash (get_missing_components a) subsystem_id.BlockStorage) bus)) expired bus"

definition gc_stale_assemblies :: "u64 \<Rightarrow> assembly_buffer \<Rightarrow> choreography_event list \<Rightarrow>
    assembly_buffer \<times> choreography_event list" where
  "gc_stale_assemblies now b bus =
     (case gc_expired_with_data now b of (b', expired) \<Rightarrow> (b', publish_timeouts expired bus))"

section \<open>Finality and ordering handlers\<close>

definition finality_block_stored :: "hash \<Rightarrow> u64 \<Rightarrow> choreography_event list \<Rightarrow> choreography_event list" where
  "finality_block_stored block_hash block_height bus =
     (if block_height mod 4 \<noteq> 0 \<and> 10 < block_height then bus
      else fst (router_publish (ChBlockFinalized block_hash block_height [] subsystem_id.Finality) bus))"

definition finality_dispatch :: "choreography_event \<Rightarrow> choreography_event list \<Rightarrow> choreography_event list" where
  "finality_dispatch event bus =
     (case event of
        ChBlockStored block_hash block_height _ _ sender_id \<Rightarrow>
          (if sender_id \<noteq> subsystem_id.BlockStorage then bus else finality_block_stored block_hash block_height bus)
      | _ \<Rightarrow> bus)"

definition ordering_request :: "hash \<Rightarrow> u64 \<Rightarrow> order_transactions_request" where
  "ordering_request block_hash block_height =
     \<lparr>orq_correlation_id = from_be_bytes (le_bytes 8 block_height @ take 8 (be_bytes 32 block_hash)),
      orq_reply_to = ''qc-12-ordering-'' @ nat_str (unat block_height),
      orq_transaction_hashes = [], orq_senders = [], orq_nonces = [], orq_read_sets = [], orq_write_sets = []\<rparr>"

definition process_order_transactions ::
    "((address \<times> annotated_transaction list) list \<Rightarrow> (address \<times> annotated_transaction list) list) \<Rightarrow>
     ordering_config \<Rightarrow> u64 \<Rightarrow> subsystem_id \<Rightarrow> order_transactions_request \<Rightarrow> hash \<Rightarrow> u64 \<Rightarrow> choreography_event list \<Rightarrow>
     choreography_event list \<times> order_transactions_response option" where
  "process_order_transactions iter cfg elapsed sender_id request block_hash block_height bus =
     (case handle_order_transactions iter cfg elapsed (as_u8 sender_id) request of
        None \<Rightarrow> (bus, None)
      | Some response \<Rightarrow>
          ((if orp_success response
            then fst (bus_publish subsystem_id.TransactionOrdering
              (ChTransactionsOrdered block_hash block_height (orp_parallel_groups response)
                 (om_max_parallelism (orp_metrics response)) subsystem_id.TransactionOrdering) bus)
            else bus), Some response))"

definition ordering_dispatch ::
    "((address \<times> annotated_transaction list) list \<Rightarrow> (address \<times> annotated_transaction list) list) \<Rightarrow>
     ordering_config \<Rightarrow> u64 \<Rightarrow> choreography_event \<Rightarrow> choreography_event list \<Rightarrow> choreography_event list \<times> bool" where
  "ordering_dispatch iter cfg elapsed event bus =
     (case event of
        ChBlockValidated block_hash block_height sender_id \<Rightarrow>
          (if sender_id \<noteq> subsystem_id.Consensus then (bus, True)
           else (case process_order_transactions iter cfg elapsed subsystem_id.Consensus
                        (ordering_request block_hash block_height) block_hash block_height bus of
                   (bus', r) \<Rightarrow> (bus', r \<noteq> None)))
      | _ \<Rightarrow> (bus, True))"

section \<open>Bridge and node\<close>

definition bridge_block_produced :: "hash \<Rightarrow> u64 \<Rightarrow> u8 list \<Rightarrow> u64 \<Rightarrow> u64 \<Rightarrow> hash \<Rightarrow> choreography_event list \<Rightarrow>
    choreography_event list" where
  "bridge_block_produced block_hash block_height difficulty nonce timestamp parent_hash bus =
     fst (router_publish (ChBlockProduced block_hash block_height difficulty nonce timestamp parent_hash
       subsystem_id.BlockProduction) bus)"

record 'c node_ports =
  np_sha3 :: "u8 list \<Rightarrow> hash"
  np_keccak :: "u8 list \<Rightarrow> hash"
  np_lru :: "'c lru_ops"
  np_iter :: "(address \<times> annotated_transaction list) list \<Rightarrow> (address \<times> annotated_transaction list) list"
  np_ordering_config :: ordering_config

record 'c node =
  nd_bus :: "choreography_event list"
  nd_position :: "subsystem_id \<Rightarrow> nat"
  nd_stopped :: "subsystem_id list"
  nd_consensus :: consensus_adapter
  nd_index :: "'c transaction_index"
  nd_trie :: state_trie
  nd_buffer :: assembly_buffer
  nd_completing :: "hash option"

definition start_node :: "'c node_ports \<Rightarrow> index_config \<Rightarrow> assembly_config \<Rightarrow> u64 \<Rightarrow> 'c node" where
  "start_node P icfg acfg chain_height =
     \<lparr>nd_bus = [], nd_position = (\<lambda>_. 0), nd_stopped = [],
      nd_consensus = set_initial_chain_height chain_height new_consensus_adapter,
      nd_index = new_index (np_lru P) icfg, nd_trie = new_trie, nd_buffer = new_buffer acfg, nd_completing = None\<rparr>"

definition next_event :: "subsystem_id \<Rightarrow> 'c node \<Rightarrow> choreography_event option" where
  "next_event s n =
     (if s \<notin> set (nd_stopped n) \<and> nd_position n s < length (nd_bus n) then Some (nd_bus n ! nd_position n s) else None)"

definition advance :: "subsystem_id \<Rightarrow> bool \<Rightarrow> 'c node \<Rightarrow> 'c node" where
  "advance s running n =
     n\<lparr>nd_position := (nd_position n)(s := nd_position n s + 1),
       nd_stopped := (if running then nd_stopped n else s # nd_stopped n)\<rparr>"

definition run_consensus :: "u64 \<Rightarrow> choreography_event \<Rightarrow> 'c node \<Rightarrow> 'c node" where
  "run_consensus now e n =
     (case consensus_dispatch now e (nd_consensus n) (nd_bus n) of
        (c, bus, running) \<Rightarrow> advance subsystem_id.Consensus running (n\<lparr>nd_consensus := c, nd_bus := bus\<rparr>))"

definition run_indexing :: "'c node_ports \<Rightarrow> choreography_event \<Rightarrow> 'c node \<Rightarrow> 'c node" where
  "run_indexing P e n =
     (case indexing_dispatch (np_sha3 P) (np_lru P) e (nd_index n) (nd_bus n) of
        (ix, bus, running) \<Rightarrow> advance subsystem_id.TransactionIndexing running (n\<lparr>nd_index := ix, nd_bus := bus\<rparr>))"

definition run_state :: "'c node_ports \<Rightarrow> choreography_event \<Rightarrow> 'c node \<Rightarrow> 'c node" where
  "run_state P e n =
     (case state_dispatch (np_keccak P) e (nd_trie n) (nd_bus n) of
        (t, bus, running) \<Rightarrow> advance subsystem_id.StateManagement running (n\<lparr>nd_trie := t, nd_bus := bus\<rparr>))"

definition run_storage :: "u64 \<Rightarrow> choreography_event \<Rightarrow> 'c node \<Rightarrow> 'c node" where
  "run_storage now e n =
     (case storage_receive now e (nd_buffer n) of
        (b, h) \<Rightarrow> advance subsystem_id.BlockStorage True (n\<lparr>nd_buffer := b, nd_completing := h\<rparr>))"

definition run_completion :: "hash \<Rightarrow> 'c node \<Rightarrow> 'c node" where
  "run_completion h n =
     (case adapter_try_complete h (nd_buffer n) (nd_bus n) of
        (b, bus, r) \<Rightarrow> n\<lparr>nd_buffer := b, nd_bus := bus, nd_completing := None,
          nd_stopped := (if r = Panic then subsystem_id.BlockStorage # nd_stopped n else nd_stopped n)\<rparr>)"

definition run_finality :: "choreography_event \<Rightarrow> 'c node \<Rightarrow> 'c node" where
  "run_finality e n = advance subsystem_id.Finality True (n\<lparr>nd_bus := finality_dispatch e (nd_bus n)\<rparr>)"

definition run_ordering :: "'c node_ports \<Rightarrow> u64 \<Rightarrow> choreography_event \<Rightarrow> 'c node \<Rightarrow> 'c node" where
  "run_ordering P elapsed e n =
     (case ordering_dispatch (np_iter P) (np_ordering_config P) elapsed e (nd_bus n) of
        (bus, running) \<Rightarrow> advance subsystem_id.TransactionOrdering running (n\<lparr>nd_bus := bus\<rparr>))"

definition run_gc :: "u64 \<Rightarrow> 'c node \<Rightarrow> 'c node" where
  "run_gc now n = (case gc_stale_assemblies now (nd_buffer n) (nd_bus n) of (b, bus) \<Rightarrow> n\<lparr>nd_buffer := b, nd_bus := bus\<rparr>)"

text \<open>\<open>st_lag\<close> is a receiver that was overtaken by the channel: it goes on with a later event.\<close>

inductive node_step :: "'c node_ports \<Rightarrow> 'c node \<Rightarrow> 'c node \<Rightarrow> bool" for P where
  st_bridge: "node_step P n (n\<lparr>nd_bus := bridge_block_produced h k d nonce time parent (nd_bus n)\<rparr>)"
| st_genesis: "node_step P n (n\<lparr>nd_bus := fst (router_publish (ChGenesisInitialized h time subsystem_id.BlockStorage) (nd_bus n))\<rparr>)"
| st_consensus: "next_event subsystem_id.Consensus n = Some e \<Longrightarrow> node_step P n (run_consensus now e n)"
| st_indexing: "next_event subsystem_id.TransactionIndexing n = Some e \<Longrightarrow> node_step P n (run_indexing P e n)"
| st_state: "next_event subsystem_id.StateManagement n = Some e \<Longrightarrow> node_step P n (run_state P e n)"
| st_storage: "next_event subsystem_id.BlockStorage n = Some e \<Longrightarrow> nd_completing n = None \<Longrightarrow> node_step P n (run_storage now e n)"
| st_completion: "nd_completing n = Some h \<Longrightarrow> node_step P n (run_completion h n)"
| st_finality: "next_event subsystem_id.Finality n = Some e \<Longrightarrow> node_step P n (run_finality e n)"
| st_ordering: "next_event subsystem_id.TransactionOrdering n = Some e \<Longrightarrow> node_step P n (run_ordering P elapsed e n)"
| st_gc: "node_step P n (run_gc now n)"
| st_lag: "nd_position n s \<le> i \<Longrightarrow> i \<le> length (nd_bus n) \<Longrightarrow> node_step P n (n\<lparr>nd_position := (nd_position n)(s := i)\<rparr>)"

definition node_reachable :: "'c node_ports \<Rightarrow> 'c node \<Rightarrow> bool" where
  "node_reachable P n \<longleftrightarrow> (\<exists>icfg acfg height. (node_step P)\<^sup>*\<^sup>* (start_node P icfg acfg height) n)"

declare map_of_eq_Some_iff [simp del] Some_eq_map_of_iff [simp del]

section \<open>Causes of events\<close>

fun caused :: "choreography_event list \<Rightarrow> choreography_event \<Rightarrow> bool" where
  "caused bus (ChBlockProduced h k d nonce time parent s) \<longleftrightarrow> s = subsystem_id.BlockProduction"
| "caused bus (ChBlockValidated h k s) \<longleftrightarrow> s = subsystem_id.Consensus \<and>
     (\<exists>d nonce time parent. ChBlockProduced h k d nonce time parent subsystem_id.BlockProduction \<in> set bus \<and>
        from_be_bytes d \<noteq> (0 :: u256))"
| "caused bus (ChMerkleRootComputed h root s) \<longleftrightarrow> s = subsystem_id.TransactionIndexing \<and>
     (\<exists>k. ChBlockValidated h k subsystem_id.Consensus \<in> set bus)"
| "caused bus (ChStateRootComputed h root s) \<longleftrightarrow> s = subsystem_id.StateManagement \<and>
     (\<exists>k. ChBlockValidated h k subsystem_id.Consensus \<in> set bus)"
| "caused bus (ChBlockStored h k merkle state s) \<longleftrightarrow> s = subsystem_id.BlockStorage \<and>
     ChBlockValidated h k subsystem_id.Consensus \<in> set bus \<and>
     ChMerkleRootComputed h merkle subsystem_id.TransactionIndexing \<in> set bus \<and>
     ChStateRootComputed h state subsystem_id.StateManagement \<in> set bus"
| "caused bus (ChBlockFinalized h k prf s) \<longleftrightarrow> s = subsystem_id.Finality \<and>
     (\<exists>merkle state. ChBlockStored h k merkle state subsystem_id.BlockStorage \<in> set bus)"
| "caused bus (ChTransactionsOrdered h k groups par s) \<longleftrightarrow> s = subsystem_id.TransactionOrdering \<and>
     ChBlockValidated h k subsystem_id.Consensus \<in> set bus"
| "caused bus (ChAssemblyTimeout h missing s) \<longleftrightarrow> s = subsystem_id.BlockStorage \<and>
     (\<exists>k. ChBlockValidated h k subsystem_id.Consensus \<in> set bus)"
| "caused bus (ChGenesisInitialized h time s) \<longleftrightarrow> s = subsystem_id.BlockStorage"

definition causal :: "choreography_event list \<Rightarrow> bool" where
  "causal bus \<longleftrightarrow> (\<forall>i < length bus. caused (take i bus) (bus ! i))"

lemma causal_Nil [simp]: "causal []"
  by (simp add: causal_def)

lemma causal_snoc [simp]: "causal (bus @ [e]) \<longleftrightarrow> causal bus \<and> caused bus e"
  by (auto simp: causal_def nth_append less_Suc_eq)

lemma caused_mono: "caused bus e \<Longrightarrow> set bus \<subseteq> set bus' \<Longrightarrow> caused bus' e"
  by (cases e) (auto, blast+)

lemma causal_member: "causal bus \<Longrightarrow> e \<in> set bus \<Longrightarrow> caused bus e"
  unfolding causal_def by (metis caused_mono in_set_conv_nth set_take_subset)

text \<open>Publishing through an adapter with the sender its subsystem is expected to have always succeeds.\<close>

lemma router_publish_own [simp]:
  "router_publish (ChBlockProduced h k d nonce time parent subsystem_id.BlockProduction) bus =
     (bus @ [ChBlockProduced h k d nonce time parent subsystem_id.BlockProduction], Ok ())"
  "router_publish (ChBlockFinalized h k prf subsystem_id.Finality) bus = (bus @ [ChBlockFinalized h k prf subsystem_id.Finality], Ok ())"
  "router_publish (ChGenesisInitialized h time subsystem_id.BlockStorage) bus =
     (bus @ [ChGenesisInitialized h time subsystem_id.BlockStorage], Ok ())"
  by (simp_all add: router_publish_def expect_sender_def)

lemma bus_publish_own [simp]:
  "bus_publish subsystem_id.Consensus (ChBlockValidated h k subsystem_id.Consensus) bus =
     (bus @ [ChBlockValidated h k subsystem_id.Consensus], Ok ())"
  "bus_publish subsystem_id.TransactionIndexing (ChMerkleRootComputed h r subsystem_id.TransactionIndexing) bus =
     (bus @ [ChMerkleRootComputed h r subsystem_id.TransactionIndexing], Ok ())"
  "bus_publish subsystem_id.StateManagement (ChStateRootComputed h r subsystem_id.StateManagement) bus =
     (bus @ [ChStateRootComputed h r subsystem_id.StateManagement], Ok ())"
  "bus_publish subsystem_id.BlockStorage (ChBlockStored h k m r subsystem_id.BlockStorage) bus =
     (bus @ [ChBlockStored h k m r subsystem_id.BlockStorage], Ok ())"
  "bus_publish subsystem_id.BlockStorage (ChAssemblyTimeout h missing subsystem_id.BlockStorage) bus =
     (bus @ [ChAssemblyTimeout h missing subsystem_id.BlockStorage], Ok ())"
  "bus_publish subsystem_id.TransactionOrdering (ChTransactionsOrdered h k groups par subsystem_id.TransactionOrdering) bus =
     (bus @ [ChTransactionsOrdered h k groups par subsystem_id.TransactionOrdering], Ok ())"
  by (simp_all add: bus_publish_def router_publish_def expect_sender_def)

section \<open>Assembly buffer and log\<close>

definition entry_caused :: "choreography_event list \<Rightarrow> hash \<Rightarrow> pending_block_assembly \<Rightarrow> bool" where
  "entry_caused bus h a \<longleftrightarrow> (\<exists>k. ChBlockValidated h k subsystem_id.Consensus \<in> set bus) \<and>
     (pa_validated_block a \<noteq> None \<longrightarrow> ChBlockValidated h (pa_block_height a) subsystem_id.Consensus \<in> set bus) \<and>
     (\<forall>r. pa_merkle_root a = Some r \<longrightarrow> ChMerkleRootComputed h r subsystem_id.TransactionIndexing \<in> set bus) \<and>
     (\<forall>r. pa_state_root a = Some r \<longrightarrow> ChStateRootComputed h r subsystem_id.StateManagement \<in> set bus)"

definition buffer_caused :: "choreography_event list \<Rightarrow> assembly_buffer \<Rightarrow> bool" where
  "buffer_caused bus b \<longleftrightarrow> (\<forall>h a. map_of (ab_pending b) h = Some a \<longrightarrow> entry_caused bus h a)"

lemma buffer_caused_mono: "buffer_caused bus b \<Longrightarrow> buffer_caused (bus @ es) b"
  unfolding buffer_caused_def entry_caused_def by fastforce

lemma map_of_fold_delete: "map_of (fold AList.delete hs xs) h = Some a \<Longrightarrow> map_of xs h = Some a"
  by (induction hs arbitrary: xs) (simp, fastforce simp: delete_conv' split: if_splits)

lemma buffer_caused_remove: "buffer_caused bus b \<Longrightarrow> buffer_caused bus (remove_all hs b)"
  by (auto simp: buffer_caused_def remove_all_def dest: map_of_fold_delete)

lemma buffer_caused_enforce: "buffer_caused bus b \<Longrightarrow> buffer_caused bus (fst (enforce_max_pending b))"
  by (simp add: enforce_max_pending_def Let_def buffer_caused_remove)

lemma buffer_caused_take: "buffer_caused bus b \<Longrightarrow> buffer_caused bus (fst (take_complete h b))"
  by (auto simp: buffer_caused_def take_complete_def delete_conv' split: if_splits)

lemma buffer_caused_add:
  assumes "buffer_caused bus b"
  shows "ChBlockValidated h (bh_height (vb_header block)) subsystem_id.Consensus \<in> set bus \<Longrightarrow>
      buffer_caused bus (add_block_validated h block now b)"
    and "caused bus (ChMerkleRootComputed h r subsystem_id.TransactionIndexing) \<Longrightarrow>
      ChMerkleRootComputed h r subsystem_id.TransactionIndexing \<in> set bus \<Longrightarrow> buffer_caused bus (add_merkle_root h r now b)"
    and "caused bus (ChStateRootComputed h r subsystem_id.StateManagement) \<Longrightarrow>
      ChStateRootComputed h r subsystem_id.StateManagement \<in> set bus \<Longrightarrow> buffer_caused bus (add_state_root h r now b)"
  using assms
  by (auto simp: buffer_caused_def entry_caused_def add_block_validated_def add_merkle_root_def add_state_root_def
      pending_entry_def new_pending_def update_conv' split: if_splits option.splits)

lemma buffer_caused_receive:
  assumes "buffer_caused bus b" "causal bus" "e \<in> set bus"
  shows "buffer_caused bus (fst (storage_receive now e b))"
  using buffer_caused_add [OF assms(1)] buffer_caused_add(1) [OF buffer_caused_enforce [OF assms(1)]] causal_member [OF assms(2,3)] assms
  by (cases e) (auto simp: storage_receive_def adapter_block_validated_def placeholder_block_def)

lemma publish_timeouts_causal:
  assumes "causal bus" "\<And>h a. (h, a) \<in> set expired \<Longrightarrow> \<exists>k. ChBlockValidated h k subsystem_id.Consensus \<in> set bus"
  shows "causal (publish_timeouts expired bus) \<and> (\<exists>es. publish_timeouts expired bus = bus @ es \<and>
    (\<forall>e \<in> set es. \<exists>h missing. e = ChAssemblyTimeout h missing subsystem_id.BlockStorage))"
  using assms
proof (induction expired arbitrary: bus)
  case Nil
  then show ?case by (simp add: publish_timeouts_def)
next
  case (Cons x xs)
  obtain h a where x: "x = (h, a)" by fastforce
  define e where "e = ChAssemblyTimeout h (get_missing_components a) subsystem_id.BlockStorage"
  have "causal (bus @ [e])" using Cons.prems by (auto simp: e_def x)
  moreover have "\<exists>k. ChBlockValidated h' k subsystem_id.Consensus \<in> set (bus @ [e])" if "(h', a') \<in> set xs" for h' a'
    using Cons.prems(2) [of h' a'] that by auto
  ultimately have "causal (publish_timeouts xs (bus @ [e])) \<and> (\<exists>es. publish_timeouts xs (bus @ [e]) = (bus @ [e]) @ es \<and>
    (\<forall>e \<in> set es. \<exists>h missing. e = ChAssemblyTimeout h missing subsystem_id.BlockStorage))" by (rule Cons.IH)
  moreover have "publish_timeouts (x # xs) bus = publish_timeouts xs (bus @ [e])" by (simp add: publish_timeouts_def x e_def)
  ultimately show ?case by (auto simp: e_def)
qed

section \<open>What a handler relies on and guarantees\<close>

text \<open>
  The contract of the handlers: \<open>own\<close> are the events a handler publishes and \<open>J\<close> relates its state to the log. It
  relies on the others to publish no event of its own, and on a log without effects before their causes. In return
  it extends the log by events of its own, keeps the log causal and keeps \<open>J\<close>.
\<close>

locale bus_handler =
  fixes handle :: "choreography_event \<Rightarrow> 's \<Rightarrow> choreography_event list \<Rightarrow> 's \<times> choreography_event list \<times> bool"
    and own :: "choreography_event \<Rightarrow> bool"
    and J :: "choreography_event list \<Rightarrow> 's \<Rightarrow> bool"
  assumes rely: "J bus s \<Longrightarrow> \<forall>e \<in> set es. \<not> own e \<Longrightarrow> J (bus @ es) s"
    and guarantee: "J bus s \<Longrightarrow> causal bus \<Longrightarrow> e \<in> set bus \<Longrightarrow> handle e s bus = (s', bus', running) \<Longrightarrow>
      \<exists>es. bus' = bus @ es \<and> (\<forall>e' \<in> set es. own e') \<and> causal (bus @ es) \<and> J (bus @ es) s'"
begin

lemma handle_guarantee:
  assumes "J bus s" "causal bus" "e \<in> set bus"
  obtains s' es running where "handle e s bus = (s', bus @ es, running)" "\<forall>e' \<in> set es. own e'" "causal (bus @ es)" "J (bus @ es) s'"
  using guarantee [OF assms] by (cases "handle e s bus") blast

end

fun validated_hashes :: "choreography_event list \<Rightarrow> hash list" where
  "validated_hashes [] = []"
| "validated_hashes (ChBlockValidated h k s # es) = h # validated_hashes es"
| "validated_hashes (e # es) = validated_hashes es"

fun is_validated_event :: "choreography_event \<Rightarrow> bool" where
  "is_validated_event (ChBlockValidated _ _ _) = True"
| "is_validated_event _ = False"

lemma validated_hashes_append [simp]: "validated_hashes (xs @ ys) = validated_hashes xs @ validated_hashes ys"
  by (induction xs rule: validated_hashes.induct) simp_all

lemma validated_hashes_none: "\<forall>e \<in> set es. \<not> is_validated_event e \<Longrightarrow> validated_hashes es = []"
  by (induction es rule: validated_hashes.induct) auto

definition cache_tracks :: "choreography_event list \<Rightarrow> consensus_adapter \<Rightarrow> bool" where
  "cache_tracks bus c \<longleftrightarrow> cad_validator c = default_block_validation_config \<and>
     (length (validated_hashes bus) \<le> 1000 \<longrightarrow> distinct (validated_hashes bus) \<and>
        distinct (cad_validated_blocks c) \<and> set (cad_validated_blocks c) = set (validated_hashes bus))"

lemma cache_tracks_update:
  assumes "cache_tracks bus c" "h \<notin> set (cad_validated_blocks c)"
  shows "cache_tracks (bus @ [ChBlockValidated h k subsystem_id.Consensus]) (update_validated_blocks_cache h c)"
proof (cases "length (validated_hashes bus) < 1000")
  case True
  then have c: "distinct (validated_hashes bus)" "distinct (cad_validated_blocks c)" "set (cad_validated_blocks c) = set (validated_hashes bus)"
    using assms by (auto simp: cache_tracks_def)
  then have "length (cad_validated_blocks c) = length (validated_hashes bus)" by (metis distinct_card)
  then show ?thesis using True assms c
    by (auto simp: cache_tracks_def update_validated_blocks_cache_def should_evict_cache_def default_block_validation_config_def
        List.insert_def Let_def)
next
  case False
  then show ?thesis using assms by (auto simp: cache_tracks_def update_validated_blocks_cache_def Let_def)
qed

lemma process_block_produced_cases:
  "process_block_produced now p c bus = (c', bus', r) \<Longrightarrow>
     c' = c \<and> bus' = bus \<or>
     vpar_block_hash p \<notin> set (cad_validated_blocks c) \<and> from_be_bytes (vpar_difficulty p) \<noteq> (0 :: u256) \<and> r = Ok () \<and>
     c' = update_validated_blocks_cache (vpar_block_hash p) c \<and>
     bus' = bus @ [ChBlockValidated (vpar_block_hash p) (vpar_block_height p) subsystem_id.Consensus]"
  using block_valid_iff [of "cad_validator c" p "cad_chain_height c" now "cad_validated_blocks c"]
  by (auto simp: process_block_produced_def publish_block_validated_def split: outcome.splits)

interpretation con: bus_handler "consensus_dispatch now" is_validated_event cache_tracks
proof
  fix bus s es assume "cache_tracks bus s" "\<forall>e \<in> set es. \<not> is_validated_event e"
  then show "cache_tracks (bus @ es) s" by (simp add: cache_tracks_def validated_hashes_none)
next
  fix bus s e s' bus' running
  assume J: "cache_tracks bus s" and bus: "causal bus" "e \<in> set bus" and d: "consensus_dispatch now e s bus = (s', bus', running)"
  have stored: "cache_tracks bus (adapter_block_stored k s)" for k using J by (simp add: adapter_block_stored_def cache_tracks_def)
  show "\<exists>es. bus' = bus @ es \<and> (\<forall>e' \<in> set es. is_validated_event e') \<and> causal (bus @ es) \<and> cache_tracks (bus @ es) s'"
  proof (cases "\<exists>h k dif nonce time parent. e = ChBlockProduced h k dif nonce time parent subsystem_id.BlockProduction")
    case True
    then obtain h k dif nonce time parent where e: "e = ChBlockProduced h k dif nonce time parent subsystem_id.BlockProduction" by blast
    let ?p = "\<lparr>vpar_block_hash = h, vpar_block_height = k, vpar_difficulty = dif, vpar_nonce = nonce, vpar_timestamp = time, vpar_parent_hash = parent\<rparr>"
    obtain r where "process_block_produced now ?p s bus = (s', bus', r)"
      using d by (auto simp: consensus_dispatch_def e split: prod.splits)
    from process_block_produced_cases [OF this] consider "s' = s" "bus' = bus"
      | "h \<notin> set (cad_validated_blocks s)" "from_be_bytes dif \<noteq> (0 :: u256)" "s' = update_validated_blocks_cache h s"
        "bus' = bus @ [ChBlockValidated h k subsystem_id.Consensus]" by auto
    then show ?thesis
    proof cases
      case 1
      then show ?thesis using J bus by simp
    next
      case 2
      then show ?thesis using bus cache_tracks_update [OF J 2(1)] unfolding e by (intro exI [of _ "[ChBlockValidated h k subsystem_id.Consensus]"]) auto
    qed
  next
    case False
    then have "bus' = bus \<and> cache_tracks bus s'" using d J stored
      by (cases e) (auto simp: consensus_dispatch_def split: if_splits)
    then show ?thesis using bus by simp
  qed
qed

fun is_merkle_event :: "choreography_event \<Rightarrow> bool" where
  "is_merkle_event (ChMerkleRootComputed _ r _) \<longleftrightarrow> r = SENTINEL_HASH"
| "is_merkle_event _ = False"

fun is_state_event :: "choreography_event \<Rightarrow> bool" where
  "is_state_event (ChStateRootComputed _ r _) \<longleftrightarrow> r = EMPTY_TRIE_ROOT"
| "is_state_event _ = False"

interpretation ind: bus_handler "indexing_dispatch sha3 ops" is_merkle_event "\<lambda>_ _. True"
proof
  fix bus s e s' bus' running
  assume "causal bus" "e \<in> set bus" "indexing_dispatch sha3 ops e s bus = (s', bus', running)"
  then show "\<exists>es. bus' = bus @ es \<and> (\<forall>e' \<in> set es. is_merkle_event e') \<and> causal (bus @ es) \<and> True"
    by (cases e) (auto simp: indexing_dispatch_def index_block_validated_def merkle_build_def Let_def split: if_splits)
qed simp

interpretation sta: bus_handler "state_dispatch kec" is_state_event "\<lambda>_ t. t = new_trie"
proof
  fix bus t e t' bus' running
  assume "t = new_trie" "causal bus" "e \<in> set bus" "state_dispatch kec e t bus = (t', bus', running)"
  then show "\<exists>es. bus' = bus @ es \<and> (\<forall>e' \<in> set es. is_state_event e') \<and> causal (bus @ es) \<and> t' = new_trie"
    by (cases e) (auto simp: state_dispatch_def state_block_validated_def new_trie_def trie_with_config_def split: if_splits)
qed simp

fun is_storage_event :: "choreography_event \<Rightarrow> bool" where
  "is_storage_event (ChBlockStored _ _ _ _ _) = True"
| "is_storage_event (ChAssemblyTimeout _ _ _) = True"
| "is_storage_event _ = False"

interpretation rec: bus_handler "\<lambda>e b bus. (fst (storage_receive now e b), bus, True)" is_storage_event buffer_caused
  by unfold_locales (auto intro: buffer_caused_mono buffer_caused_receive)

lemma adapter_complete_cases:
  assumes "buffer_caused bus b" "adapter_try_complete h b bus = (b', bus', r)"
  shows "b' = fst (take_complete h b) \<and> r = Ok () \<and> (bus' = bus \<or>
    (\<exists>a m s. map_of (ab_pending b) h = Some a \<and> pa_is_complete a \<and> pa_merkle_root a = Some m \<and> pa_state_root a = Some s \<and>
       bus' = bus @ [ChBlockStored h (pa_block_height a) m s subsystem_id.BlockStorage]))"
  using assms(2)
  by (auto simp: adapter_try_complete_def take_complete_def is_complete_def pa_is_complete_def split: if_splits option.splits)

interpretation cpl: bus_handler "\<lambda>e b bus. case adapter_try_complete h b bus of (b', bus', r) \<Rightarrow> (b', bus', r \<noteq> Panic)" is_storage_event buffer_caused
proof
  fix bus b e b' bus' running
  assume J: "buffer_caused bus b" and bus: "causal bus"
    and d: "(case adapter_try_complete h b bus of (b', bus', r) \<Rightarrow> (b', bus', r \<noteq> Panic)) = (b', bus', running)"
  obtain r where "adapter_try_complete h b bus = (b', bus', r)" using d by (auto split: prod.splits)
  from adapter_complete_cases [OF J this] show "\<exists>es. bus' = bus @ es \<and> (\<forall>e' \<in> set es. is_storage_event e') \<and> causal (bus @ es) \<and> buffer_caused (bus @ es) b'"
  proof (elim conjE disjE exE)
    assume "b' = fst (take_complete h b)" "bus' = bus"
    then show ?thesis using bus buffer_caused_take [OF J] by simp
  next
    fix a m s assume a: "b' = fst (take_complete h b)" "map_of (ab_pending b) h = Some a" "pa_is_complete a" "pa_merkle_root a = Some m"
      "pa_state_root a = Some s" "bus' = bus @ [ChBlockStored h (pa_block_height a) m s subsystem_id.BlockStorage]"
    then have "caused bus (ChBlockStored h (pa_block_height a) m s subsystem_id.BlockStorage)"
      using J by (auto simp: buffer_caused_def entry_caused_def pa_is_complete_def)
    then show ?thesis using a(1,6) bus buffer_caused_mono [OF buffer_caused_take [OF J]] by (intro exI [of _ "[_]"]) auto
  qed
qed (auto intro: buffer_caused_mono)

lemma expired_in_buffer: "(h, a) \<in> set (snd (gc_expired_with_data now b)) \<Longrightarrow> map_of (ab_pending b) h \<noteq> None"
  by (auto simp: gc_expired_with_data_def expired_hashes_def Let_def map_of_eq_None_iff intro!: image_eqI)

interpretation gcs: bus_handler "\<lambda>e b bus. case gc_stale_assemblies now b bus of (b', bus') \<Rightarrow> (b', bus', True)" is_storage_event buffer_caused
proof
  fix bus b e b' bus' running
  assume J: "buffer_caused bus b" and bus: "causal bus"
    and d: "(case gc_stale_assemblies now b bus of (b', bus') \<Rightarrow> (b', bus', True)) = (b', bus', running)"
  have b: "b' = remove_all (expired_hashes now b) b" "bus' = publish_timeouts (snd (gc_expired_with_data now b)) bus"
    using d by (auto simp: gc_stale_assemblies_def gc_expired_with_data_def Let_def)
  have seen: "\<exists>k. ChBlockValidated h k subsystem_id.Consensus \<in> set bus" if "(h, a) \<in> set (snd (gc_expired_with_data now b))" for h a
    using expired_in_buffer [OF that] J by (auto simp: buffer_caused_def entry_caused_def)
  have "causal bus' \<and> (\<exists>es. bus' = bus @ es \<and> (\<forall>e \<in> set es. \<exists>h missing. e = ChAssemblyTimeout h missing subsystem_id.BlockStorage))"
    unfolding b(2) using bus seen by (rule publish_timeouts_causal)
  then obtain es where es: "causal bus'" "bus' = bus @ es" "\<forall>e \<in> set es. \<exists>h missing. e = ChAssemblyTimeout h missing subsystem_id.BlockStorage"
    by blast
  have "\<forall>e \<in> set es. is_storage_event e" using es(3) by auto
  then show "\<exists>es. bus' = bus @ es \<and> (\<forall>e' \<in> set es. is_storage_event e') \<and> causal (bus @ es) \<and> buffer_caused (bus @ es) b'"
    using es(1,2) buffer_caused_mono [OF buffer_caused_remove [OF J]] unfolding b(1) by (intro exI [of _ es]) simp
qed (auto intro: buffer_caused_mono)

section \<open>Invariant of the node\<close>

fun empty_roots :: "choreography_event \<Rightarrow> bool" where
  "empty_roots (ChMerkleRootComputed _ r _) \<longleftrightarrow> r = SENTINEL_HASH"
| "empty_roots (ChStateRootComputed _ r _) \<longleftrightarrow> r = EMPTY_TRIE_ROOT"
| "empty_roots _ = True"

lemma empty_roots_own:
  "is_validated_event e \<Longrightarrow> empty_roots e" "is_merkle_event e \<Longrightarrow> empty_roots e" "is_state_event e \<Longrightarrow> empty_roots e"
  "is_storage_event e \<Longrightarrow> empty_roots e"
  by (cases e; simp)+

lemma not_validated_own:
  "is_merkle_event e \<Longrightarrow> \<not> is_validated_event e" "is_state_event e \<Longrightarrow> \<not> is_validated_event e"
  "is_storage_event e \<Longrightarrow> \<not> is_validated_event e"
  by (cases e; simp)+

definition node_inv :: "'c node \<Rightarrow> bool" where
  "node_inv n \<longleftrightarrow> causal (nd_bus n) \<and> (\<forall>e \<in> set (nd_bus n). empty_roots e) \<and> cache_tracks (nd_bus n) (nd_consensus n) \<and>
     nd_trie n = new_trie \<and> buffer_caused (nd_bus n) (nd_buffer n)"

text \<open>A step that extends the log by events of other subsystems than consensus keeps what consensus and storage rely on.\<close>

lemma node_inv_extend:
  assumes "node_inv n" "causal (nd_bus n @ es)" "\<forall>e \<in> set es. empty_roots e \<and> \<not> is_validated_event e"
  shows "causal (nd_bus n @ es)" "\<forall>e \<in> set (nd_bus n @ es). empty_roots e" "cache_tracks (nd_bus n @ es) (nd_consensus n)"
    "buffer_caused (nd_bus n @ es) (nd_buffer n)" "nd_trie n = new_trie"
  using assms con.rely [of "nd_bus n" "nd_consensus n" es] buffer_caused_mono [of "nd_bus n" "nd_buffer n" es]
  by (auto simp: node_inv_def)

lemma advance_simps [simp]:
  "nd_bus (advance s r n) = nd_bus n" "nd_consensus (advance s r n) = nd_consensus n" "nd_index (advance s r n) = nd_index n"
  "nd_trie (advance s r n) = nd_trie n" "nd_buffer (advance s r n) = nd_buffer n" "nd_completing (advance s r n) = nd_completing n"
  "nd_position (advance s r n) = (nd_position n)(s := nd_position n s + 1)"
  "nd_stopped (advance s r n) = (if r then nd_stopped n else s # nd_stopped n)"
  by (simp_all add: advance_def)

lemma next_event_member: "next_event s n = Some e \<Longrightarrow> e \<in> set (nd_bus n)"
  by (auto simp: next_event_def split: if_splits)

lemma publish_other_inv:
  assumes n: "node_inv n" and e: "caused (nd_bus n) e" "empty_roots e" "\<not> is_validated_event e"
  shows "node_inv (n\<lparr>nd_bus := nd_bus n @ [e]\<rparr>)"
proof -
  have c: "causal (nd_bus n @ [e])" using n e by (simp add: node_inv_def)
  have r: "\<forall>e \<in> set [e]. empty_roots e \<and> \<not> is_validated_event e" using e by simp
  show ?thesis using node_inv_extend [OF n c r] by (simp add: node_inv_def)
qed

lemma run_consensus_inv:
  assumes n: "node_inv n" and e: "e \<in> set (nd_bus n)"
  shows "node_inv (run_consensus now e n)"
proof (rule con.handle_guarantee [of "nd_bus n" "nd_consensus n" e now])
  fix c es running
  assume h: "consensus_dispatch now e (nd_consensus n) (nd_bus n) = (c, nd_bus n @ es, running)"
    "\<forall>e' \<in> set es. is_validated_event e'" "causal (nd_bus n @ es)" "cache_tracks (nd_bus n @ es) c"
  then have "\<forall>e \<in> set (nd_bus n @ es). empty_roots e" using n by (auto simp: node_inv_def empty_roots_own)
  then show ?thesis using n h buffer_caused_mono [of "nd_bus n" "nd_buffer n" es] by (simp add: run_consensus_def node_inv_def)
qed (use n e in \<open>auto simp: node_inv_def\<close>)

lemma run_indexing_inv:
  assumes n: "node_inv n" and e: "e \<in> set (nd_bus n)"
  shows "node_inv (run_indexing P e n)"
proof (rule ind.handle_guarantee [of "nd_bus n" e "np_sha3 P" "np_lru P" "nd_index n"])
  fix s' es running
  assume h: "indexing_dispatch (np_sha3 P) (np_lru P) e (nd_index n) (nd_bus n) = (s', nd_bus n @ es, running)"
    "\<forall>e' \<in> set es. is_merkle_event e'" "causal (nd_bus n @ es)"
  then have "\<forall>e \<in> set es. empty_roots e \<and> \<not> is_validated_event e" by (auto simp: empty_roots_own not_validated_own)
  from node_inv_extend [OF n h(3) this] show ?thesis by (simp add: run_indexing_def h(1) node_inv_def)
qed (use n e in \<open>auto simp: node_inv_def\<close>)

lemma run_state_inv:
  assumes n: "node_inv n" and e: "e \<in> set (nd_bus n)"
  shows "node_inv (run_state P e n)"
proof (rule sta.handle_guarantee [of "nd_trie n" "nd_bus n" e "np_keccak P"])
  fix t' es running
  assume h: "state_dispatch (np_keccak P) e (nd_trie n) (nd_bus n) = (t', nd_bus n @ es, running)"
    "\<forall>e' \<in> set es. is_state_event e'" "causal (nd_bus n @ es)" "t' = new_trie"
  then have "\<forall>e \<in> set es. empty_roots e \<and> \<not> is_validated_event e" by (auto simp: empty_roots_own not_validated_own)
  from node_inv_extend [OF n h(3) this] show ?thesis unfolding run_state_def h(1) by (simp add: h(4) node_inv_def)
qed (use n e in \<open>auto simp: node_inv_def\<close>)

lemma run_storage_inv: "node_inv n \<Longrightarrow> e \<in> set (nd_bus n) \<Longrightarrow> node_inv (run_storage now e n)"
  using buffer_caused_receive [of "nd_bus n" "nd_buffer n" e now]
  by (auto simp: node_inv_def run_storage_def split: prod.splits)

lemma storage_extend_inv:
  assumes "node_inv n" "\<forall>e \<in> set es. is_storage_event e" "causal (nd_bus n @ es)" "buffer_caused (nd_bus n @ es) b"
    "nd_bus n' = nd_bus n @ es" "nd_buffer n' = b" "nd_consensus n' = nd_consensus n" "nd_trie n' = nd_trie n"
  shows "node_inv n'"
proof -
  have "\<forall>e \<in> set es. empty_roots e \<and> \<not> is_validated_event e" using assms(2) by (auto simp: empty_roots_own not_validated_own)
  from node_inv_extend [OF assms(1,3) this] show ?thesis using assms(4-) by (simp add: node_inv_def)
qed

lemma run_completion_inv:
  assumes n: "node_inv n"
  shows "node_inv (run_completion h n)"
proof -
  obtain b bus r where d: "adapter_try_complete h (nd_buffer n) (nd_bus n) = (b, bus, r)" by (metis prod_cases3)
  show ?thesis
  proof (cases "nd_bus n")
    case Nil
    then have "nd_buffer n = nd_buffer n" "\<forall>h. map_of (ab_pending (nd_buffer n)) h = None"
      using n by (auto simp: node_inv_def buffer_caused_def entry_caused_def)
    then have "take_complete h (nd_buffer n) = (nd_buffer n, None)" by (simp add: take_complete_def is_complete_def)
    then have "b = nd_buffer n" "bus = nd_bus n" using d by (auto simp: adapter_try_complete_def)
    then show ?thesis using n d by (simp add: run_completion_def node_inv_def)
  next
    case (Cons e0 bs)
    then have "e0 \<in> set (nd_bus n)" by simp
    moreover have "buffer_caused (nd_bus n) (nd_buffer n)" "causal (nd_bus n)" using n by (auto simp: node_inv_def)
    ultimately obtain es where "bus = nd_bus n @ es" "\<forall>e' \<in> set es. is_storage_event e'" "causal (nd_bus n @ es)" "buffer_caused (nd_bus n @ es) b"
      using cpl.guarantee [of "nd_bus n" "nd_buffer n" e0 h b bus "r \<noteq> Panic"] d by auto
    then show ?thesis using d by (intro storage_extend_inv [OF n, of es b]) (simp_all add: run_completion_def)
  qed
qed

lemma run_gc_inv:
  assumes n: "node_inv n"
  shows "node_inv (run_gc now n)"
proof (cases "nd_bus n")
  case Nil
  then have "\<forall>h. map_of (ab_pending (nd_buffer n)) h = None" using n by (auto simp: node_inv_def buffer_caused_def entry_caused_def)
  then have "ab_pending (nd_buffer n) = []" by (cases "ab_pending (nd_buffer n)") (auto split: if_splits)
  then show ?thesis using n by (simp add: run_gc_def gc_stale_assemblies_def gc_expired_with_data_def expired_hashes_def remove_all_def
      publish_timeouts_def node_inv_def buffer_caused_def)
next
  case (Cons e0 bs)
  obtain b bus where d: "gc_stale_assemblies now (nd_buffer n) (nd_bus n) = (b, bus)" by fastforce
  have "e0 \<in> set (nd_bus n)" "buffer_caused (nd_bus n) (nd_buffer n)" "causal (nd_bus n)" using n Cons by (auto simp: node_inv_def)
  then obtain es where "bus = nd_bus n @ es" "\<forall>e' \<in> set es. is_storage_event e'" "causal (nd_bus n @ es)" "buffer_caused (nd_bus n @ es) b"
    using gcs.guarantee [of "nd_bus n" "nd_buffer n" e0 now b bus True] d by auto
  then show ?thesis using d by (intro storage_extend_inv [OF n, of es b]) (simp_all add: run_gc_def)
qed

lemma run_finality_inv:
  assumes "node_inv n" "e \<in> set (nd_bus n)"
  shows "node_inv (run_finality e n)"
proof (cases "finality_dispatch e (nd_bus n) = nd_bus n")
  case True
  then show ?thesis using assms by (simp add: run_finality_def node_inv_def)
next
  case False
  then obtain h k m r where e: "e = ChBlockStored h k m r subsystem_id.BlockStorage"
    "finality_dispatch e (nd_bus n) = nd_bus n @ [ChBlockFinalized h k [] subsystem_id.Finality]"
    by (cases e) (auto simp: finality_dispatch_def finality_block_stored_def split: if_splits)
  then show ?thesis using publish_other_inv [OF assms(1), of "ChBlockFinalized h k [] subsystem_id.Finality"] assms(2)
    by (auto simp: run_finality_def node_inv_def)
qed

lemma run_ordering_inv:
  assumes "node_inv n" "e \<in> set (nd_bus n)"
  shows "node_inv (run_ordering P elapsed e n)"
proof -
  obtain bus running where d: "ordering_dispatch (np_iter P) (np_ordering_config P) elapsed e (nd_bus n) = (bus, running)" by fastforce
  then have "bus = nd_bus n \<or> (\<exists>h k groups par. e = ChBlockValidated h k subsystem_id.Consensus \<and>
      bus = nd_bus n @ [ChTransactionsOrdered h k groups par subsystem_id.TransactionOrdering])"
    by (cases e) (auto simp: ordering_dispatch_def process_order_transactions_def split: if_splits option.splits)
  then show ?thesis
  proof (elim disjE exE conjE)
    assume "bus = nd_bus n"
    then show ?thesis using assms d by (simp add: run_ordering_def node_inv_def)
  next
    fix h k groups par
    assume "e = ChBlockValidated h k subsystem_id.Consensus" "bus = nd_bus n @ [ChTransactionsOrdered h k groups par subsystem_id.TransactionOrdering]"
    then show ?thesis using assms d publish_other_inv [OF assms(1), of "ChTransactionsOrdered h k groups par subsystem_id.TransactionOrdering"]
      by (auto simp: run_ordering_def node_inv_def)
  qed
qed

lemma node_step_inv: "node_step P n n' \<Longrightarrow> node_inv n \<Longrightarrow> node_inv n'"
proof (induction rule: node_step.induct)
  case (st_bridge n h k d nonce time parent)
  then show ?case by (simp add: bridge_block_produced_def publish_other_inv)
next
  case (st_genesis n h time)
  then show ?case by (simp add: publish_other_inv)
next
  case (st_lag n s i)
  then show ?case by (simp add: node_inv_def)
qed (blast intro: run_consensus_inv run_indexing_inv run_state_inv run_storage_inv run_completion_inv run_finality_inv run_ordering_inv
      run_gc_inv next_event_member)+

lemma start_node_inv: "node_inv (start_node P icfg acfg height)"
  by (simp add: node_inv_def start_node_def cache_tracks_def buffer_caused_def new_buffer_def set_initial_chain_height_def
      new_consensus_adapter_def)

lemma node_reachable_inv: "node_reachable P n \<Longrightarrow> node_inv n"
proof -
  have "(node_step P)\<^sup>*\<^sup>* n0 n \<Longrightarrow> node_inv n0 \<Longrightarrow> node_inv n" for n0
    by (induction rule: rtranclp_induct) (auto intro: node_step_inv)
  then show "node_reachable P n \<Longrightarrow> node_inv n" unfolding node_reachable_def using start_node_inv by blast
qed

section \<open>Delivering a produced block\<close>

definition storage_deliver :: "u64 \<Rightarrow> choreography_event \<Rightarrow> 'c node \<Rightarrow> 'c node" where
  "storage_deliver now e n =
     (let n1 = run_storage now e n in case nd_completing n1 of None \<Rightarrow> n1 | Some h \<Rightarrow> run_completion h n1)"

lemma storage_deliver_steps:
  assumes "next_event subsystem_id.BlockStorage n = Some e" "nd_completing n = None"
  shows "(node_step P)\<^sup>*\<^sup>* n (storage_deliver now e n)"
proof -
  have "node_step P n (run_storage now e n)" using assms by (rule st_storage)
  then show ?thesis using st_completion [of "run_storage now e n" _ P]
    by (auto simp: storage_deliver_def Let_def split: option.split intro: rtranclp.rtrancl_into_rtrancl)
qed

lemma next_event_at:
  "nd_bus n = bus @ e # es \<Longrightarrow> nd_position n s = length bus \<Longrightarrow> s \<notin> set (nd_stopped n) \<Longrightarrow> next_event s n = Some e"
  by (simp add: next_event_def)

text \<open>A handler that has no use for an event only moves on.\<close>

definition skips :: "subsystem_id \<Rightarrow> choreography_event \<Rightarrow> bool" where
  "skips s e \<longleftrightarrow>
     (case e of
        ChBlockProduced _ _ _ _ _ _ _ \<Rightarrow> s \<noteq> subsystem_id.Consensus
      | ChBlockValidated _ _ _ \<Rightarrow> s \<in> {subsystem_id.Consensus, subsystem_id.Finality}
      | ChMerkleRootComputed _ _ _ \<Rightarrow> s \<noteq> subsystem_id.BlockStorage
      | ChStateRootComputed _ _ _ \<Rightarrow> s \<noteq> subsystem_id.BlockStorage
      | _ \<Rightarrow> False) \<and>
     s \<in> {subsystem_id.Consensus, subsystem_id.TransactionIndexing, subsystem_id.StateManagement, subsystem_id.BlockStorage, subsystem_id.Finality}"

lemma skip_step:
  assumes "next_event s n = Some e" "skips s e" "nd_completing n = None"
  shows "node_step P n (n\<lparr>nd_position := (nd_position n)(s := nd_position n s + 1)\<rparr>)"
proof -
  let ?n = "n\<lparr>nd_position := (nd_position n)(s := nd_position n s + 1)\<rparr>"
  from assms(2) consider "s = subsystem_id.Consensus" | "s = subsystem_id.TransactionIndexing" | "s = subsystem_id.StateManagement"
    | "s = subsystem_id.BlockStorage" | "s = subsystem_id.Finality" by (auto simp: skips_def)
  then show ?thesis
  proof cases
    case 1
    then have "run_consensus 0 e n = ?n" using assms(2) by (cases e) (auto simp: skips_def run_consensus_def consensus_dispatch_def advance_def)
    then show ?thesis using st_consensus [of n e P 0] assms(1) 1 by simp
  next
    case 2
    then have "run_indexing P e n = ?n" using assms(2) by (cases e) (auto simp: skips_def run_indexing_def indexing_dispatch_def advance_def)
    then show ?thesis using st_indexing [of n e P] assms(1) 2 by simp
  next
    case 3
    then have "run_state P e n = ?n" using assms(2) by (cases e) (auto simp: skips_def run_state_def state_dispatch_def advance_def)
    then show ?thesis using st_state [of n e P] assms(1) 3 by simp
  next
    case 4
    then have "run_storage 0 e n = ?n" using assms(2,3) by (cases e) (auto simp: skips_def run_storage_def storage_receive_def advance_def)
    then show ?thesis using st_storage [of n e P 0] assms(1,3) 4 by simp
  next
    case 5
    then have "run_finality e n = ?n" using assms(2) by (cases e) (auto simp: skips_def run_finality_def finality_dispatch_def advance_def)
    then show ?thesis using st_finality [of n e P] assms(1) 5 by simp
  qed
qed

lemma skip_steps:
  assumes "nd_bus n = bus @ es @ rest" "nd_position n s = length bus" "s \<notin> set (nd_stopped n)" "\<forall>e \<in> set es. skips s e" "nd_completing n = None"
  shows "(node_step P)\<^sup>*\<^sup>* n (n\<lparr>nd_position := (nd_position n)(s := length bus + length es)\<rparr>)"
  using assms
proof (induction es arbitrary: n bus)
  case Nil
  then have "(nd_position n)(s := length bus) = nd_position n" by auto
  then show ?case by simp
next
  case (Cons e es)
  let ?n = "n\<lparr>nd_position := (nd_position n)(s := nd_position n s + 1)\<rparr>"
  have "next_event s n = Some e" using Cons.prems by (intro next_event_at) simp_all
  moreover have "skips s e" "nd_completing n = None" using Cons.prems by auto
  ultimately have "node_step P n ?n" by (rule skip_step)
  moreover have "(node_step P)\<^sup>*\<^sup>* ?n (?n\<lparr>nd_position := (nd_position ?n)(s := length (bus @ [e]) + length es)\<rparr>)"
    by (rule Cons.IH [of ?n "bus @ [e]"]) (use Cons.prems in simp_all)
  ultimately have "(node_step P)\<^sup>*\<^sup>* n (?n\<lparr>nd_position := (nd_position ?n)(s := length (bus @ [e]) + length es)\<rparr>)"
    by (rule converse_rtranclp_into_rtranclp)
  then show ?case by (simp add: fun_upd_def cong: if_cong)
qed

text \<open>What storage makes of the three components of a block it has not seen.\<close>

lemma fold_delete_None: "map_of xs h = None \<Longrightarrow> map_of (fold AList.delete hs xs) h = None"
  by (induction hs arbitrary: xs) (simp_all add: delete_conv')

lemma assembly_of_components:
  assumes "map_of (ab_pending b) h = None"
    and b1_def: "b1 = adapter_block_validated now h k b"
    and b2_def: "b2 = add_merkle_root h m now b1"
    and b3_def: "b3 = add_state_root h r now b2"
  shows "adapter_try_complete h b1 bus = (b1, bus, Ok ())" "adapter_try_complete h b2 bus = (b2, bus, Ok ())"
    "adapter_try_complete h b3 bus = (fst (take_complete h b3), bus @ [ChBlockStored h k m r subsystem_id.BlockStorage], Ok ())"
proof -
  have "map_of (ab_pending (fst (enforce_max_pending b))) h = None"
    using assms(1) by (simp add: enforce_max_pending_def Let_def remove_all_def fold_delete_None)
  then have b1: "map_of (ab_pending b1) h = Some ((new_pending h now)\<lparr>pa_block_height := k, pa_validated_block := Some (placeholder_block k now)\<rparr>)"
    by (simp add: b1_def adapter_block_validated_def add_block_validated_def pending_entry_def update_conv' placeholder_block_def)
  then have b2: "map_of (ab_pending b2) h = Some ((new_pending h now)\<lparr>pa_block_height := k, pa_validated_block := Some (placeholder_block k now),
      pa_merkle_root := Some m\<rparr>)"
    by (simp add: b2_def add_merkle_root_def pending_entry_def update_conv')
  then have b3: "map_of (ab_pending b3) h = Some ((new_pending h now)\<lparr>pa_block_height := k, pa_validated_block := Some (placeholder_block k now),
      pa_merkle_root := Some m, pa_state_root := Some r\<rparr>)"
    by (simp add: b3_def add_state_root_def pending_entry_def update_conv')
  show "adapter_try_complete h b1 bus = (b1, bus, Ok ())" "adapter_try_complete h b2 bus = (b2, bus, Ok ())"
    "adapter_try_complete h b3 bus = (fst (take_complete h b3), bus @ [ChBlockStored h k m r subsystem_id.BlockStorage], Ok ())"
    using b1 b2 b3 by (simp_all add: adapter_try_complete_def take_complete_def is_complete_def pa_is_complete_def new_pending_def)
qed

definition quiet :: "'c node \<Rightarrow> bool" where
  "quiet n \<longleftrightarrow> nd_stopped n = [] \<and> nd_completing n = None \<and> (\<forall>s. nd_position n s = length (nd_bus n))"

text \<open>
  \<open>handled n n' s es\<close>: handler \<open>s\<close> of \<open>n\<close> has read one more event in \<open>n'\<close> and published \<open>es\<close>; the handlers are running.
\<close>

definition handled :: "'c node \<Rightarrow> 'c node \<Rightarrow> subsystem_id \<Rightarrow> choreography_event list \<Rightarrow> bool" where
  "handled n n' s es \<longleftrightarrow> nd_bus n' = nd_bus n @ es \<and> nd_position n' = (nd_position n)(s := nd_position n s + 1) \<and>
     nd_stopped n' = [] \<and> nd_completing n' = None"

lemma run_consensus_valid:
  assumes "bv_validate_block (cad_validator (nd_consensus n)) p (cad_chain_height (nd_consensus n)) now (cad_validated_blocks (nd_consensus n)) = Ok w"
    and e: "e = ChBlockProduced (vpar_block_hash p) (vpar_block_height p) (vpar_difficulty p) (vpar_nonce p) (vpar_timestamp p) (vpar_parent_hash p)
      subsystem_id.BlockProduction"
    and "nd_stopped n = []" "nd_completing n = None"
  shows "handled n (run_consensus now e n) subsystem_id.Consensus [ChBlockValidated (vpar_block_hash p) (vpar_block_height p) subsystem_id.Consensus]"
    "nd_buffer (run_consensus now e n) = nd_buffer n" "nd_trie (run_consensus now e n) = nd_trie n"
    "cad_chain_height (nd_consensus (run_consensus now e n)) = cad_chain_height (nd_consensus n)"
proof -
  have "consensus_dispatch now e (nd_consensus n) (nd_bus n) = (update_validated_blocks_cache (vpar_block_hash p) (nd_consensus n),
      nd_bus n @ [ChBlockValidated (vpar_block_hash p) (vpar_block_height p) subsystem_id.Consensus], True)"
    using assms(1) by (cases p) (simp add: e consensus_dispatch_def process_block_produced_def publish_block_validated_def)
  then show "handled n (run_consensus now e n) subsystem_id.Consensus [ChBlockValidated (vpar_block_hash p) (vpar_block_height p) subsystem_id.Consensus]"
    "nd_buffer (run_consensus now e n) = nd_buffer n" "nd_trie (run_consensus now e n) = nd_trie n"
    "cad_chain_height (nd_consensus (run_consensus now e n)) = cad_chain_height (nd_consensus n)"
    using assms(3,4) by (simp_all add: handled_def run_consensus_def update_validated_blocks_cache_def Let_def)
qed

lemma run_indexing_validated:
  assumes "nd_stopped n = []" "nd_completing n = None"
  shows "handled n (run_indexing P (ChBlockValidated h k subsystem_id.Consensus) n) subsystem_id.TransactionIndexing
      [ChMerkleRootComputed h SENTINEL_HASH subsystem_id.TransactionIndexing]"
    "nd_buffer (run_indexing P (ChBlockValidated h k subsystem_id.Consensus) n) = nd_buffer n"
    "nd_trie (run_indexing P (ChBlockValidated h k subsystem_id.Consensus) n) = nd_trie n"
    "nd_consensus (run_indexing P (ChBlockValidated h k subsystem_id.Consensus) n) = nd_consensus n"
  using assms by (simp_all add: handled_def run_indexing_def indexing_dispatch_def index_block_validated_def merkle_build_def Let_def)

lemma run_state_validated:
  assumes "nd_stopped n = []" "nd_completing n = None" "nd_trie n = new_trie"
  shows "handled n (run_state P (ChBlockValidated h k subsystem_id.Consensus) n) subsystem_id.StateManagement
      [ChStateRootComputed h EMPTY_TRIE_ROOT subsystem_id.StateManagement]"
    "nd_buffer (run_state P (ChBlockValidated h k subsystem_id.Consensus) n) = nd_buffer n"
    "nd_consensus (run_state P (ChBlockValidated h k subsystem_id.Consensus) n) = nd_consensus n"
  using assms by (simp_all add: handled_def run_state_def state_dispatch_def state_block_validated_def new_trie_def trie_with_config_def)

lemma storage_deliver_keeps [simp]: "nd_consensus (storage_deliver now e n) = nd_consensus n"
  by (simp add: storage_deliver_def run_storage_def run_completion_def Let_def split: prod.split option.split)

lemma storage_deliver_handled:
  assumes "storage_receive now e (nd_buffer n) = (b, Some h)" "adapter_try_complete h b (nd_bus n) = (b', nd_bus n @ es, Ok ())" "nd_stopped n = []"
  shows "handled n (storage_deliver now e n) subsystem_id.BlockStorage es" "nd_buffer (storage_deliver now e n) = b'"
  using assms by (simp_all add: handled_def storage_deliver_def run_storage_def run_completion_def Let_def)

text \<open>Reading on: the events a handler skips, and then one it handles.\<close>

lemma skip_then_handle:
  assumes bus: "nd_bus n = bus @ es @ e # rest" and pos: "nd_position n s = length bus" and idle: "nd_stopped n = []" "nd_completing n = None"
    and es: "\<forall>e \<in> set es. skips s e"
    and step: "\<And>m. next_event s m = Some e \<Longrightarrow> nd_completing m = None \<Longrightarrow> (node_step P)\<^sup>*\<^sup>* m (run m)"
  shows "(node_step P)\<^sup>*\<^sup>* n (run (n\<lparr>nd_position := (nd_position n)(s := length (bus @ es))\<rparr>))"
proof -
  let ?m = "n\<lparr>nd_position := (nd_position n)(s := length (bus @ es))\<rparr>"
  have "(node_step P)\<^sup>*\<^sup>* n ?m" using skip_steps [of n bus es "e # rest" s P] bus pos idle es by simp
  moreover have "next_event s ?m = Some e" using bus idle by (intro next_event_at [of _ "bus @ es" _ rest]) simp_all
  then have "(node_step P)\<^sup>*\<^sup>* ?m (run ?m)" using idle by (intro step) simp_all
  ultimately show ?thesis by (rule rtranclp_trans)
qed

lemma produced_block_is_validated:
  assumes q: "quiet n" "nd_trie n = new_trie" and B: "B = nd_bus n"
    and ok: "bv_validate_block (cad_validator (nd_consensus n)) p (cad_chain_height (nd_consensus n)) now (cad_validated_blocks (nd_consensus n)) = Ok w"
    and p: "h = vpar_block_hash p" "k = vpar_block_height p"
      "pr = ChBlockProduced h k (vpar_difficulty p) (vpar_nonce p) (vpar_timestamp p) (vpar_parent_hash p) subsystem_id.BlockProduction"
    and va: "va = ChBlockValidated h k subsystem_id.Consensus"
  shows "\<exists>n'. (node_step P)\<^sup>*\<^sup>* n n' \<and> nd_bus n' = B @ [pr, va, ChMerkleRootComputed h SENTINEL_HASH subsystem_id.TransactionIndexing,
      ChStateRootComputed h EMPTY_TRIE_ROOT subsystem_id.StateManagement] \<and>
    nd_position n' subsystem_id.Consensus = length B + 1 \<and> nd_position n' subsystem_id.BlockStorage = length B \<and>
    nd_position n' subsystem_id.Finality = length B \<and> nd_stopped n' = [] \<and> nd_completing n' = None \<and> nd_buffer n' = nd_buffer n \<and>
    cad_chain_height (nd_consensus n') = cad_chain_height (nd_consensus n)"
proof -
  define n0 where "n0 = n\<lparr>nd_bus := B @ [pr]\<rparr>"
  define n1 where "n1 = run_consensus now pr n0"
  define m2 where "m2 = n1\<lparr>nd_position := (nd_position n1)(subsystem_id.TransactionIndexing := length (B @ [pr]))\<rparr>"
  define n2 where "n2 = run_indexing P va m2"
  define m3 where "m3 = n2\<lparr>nd_position := (nd_position n2)(subsystem_id.StateManagement := length (B @ [pr]))\<rparr>"
  define n3 where "n3 = run_state P va m3"
  have skip: "skips subsystem_id.TransactionIndexing pr" "skips subsystem_id.StateManagement pr" by (simp_all add: skips_def p(3))
  have "node_step P n n0" using st_bridge [of P n] by (simp add: n0_def B bridge_block_produced_def p(3))
  moreover have "node_step P n0 n1" unfolding n1_def using q B by (intro st_consensus next_event_at [of _ B _ "[]"]) (simp_all add: n0_def quiet_def)
  ultimately have s1: "(node_step P)\<^sup>*\<^sup>* n n1" by (rule converse_rtranclp_into_rtranclp [OF _ r_into_rtranclp])
  have h1: "handled n0 n1 subsystem_id.Consensus [va]" "nd_buffer n1 = nd_buffer n" "nd_trie n1 = new_trie"
    "cad_chain_height (nd_consensus n1) = cad_chain_height (nd_consensus n)"
    using run_consensus_valid [of n0 p now w pr] ok q by (simp_all add: n0_def n1_def p va quiet_def)
  have s2: "(node_step P)\<^sup>*\<^sup>* n1 n2" unfolding n2_def m2_def using h1(1) q B skip(1)
    by (intro skip_then_handle [of n1 B "[pr]" va "[]"]) (auto simp: handled_def n0_def quiet_def intro: st_indexing)
  have h2: "handled m2 n2 subsystem_id.TransactionIndexing [ChMerkleRootComputed h SENTINEL_HASH subsystem_id.TransactionIndexing]"
    "nd_buffer n2 = nd_buffer n" "nd_trie n2 = new_trie" "nd_consensus n2 = nd_consensus n1"
    using run_indexing_validated [of m2 P h k] h1 by (simp_all add: n2_def va m2_def handled_def)
  have s3: "(node_step P)\<^sup>*\<^sup>* n2 n3" unfolding n3_def m3_def using h1(1) h2(1) q B skip(2)
    by (intro skip_then_handle [of n2 B "[pr]" va "[ChMerkleRootComputed h SENTINEL_HASH subsystem_id.TransactionIndexing]"])
       (auto simp: handled_def n0_def m2_def quiet_def intro: st_state)
  have h3: "handled m3 n3 subsystem_id.StateManagement [ChStateRootComputed h EMPTY_TRIE_ROOT subsystem_id.StateManagement]"
    "nd_buffer n3 = nd_buffer n" "nd_consensus n3 = nd_consensus n1"
    using run_state_validated [of m3 P h k] h2 by (simp_all add: n3_def va m3_def handled_def)
  have "(node_step P)\<^sup>*\<^sup>* n n3" using s1 s2 s3 by (meson rtranclp_trans)
  then show ?thesis using h1 h2 h3 q B by (intro exI [of _ n3]) (simp add: handled_def n0_def m2_def m3_def quiet_def)
qed

lemma components_are_stored:
  assumes bus: "nd_bus n = B @ [pr, va, me, st]"
    and ev: "skips subsystem_id.BlockStorage pr" "va = ChBlockValidated h k subsystem_id.Consensus"
      "me = ChMerkleRootComputed h m subsystem_id.TransactionIndexing" "st = ChStateRootComputed h r subsystem_id.StateManagement"
    and pos: "nd_position n subsystem_id.BlockStorage = length B" and idle: "nd_stopped n = []" "nd_completing n = None"
    and new: "map_of (ab_pending (nd_buffer n)) h = None"
  shows "\<exists>n'. (node_step P)\<^sup>*\<^sup>* n n' \<and> nd_bus n' = nd_bus n @ [ChBlockStored h k m r subsystem_id.BlockStorage] \<and>
    (\<forall>s. s \<noteq> subsystem_id.BlockStorage \<longrightarrow> nd_position n' s = nd_position n s) \<and> nd_stopped n' = [] \<and> nd_completing n' = None \<and>
    nd_consensus n' = nd_consensus n"
proof -
  define m1 where "m1 = n\<lparr>nd_position := (nd_position n)(subsystem_id.BlockStorage := length (B @ [pr]))\<rparr>"
  define n1 where "n1 = storage_deliver 0 va m1"
  define n2 where "n2 = storage_deliver 0 me n1"
  define n3 where "n3 = storage_deliver 0 st n2"
  define b1 where "b1 = adapter_block_validated 0 h k (nd_buffer n)"
  define b2 where "b2 = add_merkle_root h m 0 b1"
  define b3 where "b3 = add_state_root h r 0 b2"
  note complete = assembly_of_components [OF new b1_def b2_def b3_def]
  have h1: "handled m1 n1 subsystem_id.BlockStorage []" "nd_buffer n1 = b1"
    unfolding n1_def using idle complete(1) by (intro storage_deliver_handled [of _ _ _ b1 h b1]; simp add: m1_def ev(2) storage_receive_def b1_def)+
  have h2: "handled n1 n2 subsystem_id.BlockStorage []" "nd_buffer n2 = b2"
    unfolding n2_def using h1 complete(2) by (intro storage_deliver_handled [of _ _ _ b2 h b2]; simp add: ev(3) storage_receive_def b2_def handled_def)+
  have h3: "handled n2 n3 subsystem_id.BlockStorage [ChBlockStored h k m r subsystem_id.BlockStorage]"
    unfolding n3_def using h2 complete(3)
    by (intro storage_deliver_handled(1) [of _ _ _ b3 h "fst (take_complete h b3)"]) (simp_all add: ev(4) storage_receive_def b3_def handled_def)
  have "(node_step P)\<^sup>*\<^sup>* n n1" unfolding n1_def m1_def
    using bus pos idle ev(1) by (intro skip_then_handle [of n B "[pr]" va "[me, st]"] storage_deliver_steps) simp_all
  also have "(node_step P)\<^sup>*\<^sup>* n1 n2" unfolding n2_def using h1 bus
    by (intro storage_deliver_steps next_event_at [of _ "B @ [pr, va]" _ "[st]"]) (simp_all add: handled_def m1_def)
  also have "(node_step P)\<^sup>*\<^sup>* n2 n3" unfolding n3_def using h1 h2 bus
    by (intro storage_deliver_steps next_event_at [of _ "B @ [pr, va, me]" _ "[]"]) (simp_all add: handled_def m1_def)
  finally have "(node_step P)\<^sup>*\<^sup>* n n3" .
  moreover have "nd_consensus n3 = nd_consensus n" by (simp add: n3_def n2_def n1_def m1_def)
  ultimately show ?thesis using h1 h2 h3 by (intro exI [of _ n3]) (simp add: handled_def m1_def)
qed

definition finalized_events :: "hash \<Rightarrow> u64 \<Rightarrow> choreography_event list" where
  "finalized_events h k = (if k mod 4 \<noteq> 0 \<and> 10 < k then [] else [ChBlockFinalized h k [] subsystem_id.Finality])"

lemma stored_block_is_tracked:
  assumes bus: "nd_bus n = B @ [pr, va, me, st, sd]"
    and ev: "\<forall>e \<in> set [va, me, st]. skips subsystem_id.Consensus e" "\<forall>e \<in> set [pr, va, me, st]. skips subsystem_id.Finality e"
      "sd = ChBlockStored h k m r subsystem_id.BlockStorage"
    and pos: "nd_position n subsystem_id.Consensus = length B + 1" "nd_position n subsystem_id.Finality = length B"
    and idle: "nd_stopped n = []" "nd_completing n = None"
  shows "\<exists>n'. (node_step P)\<^sup>*\<^sup>* n n' \<and> nd_bus n' = nd_bus n @ finalized_events h k \<and>
    cad_chain_height (nd_consensus n') = max (cad_chain_height (nd_consensus n)) k"
proof -
  define m1 where "m1 = n\<lparr>nd_position := (nd_position n)(subsystem_id.Consensus := length ((B @ [pr]) @ [va, me, st]))\<rparr>"
  define n1 where "n1 = run_consensus 0 sd m1"
  define m2 where "m2 = n1\<lparr>nd_position := (nd_position n1)(subsystem_id.Finality := length (B @ [pr, va, me, st]))\<rparr>"
  define n2 where "n2 = run_finality sd m2"
  have n1: "nd_bus n1 = nd_bus n" "nd_stopped n1 = []" "nd_completing n1 = None" "nd_position n1 subsystem_id.Finality = length B"
    "cad_chain_height (nd_consensus n1) = max (cad_chain_height (nd_consensus n)) k"
    using idle pos by (simp_all add: n1_def m1_def ev(3) run_consensus_def consensus_dispatch_def adapter_block_stored_def max_def less_imp_le)
  have "(node_step P)\<^sup>*\<^sup>* n n1" unfolding n1_def m1_def using bus pos idle ev(1)
    by (intro skip_then_handle [of n "B @ [pr]" "[va, me, st]" sd "[]"]) (auto intro: st_consensus)
  moreover have "(node_step P)\<^sup>*\<^sup>* n1 n2" unfolding n2_def m2_def using bus n1 ev(2)
    by (intro skip_then_handle [of n1 B "[pr, va, me, st]" sd "[]"]) (auto intro: st_finality)
  ultimately have "(node_step P)\<^sup>*\<^sup>* n n2" by (rule rtranclp_trans)
  moreover have "nd_bus n2 = nd_bus n @ finalized_events h k" "nd_consensus n2 = nd_consensus n1"
    by (simp_all add: n2_def m2_def n1 run_finality_def finality_dispatch_def finality_block_stored_def finalized_events_def ev(3))
  ultimately show ?thesis using n1 by auto
qed

lemma deliver_block:
  fixes now :: u64
  assumes n: "node_reachable P n" "quiet n"
    and new: "h \<notin> set (cad_validated_blocks (nd_consensus n))" "map_of (ab_pending (nd_buffer n)) h = None"
    and ok: "from_be_bytes d \<noteq> (0 :: u256)" "unat time \<le> unat now + 15" "unat now + 15 < 2 ^ 64"
      "unat (cad_chain_height (nd_consensus n)) + 1 < 2 ^ 64"
  shows "\<exists>n'. (node_step P)\<^sup>*\<^sup>* n n' \<and>
    nd_bus n' = nd_bus n @
      [ChBlockProduced h k d nonce time parent subsystem_id.BlockProduction, ChBlockValidated h k subsystem_id.Consensus,
       ChMerkleRootComputed h SENTINEL_HASH subsystem_id.TransactionIndexing,
       ChStateRootComputed h EMPTY_TRIE_ROOT subsystem_id.StateManagement,
       ChBlockStored h k SENTINEL_HASH EMPTY_TRIE_ROOT subsystem_id.BlockStorage] @ finalized_events h k \<and>
    cad_chain_height (nd_consensus n') = max (cad_chain_height (nd_consensus n)) k"
proof -
  let ?p = "\<lparr>vpar_block_hash = h, vpar_block_height = k, vpar_difficulty = d, vpar_nonce = nonce, vpar_timestamp = time, vpar_parent_hash = parent\<rparr>"
  have inv: "nd_trie n = new_trie" "cad_validator (nd_consensus n) = default_block_validation_config"
    using node_reachable_inv [OF n(1)] by (simp_all add: node_inv_def cache_tracks_def)
  obtain w where "bv_validate_block (cad_validator (nd_consensus n)) ?p (cad_chain_height (nd_consensus n)) now
      (cad_validated_blocks (nd_consensus n)) = Ok w"
    using block_valid_iff [of "cad_validator (nd_consensus n)" ?p "cad_chain_height (nd_consensus n)" now "cad_validated_blocks (nd_consensus n)"]
      new(1) ok by (auto simp: inv(2) default_block_validation_config_def)
  from produced_block_is_validated [OF n(2) inv(1) refl this refl refl refl refl, of P] obtain n1 where n1: "(node_step P)\<^sup>*\<^sup>* n n1"
    "nd_bus n1 = nd_bus n @ [ChBlockProduced h k d nonce time parent subsystem_id.BlockProduction, ChBlockValidated h k subsystem_id.Consensus,
       ChMerkleRootComputed h SENTINEL_HASH subsystem_id.TransactionIndexing, ChStateRootComputed h EMPTY_TRIE_ROOT subsystem_id.StateManagement]"
    "nd_position n1 subsystem_id.Consensus = length (nd_bus n) + 1" "nd_position n1 subsystem_id.BlockStorage = length (nd_bus n)"
    "nd_position n1 subsystem_id.Finality = length (nd_bus n)" "nd_stopped n1 = []" "nd_completing n1 = None" "nd_buffer n1 = nd_buffer n"
    "cad_chain_height (nd_consensus n1) = cad_chain_height (nd_consensus n)" by auto
  from components_are_stored [OF n1(2) _ refl refl refl n1(4,6,7), of P] new(2) n1(8) obtain n2 where n2: "(node_step P)\<^sup>*\<^sup>* n1 n2"
    "nd_bus n2 = nd_bus n1 @ [ChBlockStored h k SENTINEL_HASH EMPTY_TRIE_ROOT subsystem_id.BlockStorage]"
    "\<forall>s. s \<noteq> subsystem_id.BlockStorage \<longrightarrow> nd_position n2 s = nd_position n1 s" "nd_stopped n2 = []" "nd_completing n2 = None"
    "nd_consensus n2 = nd_consensus n1" by (auto simp: skips_def)
  obtain n3 where n3: "(node_step P)\<^sup>*\<^sup>* n2 n3" "nd_bus n3 = nd_bus n2 @ finalized_events h k"
    "cad_chain_height (nd_consensus n3) = max (cad_chain_height (nd_consensus n2)) k"
    using stored_block_is_tracked [of n2 "nd_bus n" _ _ _ _ _ h k, OF _ _ _ refl, of _ _ _ _ _ _ P] n2 n1 by (auto simp: skips_def)
  have "(node_step P)\<^sup>*\<^sup>* n n3" using n1(1) n2(1) n3(1) by (meson rtranclp_trans)
  then show ?thesis using n1 n2 n3 by (intro exI [of _ n3]) simp
qed

section \<open>Properties\<close>

text \<open>
  C3. No effect without its cause. In the log of a running node, under every interleaving of the handlers, lagging
  receivers, garbage collection and panics included, each event was caused by earlier ones: a block is validated only
  after it was produced with a non-zero difficulty, roots are computed only for validated blocks, a block is stored
  only after its validation at that height and after exactly the two roots it is stored with, and only stored blocks
  are finalized.
\<close>

theorem events_have_causes:
  assumes "node_reachable P n" "i < length (nd_bus n)"
  shows "caused (take i (nd_bus n)) (nd_bus n ! i)"
  using node_reachable_inv [OF assms(1)] assms(2) by (simp add: node_inv_def causal_def)

text \<open>
  C30. A block is validated once. As long as the log of a node holds at most 1000 validations, no block hash was
  validated twice, whatever blocks were produced.
\<close>

theorem blocks_validated_once:
  assumes "node_reachable P n" "length (validated_hashes (nd_bus n)) \<le> 1000"
  shows "distinct (validated_hashes (nd_bus n))"
  using node_reachable_inv [OF assms(1)] assms(2) by (simp add: node_inv_def cache_tracks_def)


text \<open>
  C38. The stored roots say nothing about the block. The handlers pass empty transaction lists on, so every block a
  node stores has the Merkle root of no transactions and the root of the empty state.
\<close>

theorem stored_roots_are_constant:
  assumes "node_reachable P n" "ChBlockStored h k merkle state s \<in> set (nd_bus n)"
  shows "merkle = SENTINEL_HASH \<and> state = EMPTY_TRIE_ROOT"
proof -
  have inv: "causal (nd_bus n)" "\<forall>e \<in> set (nd_bus n). empty_roots e" using node_reachable_inv [OF assms(1)] by (simp_all add: node_inv_def)
  have "ChMerkleRootComputed h merkle subsystem_id.TransactionIndexing \<in> set (nd_bus n)"
    "ChStateRootComputed h state subsystem_id.StateManagement \<in> set (nd_bus n)" using causal_member [OF inv(1) assms(2)] by simp_all
  then show ?thesis using inv(2) by fastforce
qed

definition sample_node_ports :: "(nat \<times> (hash \<times> merkle_tree) list) node_ports" where
  "sample_node_ports = \<lparr>np_sha3 = (\<lambda>_. 1), np_keccak = (\<lambda>_. 1), np_lru = list_lru, np_iter = (\<lambda>l. l),
     np_ordering_config = default_ordering_config\<rparr>"

definition sample_node :: "(nat \<times> (hash \<times> merkle_tree) list) node" where
  "sample_node = start_node sample_node_ports \<lparr>max_cached_trees = 10, persist_index = False\<rparr> default_assembly_config 0"

definition sample_difficulty :: "u8 list" where
  "sample_difficulty = 1 # replicate 31 0"

lemma sample_difficulty_nonzero [simp]: "from_be_bytes sample_difficulty \<noteq> (0 :: u256)"
  by code_simp

abbreviation "sample_produced \<equiv> ChBlockProduced 7 1 sample_difficulty 0 5 0 subsystem_id.BlockProduction"

definition sample_validated_node :: "(nat \<times> (hash \<times> merkle_tree) list) node" where
  "sample_validated_node = run_consensus 5 sample_produced (sample_node\<lparr>nd_bus := [sample_produced]\<rparr>)"

lemma sample_node_reachable: "node_reachable sample_node_ports sample_node"
  unfolding node_reachable_def sample_node_def by blast

lemma sample_validated_bus: "nd_bus sample_validated_node = [sample_produced, ChBlockValidated 7 1 subsystem_id.Consensus]"
  by (simp add: sample_validated_node_def run_consensus_def consensus_dispatch_def process_block_produced_def publish_block_validated_def
      bv_validate_block_def bv_check_duplicate_def bv_validate_height_def bv_validate_difficulty_def bv_validate_timestamp_def
      sample_node_def start_node_def set_initial_chain_height_def new_consensus_adapter_def default_block_validation_config_def
      checked_add_def or_panic_def)

lemma sample_validated_reachable: "node_reachable sample_node_ports sample_validated_node"
proof -
  have "node_step sample_node_ports sample_node (sample_node\<lparr>nd_bus := [sample_produced]\<rparr>)"
    using st_bridge [of sample_node_ports sample_node 7 1 sample_difficulty 0 5 0] by (simp add: sample_node_def start_node_def bridge_block_produced_def)
  moreover have "node_step sample_node_ports (sample_node\<lparr>nd_bus := [sample_produced]\<rparr>) sample_validated_node"
    unfolding sample_validated_node_def by (rule st_consensus) (simp add: next_event_def sample_node_def start_node_def)
  ultimately show ?thesis using sample_node_reachable unfolding node_reachable_def by (meson rtranclp.rtrancl_into_rtrancl)
qed

theorem events_have_causes_witness:
  "caused [sample_produced] (ChBlockValidated 7 1 subsystem_id.Consensus)"
  using events_have_causes [OF sample_validated_reachable, of 1] by (simp add: sample_validated_bus)

theorem blocks_validated_once_witness:
  "validated_hashes (nd_bus sample_validated_node) = [7] \<and> distinct (validated_hashes (nd_bus sample_validated_node))"
  using blocks_validated_once [OF sample_validated_reachable] by (simp add: sample_validated_bus)

lemma sample_node_quiet:
  "quiet sample_node" "(7 :: hash) \<notin> set (cad_validated_blocks (nd_consensus sample_node))"
  "map_of (ab_pending (nd_buffer sample_node)) (7 :: hash) = None" "unat (cad_chain_height (nd_consensus sample_node)) + 1 < 2 ^ 64"
  by (simp_all add: quiet_def sample_node_def start_node_def set_initial_chain_height_def new_consensus_adapter_def new_buffer_def)


theorem stored_roots_are_constant_witness:
  "\<exists>n merkle state. node_reachable sample_node_ports n \<and> ChBlockStored 7 1 merkle state subsystem_id.BlockStorage \<in> set (nd_bus n) \<and>
     merkle = SENTINEL_HASH \<and> state = EMPTY_TRIE_ROOT"
proof -
  obtain n where n: "(node_step sample_node_ports)\<^sup>*\<^sup>* sample_node n"
    "ChBlockStored 7 1 SENTINEL_HASH EMPTY_TRIE_ROOT subsystem_id.BlockStorage \<in> set (nd_bus n)"
    using deliver_block [OF sample_node_reachable sample_node_quiet(1-3), of sample_difficulty 5 5 1 0 0] sample_node_quiet(4) by auto
  have "node_reachable sample_node_ports n" using n(1) sample_node_reachable unfolding node_reachable_def by (meson rtranclp_trans)
  with stored_roots_are_constant [OF this n(2)] n(2) show ?thesis by blast
qed

end
