(* ===== verification/Spec2Isabelle.thy ===== *)
theory Spec2Isabelle
  imports MempoolIpc TxIndex FinalityGadget TxOrdering BlockStorage StateIpc CrossChain EvmService Precompiles ForkChoice Choreography
begin

text \<open>Verification of the Quantum-Chain node.\<close>

end
